(* ===== verification/Prelude.thy ===== *)
theory Prelude
  imports Main "HOL-Library.Word" "HOL-Library.Monad_Syntax"
begin

text \<open>
  Shared vocabulary of the development.

  \<^item> Machine integers: \<open>u8\<close>, \<open>u16\<close>, \<open>u32\<close>, \<open>u64\<close> are words of that width;
    \<open>usize\<close> (64 bits on the modelled targets) is a \<open>nat\<close>, with the saturating and checked
    operations of the source written out against \<open>usize_max\<close>.
  \<^item> Panics: a Rust operation that may panic (index, slice, \<open>copy_from_slice\<close>, \<open>expect\<close>)
    returns an \<open>option\<close> whose \<open>None\<close> is the panic, and \<open>do\<close>-notation sequences them.
  \<^item> Byte order: little-endian splitting and joining of words, and their round trips.
  \<^item> The collections \<open>access_simps\<close> (checked accesses that are in range) and
    \<open>len_simps\<close> (lengths of the model's lists).
\<close>

unbundle bit_operations_syntax

section \<open>Types\<close>

type_synonym u8 = "8 word"
type_synonym u16 = "16 word"
type_synonym u32 = "32 word"
type_synonym u64 = "64 word"
type_synonym usize = nat

named_theorems access_simps \<open>checked accesses that are in range\<close>
named_theorems len_simps \<open>lengths of the lists of the model\<close>

section \<open>usize arithmetic of the source\<close>

definition usize_max :: usize where
  "usize_max = 2 ^ 64 - 1"

definition saturating_add :: "usize \<Rightarrow> usize \<Rightarrow> usize" where
  "saturating_add a b = min (a + b) usize_max"

definition saturating_mul :: "usize \<Rightarrow> usize \<Rightarrow> usize" where
  "saturating_mul a b = min (a * b) usize_max"

definition checked_add :: "usize \<Rightarrow> usize \<Rightarrow> usize option" where
  "checked_add a b = (if a + b \<le> usize_max then Some (a + b) else None)"

definition checked_mul :: "usize \<Rightarrow> usize \<Rightarrow> usize option" where
  "checked_mul a b = (if a * b \<le> usize_max then Some (a * b) else None)"

definition checked_sub :: "usize \<Rightarrow> usize \<Rightarrow> usize option" where
  "checked_sub a b = (if b \<le> a then Some (a - b) else None)"

definition div_ceil :: "usize \<Rightarrow> usize \<Rightarrow> usize" where
  "div_ceil a b = (if a mod b = 0 then a div b else a div b + 1)"

lemma div_ceil_mult_ge: "0 < b \<Longrightarrow> a \<le> div_ceil a b * b"
proof -
  assume b: "0 < b"
  have split: "a = a div b * b + a mod b" and small: "a mod b < b"
    using b by simp_all
  show ?thesis
  proof (cases "a mod b = 0")
    case True
    then show ?thesis using split by (simp add: div_ceil_def)
  next
    case False
    have "a \<le> a div b * b + b" using split small by linarith
    then show ?thesis using False by (simp add: div_ceil_def)
  qed
qed

lemma div_ceil_lt_mult: "0 < b \<Longrightarrow> i < div_ceil a b \<Longrightarrow> i * b < a"
proof -
  assume b: "0 < b" and i: "i < div_ceil a b"
  have split: "a = a div b * b + a mod b" by simp
  show ?thesis
  proof (cases "a mod b = 0")
    case True
    with i have "Suc i \<le> a div b" by (simp add: div_ceil_def)
    then have "Suc i * b \<le> a div b * b" by (rule mult_le_mono1)
    also have "\<dots> \<le> a" by simp
    finally show ?thesis using b by simp
  next
    case False
    with i have "i \<le> a div b" by (simp add: div_ceil_def)
    then have "i * b \<le> a div b * b" by (rule mult_le_mono1)
    moreover have "0 < a mod b" using False by simp
    ultimately show ?thesis using split by linarith
  qed
qed

lemma div_ceil_pos: "0 < b \<Longrightarrow> 0 < a \<Longrightarrow> 0 < div_ceil a b"
  using div_ceil_mult_ge [of b a] by (cases "div_ceil a b") auto

lemma div_ceil_eqI: "0 < b \<Longrightarrow> a \<le> n * b \<Longrightarrow> (n - 1) * b < a \<Longrightarrow> div_ceil a b = n"
proof -
  assume b: "0 < b" and up: "a \<le> n * b" and lo: "(n - 1) * b < a"
  have "\<not> n < div_ceil a b" using div_ceil_lt_mult [OF b, of n a] up by auto
  moreover have "\<not> div_ceil a b < n"
  proof
    assume "div_ceil a b < n"
    then have "div_ceil a b \<le> n - 1" by simp
    then have "div_ceil a b * b \<le> (n - 1) * b" by (rule mult_le_mono1)
    with div_ceil_mult_ge [OF b, of a] lo show False by simp
  qed
  ultimately show ?thesis by simp
qed

lemma div_ceil_0 [simp]: "div_ceil 0 b = 0"
  by (simp add: div_ceil_def)

section \<open>Checked access to vectors and slices\<close>

definition get_at :: "'a list \<Rightarrow> usize \<Rightarrow> 'a option" where
  "get_at xs i = (if i < length xs then Some (xs ! i) else None)"

definition set_at :: "'a list \<Rightarrow> usize \<Rightarrow> 'a \<Rightarrow> 'a list option" where
  "set_at xs i v = (if i < length xs then Some (xs[i := v]) else None)"

text \<open>\<open>slice xs a b\<close> is \<open>&xs[a..b]\<close>; \<open>splice xs a ys\<close> writes \<open>ys\<close> into
  \<open>xs[a..a + ys.len()]\<close>, which is what a \<open>copy_from_slice\<close> into that subslice does.\<close>

definition slice :: "'a list \<Rightarrow> usize \<Rightarrow> usize \<Rightarrow> 'a list option" where
  "slice xs a b = (if a \<le> b \<and> b \<le> length xs then Some (take (b - a) (drop a xs)) else None)"

definition splice :: "'a list \<Rightarrow> usize \<Rightarrow> 'a list \<Rightarrow> 'a list option" where
  "splice xs a ys =
     (if a + length ys \<le> length xs
      then Some (take a xs @ ys @ drop (a + length ys) xs) else None)"

definition copy_from_slice :: "'a list \<Rightarrow> 'a list \<Rightarrow> 'a list option" where
  "copy_from_slice dst src = (if length dst = length src then Some src else None)"

lemma copy_from_slice_eq [access_simps]: "length dst = length src \<Longrightarrow> copy_from_slice dst src = Some src"
  by (simp add: copy_from_slice_def)

lemma get_at_in [access_simps]: "i < length xs \<Longrightarrow> get_at xs i = Some (xs ! i)"
  by (simp add: get_at_def)

lemma set_at_in [access_simps]: "i < length xs \<Longrightarrow> set_at xs i v = Some (xs[i := v])"
  by (simp add: set_at_def)

lemma slice_in [access_simps]:
  "a \<le> b \<Longrightarrow> b \<le> length xs \<Longrightarrow> slice xs a b = Some (take (b - a) (drop a xs))"
  by (simp add: slice_def)

lemma splice_in [access_simps]:
  "a + length ys \<le> length xs \<Longrightarrow> splice xs a ys = Some (take a xs @ ys @ drop (a + length ys) xs)"
  by (simp add: splice_def)

section \<open>Little-endian bytes\<close>

definition le_bytes16 :: "u16 \<Rightarrow> u8 list" where
  "le_bytes16 w = [ucast w, ucast (drop_bit 8 w)]"

definition le_bytes32 :: "u32 \<Rightarrow> u8 list" where
  "le_bytes32 w = [ucast w, ucast (drop_bit 8 w), ucast (drop_bit 16 w), ucast (drop_bit 24 w)]"

definition of_le16 :: "u8 \<Rightarrow> u8 \<Rightarrow> u16" where
  "of_le16 a b = ucast a OR push_bit 8 (ucast b)"

definition of_le32 :: "u8 \<Rightarrow> u8 \<Rightarrow> u8 \<Rightarrow> u8 \<Rightarrow> u32" where
  "of_le32 a b c d =
     ucast a OR push_bit 8 (ucast b) OR push_bit 16 (ucast c) OR push_bit 24 (ucast d)"

lemma length_le_bytes16 [simp, len_simps]: "length (le_bytes16 w) = 2"
  by (simp add: le_bytes16_def)

lemma length_le_bytes32 [simp, len_simps]: "length (le_bytes32 w) = 4"
  by (simp add: le_bytes32_def)

lemma bit_index_shift: "m \<le> i \<Longrightarrow> bit w (m + (i - m)) = bit w (i :: nat)"
  by simp

lemma of_le16_bytes [simp]: "of_le16 (ucast w) (ucast (drop_bit 8 w)) = w"
  unfolding of_le16_def by (rule bit_word_eqI) (auto simp: bit_simps)

lemma of_le32_bytes [simp]:
  "of_le32 (ucast w) (ucast (drop_bit 8 w)) (ucast (drop_bit 16 w)) (ucast (drop_bit 24 w)) = w"
proof (rule bit_word_eqI)
  fix i :: nat assume i: "i < LENGTH(32)"
  consider "i < 8" | "8 \<le> i \<and> i < 16" | "16 \<le> i \<and> i < 24" | "24 \<le> i \<and> i < 32"
    using i by (simp, linarith)
  then show "bit (of_le32 (ucast w) (ucast (drop_bit 8 w)) (ucast (drop_bit 16 w))
      (ucast (drop_bit 24 w))) i = bit w i"
    by cases (auto simp: of_le32_def bit_simps)
qed

lemma bit_of_le32:
  "bit (of_le32 a b c d) i =
     (if i < 8 then bit a i else if i < 16 then bit b (i - 8)
      else if i < 24 then bit c (i - 16) else bit d (i - 24))"
proof -
  have out: "j < 8" if "bit z j" for z :: u8 and j
    using bit_imp_le_length [OF that] by simp
  consider "i < 8" | "8 \<le> i \<and> i < 16" | "16 \<le> i \<and> i < 24" | "24 \<le> i \<and> i < 32" | "32 \<le> i"
    by linarith
  then show ?thesis
    using out [of a i] out [of b "i - 8"] out [of c "i - 16"] out [of d "i - 24"]
    by cases (auto simp: of_le32_def bit_simps)
qed

lemma bytes_of_le32:
  "le_bytes32 (of_le32 a b c d) = [a, b, c, d]"
proof -
  have "ucast (drop_bit n (of_le32 a b c d)) = z"
    if "\<And>i. i < 8 \<Longrightarrow> bit (of_le32 a b c d) (n + i) = bit z i" for n and z :: u8
    using that by (intro bit_word_eqI) (simp add: bit_ucast_iff bit_drop_bit_eq)
  from this [of 0 a] this [of 8 b] this [of 16 c] this [of 24 d]
  show ?thesis by (simp add: le_bytes32_def bit_of_le32)
qed

lemma of_le32_nth: "of_le32 (le_bytes32 w ! 0) (le_bytes32 w ! 1) (le_bytes32 w ! 2) (le_bytes32 w ! 3) = w"
  using of_le32_bytes [of w] by (simp add: le_bytes32_def)

lemma le_bytes32_inj: "le_bytes32 x = le_bytes32 y \<longleftrightarrow> x = y"
  by (metis of_le32_nth)

section \<open>Invertibility of the mixing steps\<close>

text \<open>A right xor-shift loses nothing: the top bits are unchanged and each lower bit is
  recovered from a higher one.\<close>

lemma xor_shift_inj:
  fixes x y :: "'a::len word"
  assumes n: "0 < n" and eq: "x XOR drop_bit n x = y XOR drop_bit n y"
  shows "x = y"
proof (rule bit_word_eqI)
  fix i
  have high: "bit x i = bit y i" if "LENGTH('a) \<le> i" for i
    using that by (auto dest: bit_imp_le_length)
  have flip: "(bit x i \<noteq> bit x (n + i)) = (bit y i \<noteq> bit y (n + i))" for i
  proof -
    have "bit (x XOR drop_bit n x) i = bit (y XOR drop_bit n y) i" using eq by simp
    then show ?thesis by (simp add: bit_simps)
  qed
  show "bit x i = bit y i"
  proof (induction "LENGTH('a) - i" arbitrary: i rule: less_induct)
    case less
    show ?case
    proof (cases "LENGTH('a) \<le> i")
      case True
      then show ?thesis by (rule high)
    next
      case False
      then have "LENGTH('a) - (n + i) < LENGTH('a) - i" using n by simp
      then have "bit x (n + i) = bit y (n + i)" by (rule less)
      then show ?thesis using flip [of i] by auto
    qed
  qed
qed

text \<open>Multiplication by a constant with an inverse modulo \<open>2 ^ w\<close> loses nothing either.\<close>

lemma mult_inverse_inj:
  fixes x y :: "'a::len word"
  assumes inv: "c * d = 1" and eq: "x * c = y * c"
  shows "x = y"
proof -
  have "x * c * d = y * c * d" using eq by simp
  then show ?thesis by (simp add: mult.assoc inv)
qed

section \<open>Words as numbers\<close>

lemma unat_inj_on: "inj_on unat (A :: 'a::len word set)"
  by (simp add: inj_on_def word_unat_eq_iff)

lemma u16_less: "unat (w :: u16) < 2 ^ 16"
  using unsigned_less [of w] by simp

lemma u32_less: "unat (w :: u32) < 2 ^ 32"
  using unsigned_less [of w] by simp

section \<open>Lists\<close>

lemma nth_map2: "i < length xs \<Longrightarrow> i < length ys \<Longrightarrow> map2 f xs ys ! i = f (xs ! i) (ys ! i)"
  by simp

lemma take_eq_prefix_update: "i < length xs \<Longrightarrow> take i xs @ v # drop (Suc i) xs = xs[i := v]"
  by (simp add: upd_conv_take_nth_drop)

end
