(* ===== verification/Errors.thy ===== *)
theory Errors
  imports Prelude
begin

text \<open>
  The crate's error type (\<open>src/error.rs\<close>): one constructor per variant, in the source's
  order, the \<open>Result\<close> alias as a sum whose left side is the error, and the \<open>Display\<close> texts,
  which tell the errors apart.
\<close>

datatype error =
    Empty
  | TooLarge (too_large_len: nat) (too_large_max: nat)
  | Meta
  | Truncated
  | BadMagic
  | Compression u8
  | Lengths
  | InvalidStream
  | ResourceLimit
  | InvalidFrameSize (actual: usize) (expected: usize)
  | SequenceExhausted
  | CorruptFrame
  | StreamConflict
  | GzipIncomplete
  | GzipSize
  | Inflate string
  | Codec string
  | NoCompression
  | NoEncryption
  | InvalidKey
  | InvalidProof
  | Crypto

type_synonym 'a result = "error + 'a"

section \<open>Display\<close>

text \<open>What \<open>write!\<close> makes of an unsigned number.\<close>

fun decimal :: "nat \<Rightarrow> string" where
  "decimal n = (if n < 10 then [char_of (48 + n)] else decimal (n div 10) @ [char_of (48 + n mod 10)])"

declare decimal.simps [simp del]

definition error_display :: "error \<Rightarrow> string" where
  "error_display e = (case e of
       Empty \<Rightarrow> ''empty payload''
     | TooLarge len maximum \<Rightarrow> decimal len @ '' bytes exceeds '' @ decimal maximum
     | Meta \<Rightarrow> ''metadata too long''
     | Truncated \<Rightarrow> ''truncated header''
     | BadMagic \<Rightarrow> ''invalid magic''
     | Compression m \<Rightarrow> ''unsupported compression '' @ decimal (unat m)
     | Lengths \<Rightarrow> ''length mismatch''
     | InvalidStream \<Rightarrow> ''inconsistent stream header''
     | ResourceLimit \<Rightarrow> ''stream exceeds configured receiver limits''
     | InvalidFrameSize a x \<Rightarrow> ''invalid frame size '' @ decimal a @ '', expected '' @ decimal x
     | SequenceExhausted \<Rightarrow> ''frame sequence exhausted''
     | CorruptFrame \<Rightarrow> ''frame integrity check failed''
     | StreamConflict \<Rightarrow> ''receiver is locked to another stream''
     | GzipIncomplete \<Rightarrow> ''gzip payload incomplete''
     | GzipSize \<Rightarrow> ''gzip size mismatch''
     | Inflate msg \<Rightarrow> ''inflate: '' @ msg
     | Codec msg \<Rightarrow> ''codec: '' @ msg
     | NoCompression \<Rightarrow> ''compression disabled in no_std build''
     | NoEncryption \<Rightarrow> ''encryption disabled in this build''
     | InvalidKey \<Rightarrow> ''invalid or non-contributory public key''
     | InvalidProof \<Rightarrow> ''relation proof verification failed''
     | error.Crypto \<Rightarrow> ''authenticated decryption failed'')"

text \<open>A decimal numeral is read back digit by digit.\<close>

definition read_decimal :: "string \<Rightarrow> nat" where
  "read_decimal s = foldl (\<lambda>n c. 10 * n + (of_char c - 48)) 0 s"

definition digits_of :: "string \<Rightarrow> string" where
  "digits_of s = takeWhile (\<lambda>c. 48 \<le> (of_char c :: nat) \<and> (of_char c :: nat) < 58) s"

lemma decimal_digits: "c \<in> set (decimal n) \<Longrightarrow> 48 \<le> (of_char c :: nat) \<and> (of_char c :: nat) < 58"
proof (induction n rule: decimal.induct)
  case (1 n)
  have "n mod 10 < 10" by simp
  then have "48 + n mod 10 < 256" "48 + n mod 10 < 58" by linarith+
  then show ?case using 1
    by (auto simp: decimal.simps [of n] split: if_splits)
qed

lemma read_decimal: "read_decimal (decimal n) = n"
proof (induction n rule: decimal.induct)
  case (1 n)
  have "n mod 10 < 10" by simp
  then have "48 + n mod 10 < 256" by linarith
  then show ?case using 1 by (simp add: decimal.simps [of n] read_decimal_def)
qed

lemma decimal_nonempty [simp]: "decimal n \<noteq> []"
  by (simp add: decimal.simps [of n])

lemma digits_of_decimal: "digits_of (decimal n @ s) = decimal n @ digits_of s"
  using decimal_digits by (simp add: digits_of_def takeWhile_append2)

lemma decimal_inj: "decimal m = decimal n \<longleftrightarrow> m = n"
proof
  assume same: "decimal m = decimal n"
  have "m = read_decimal (decimal m)" by (rule read_decimal [symmetric])
  also have "\<dots> = n" unfolding same by (rule read_decimal)
  finally show "m = n" .
qed simp

lemma decimal_tail:
  assumes "decimal m @ s = decimal n @ t" and "digits_of s = []" and "digits_of t = []"
  shows "m = n" and "s = t"
proof -
  have "digits_of (decimal m @ s) = digits_of (decimal n @ t)" by (simp only: assms(1))
  then have "decimal m = decimal n" unfolding digits_of_decimal assms(2,3) by (simp only: append_Nil2)
  then show m: "m = n" by (simp only: decimal_inj)
  show "s = t" using assms(1) unfolding m by simp
qed

lemma decimal_hd: "\<not> (48 \<le> (of_char c :: nat) \<and> (of_char c :: nat) < 58) \<Longrightarrow> decimal n @ s \<noteq> c # t"
  using decimal_digits [of c n] by (cases "decimal n") auto

lemma two_decimals:
  assumes "digits_of sep = []" and "sep \<noteq> []"
  shows "decimal a @ sep @ decimal b = decimal a' @ sep @ decimal b' \<longleftrightarrow> a = a' \<and> b = b'"
proof
  assume eq: "decimal a @ sep @ decimal b = decimal a' @ sep @ decimal b'"
  have "digits_of (sep @ s) = []" for s using assms by (cases sep) (auto simp: digits_of_def split: if_splits)
  from decimal_tail [OF eq this this] show "a = a' \<and> b = b'" by (simp add: decimal_inj)
qed simp

lemma separators: "digits_of '' bytes exceeds '' = []" "digits_of '', expected '' = []"
  by (simp_all add: digits_of_def)

lemmas display_simps = two_decimals [OF separators(1), simplified] two_decimals [OF separators(2), simplified]
  decimal_hd decimal_hd [THEN not_sym] decimal_inj word_unat_eq_iff [symmetric]

section \<open>Properties\<close>

text \<open>An error can be told from its text: two errors, with their numbers and messages, display the
  same only if they are equal.\<close>

theorem error_display_injective: "error_display e = error_display e' \<longleftrightarrow> e = e'"
  by (cases e; cases e') (simp_all add: error_display_def display_simps)

end
