(* ===== verification/Names.thy ===== *)
theory Names
  imports Errors
begin

text \<open>
  File names and media types (\<open>src/container.rs\<close>): the sanitiser \<open>safe_file_name\<close>, the
  media type check \<open>normalize_mime_type\<close>, \<open>is_precompressed_type\<close>, and the parts of the
  standard library's \<open>str\<close> that they and the container use: UTF-8 encoding, strict and lossy
  decoding, trimming, splitting, ASCII case.

  A \<open>str\<close> is the list of its characters, each a Unicode scalar value as a \<open>nat\<close>.
\<close>

section \<open>Strings\<close>

type_synonym rchar = nat
type_synonym str = "rchar list"

definition ascii :: "string \<Rightarrow> str" where
  "ascii s = map of_char s"

definition scalar :: "rchar \<Rightarrow> bool" where
  "scalar c \<longleftrightarrow> c < 0xd800 \<or> 0xe000 \<le> c \<and> c < 0x110000"

definition utf8_char :: "rchar \<Rightarrow> u8 list" where
  "utf8_char c =
     (if c < 0x80 then [word_of_nat c]
      else if c < 0x800 then [word_of_nat (192 + c div 64), word_of_nat (128 + c mod 64)]
      else if c < 0x10000
      then [word_of_nat (224 + c div 4096), word_of_nat (128 + c div 64 mod 64), word_of_nat (128 + c mod 64)]
      else [word_of_nat (240 + c div 262144), word_of_nat (128 + c div 4096 mod 64),
            word_of_nat (128 + c div 64 mod 64), word_of_nat (128 + c mod 64)])"

definition utf8_bytes :: "str \<Rightarrow> u8 list" where
  "utf8_bytes s = concat (map utf8_char s)"

text \<open>Decoding one character, as the standard library's chunk iterator does: the character, or
  \<open>None\<close> for an invalid sequence, and the number of bytes consumed.\<close>

definition byte_at :: "u8 list \<Rightarrow> nat \<Rightarrow> nat" where
  "byte_at bs i = (if i < length bs then unat (bs ! i) else 0)"

definition continuation :: "nat \<Rightarrow> bool" where
  "continuation b \<longleftrightarrow> 128 \<le> b \<and> b < 192"

definition second_of_three :: "nat \<Rightarrow> nat \<Rightarrow> bool" where
  "second_of_three b0 b1 \<longleftrightarrow>
     (if b0 = 0xe0 then 0xa0 \<le> b1 \<and> b1 \<le> 0xbf
      else if b0 = 0xed then 0x80 \<le> b1 \<and> b1 \<le> 0x9f else continuation b1)"

definition second_of_four :: "nat \<Rightarrow> nat \<Rightarrow> bool" where
  "second_of_four b0 b1 \<longleftrightarrow>
     (if b0 = 0xf0 then 0x90 \<le> b1 \<and> b1 \<le> 0xbf
      else if b0 = 0xf4 then 0x80 \<le> b1 \<and> b1 \<le> 0x8f else continuation b1)"

definition utf8_next :: "u8 list \<Rightarrow> rchar option \<times> nat" where
  "utf8_next bs =
     (let b0 = byte_at bs 0; b1 = byte_at bs 1; b2 = byte_at bs 2; b3 = byte_at bs 3
      in if b0 < 128 then (Some b0, 1)
         else if 0xc2 \<le> b0 \<and> b0 \<le> 0xdf
         then if continuation b1 then (Some ((b0 - 192) * 64 + (b1 - 128)), 2) else (None, 1)
         else if 0xe0 \<le> b0 \<and> b0 \<le> 0xef
         then if \<not> second_of_three b0 b1 then (None, 1)
              else if \<not> continuation b2 then (None, 2)
              else (Some ((b0 - 224) * 4096 + (b1 - 128) * 64 + (b2 - 128)), 3)
         else if 0xf0 \<le> b0 \<and> b0 \<le> 0xf4
         then if \<not> second_of_four b0 b1 then (None, 1)
              else if \<not> continuation b2 then (None, 2)
              else if \<not> continuation b3 then (None, 3)
              else (Some ((b0 - 240) * 262144 + (b1 - 128) * 4096 + (b2 - 128) * 64 + (b3 - 128)), 4)
         else (None, 1))"

lemma utf8_next_pos: "0 < snd (utf8_next bs)"
  by (simp add: utf8_next_def Let_def)

function utf8_chunks :: "u8 list \<Rightarrow> rchar option list" where
  "utf8_chunks bs =
     (if bs = [] then [] else fst (utf8_next bs) # utf8_chunks (drop (snd (utf8_next bs)) bs))"
  by pat_completeness auto
termination
  by (relation "measure length") (use utf8_next_pos in auto)

declare utf8_chunks.simps [simp del]

definition from_utf8 :: "u8 list \<Rightarrow> str option" where
  "from_utf8 bs = those (utf8_chunks bs)"

definition from_utf8_lossy :: "u8 list \<Rightarrow> str" where
  "from_utf8_lossy bs = map (\<lambda>c. case c of None \<Rightarrow> 0xfffd | Some c \<Rightarrow> c) (utf8_chunks bs)"

text \<open>The Unicode property \<open>White_Space\<close>.\<close>

definition is_whitespace :: "rchar \<Rightarrow> bool" where
  "is_whitespace c \<longleftrightarrow> 0x9 \<le> c \<and> c \<le> 0xd \<or> c \<in> {0x20, 0x85, 0xa0, 0x1680} \<or> 0x2000 \<le> c \<and> c \<le> 0x200a \<or>
     c \<in> {0x2028, 0x2029, 0x202f, 0x205f, 0x3000}"

definition trim_end_matches :: "(rchar \<Rightarrow> bool) \<Rightarrow> str \<Rightarrow> str" where
  "trim_end_matches p s = rev (dropWhile p (rev s))"

definition trim :: "str \<Rightarrow> str" where
  "trim s = trim_end_matches is_whitespace (dropWhile is_whitespace s)"

definition first_split :: "rchar \<Rightarrow> str \<Rightarrow> str" where
  "first_split sep s = takeWhile (\<lambda>c. c \<noteq> sep) s"

definition last_split :: "rchar set \<Rightarrow> str \<Rightarrow> str" where
  "last_split seps s = rev (takeWhile (\<lambda>c. c \<notin> seps) (rev s))"

definition split_once :: "rchar \<Rightarrow> str \<Rightarrow> (str \<times> str) option" where
  "split_once sep s =
     (case dropWhile (\<lambda>c. c \<noteq> sep) s of [] \<Rightarrow> None | _ # rest \<Rightarrow> Some (takeWhile (\<lambda>c. c \<noteq> sep) s, rest))"

definition to_upper :: "rchar \<Rightarrow> rchar" where
  "to_upper c = (if 97 \<le> c \<and> c \<le> 122 then c - 32 else c)"

definition to_lower :: "rchar \<Rightarrow> rchar" where
  "to_lower c = (if 65 \<le> c \<and> c \<le> 90 then c + 32 else c)"

definition starts_with :: "str \<Rightarrow> str \<Rightarrow> bool" where
  "starts_with s prefix \<longleftrightarrow> take (length prefix) s = prefix"

definition ends_with :: "str \<Rightarrow> str \<Rightarrow> bool" where
  "ends_with s suffix \<longleftrightarrow> starts_with (rev s) (rev suffix)"

definition strip_prefix :: "str \<Rightarrow> str \<Rightarrow> str option" where
  "strip_prefix s prefix = (if starts_with s prefix then Some (drop (length prefix) s) else None)"

section \<open>File names\<close>

definition DEFAULT_NAME :: str where "DEFAULT_NAME = ascii ''transfer.bin''"
definition DEFAULT_MIME :: str where "DEFAULT_MIME = ascii ''application/octet-stream''"

definition is_control :: "rchar \<Rightarrow> bool" where
  "is_control c \<longleftrightarrow> c \<le> 0x1f \<or> c = 0x7f"

definition is_bidi_control :: "rchar \<Rightarrow> bool" where
  "is_bidi_control c \<longleftrightarrow> c \<in> {0x061c, 0x200e, 0x200f} \<or> 0x202a \<le> c \<and> c \<le> 0x202e \<or> 0x2066 \<le> c \<and> c \<le> 0x2069"

definition is_windows_device_name :: "str \<Rightarrow> bool" where
  "is_windows_device_name stem =
     (let upper = map to_upper stem
      in upper \<in> {ascii ''CON'', ascii ''PRN'', ascii ''AUX'', ascii ''NUL''} \<or>
         length (utf8_bytes upper) = 4 \<and> (starts_with upper (ascii ''COM'') \<or> starts_with upper (ascii ''LPT'')) \<and>
           49 \<le> utf8_bytes upper ! 3 \<and> utf8_bytes upper ! 3 \<le> 57)"

definition safe_char :: "rchar \<Rightarrow> rchar" where
  "safe_char c = (if c \<in> set (ascii ''<>:\"|?*'') then 95 else c)"

definition safe_file_name :: "str \<Rightarrow> str" where
  "safe_file_name name =
     (let base = last_split {47, 92} name;
          cleaned = map safe_char (filter (\<lambda>c. \<not> is_control c \<and> \<not> is_bidi_control c) base);
          cleaned = trim_end_matches (\<lambda>c. c \<in> {46, 32}) (trim cleaned)
      in if cleaned = [] \<or> cleaned = ascii ''.'' \<or> cleaned = ascii ''..'' then DEFAULT_NAME
         else if is_windows_device_name (first_split 46 cleaned) then 95 # cleaned
         else cleaned)"

section \<open>Media types\<close>

definition is_mime_token_byte :: "u8 \<Rightarrow> bool" where
  "is_mime_token_byte b \<longleftrightarrow> 48 \<le> b \<and> b \<le> 57 \<or> 65 \<le> b \<and> b \<le> 90 \<or> 97 \<le> b \<and> b \<le> 122 \<or>
     unat b \<in> set (ascii ''!#$%&'') \<union> {39} \<union> set (ascii ''*+-.^_'') \<union> {96} \<union> set (ascii ''|~'')"

definition normalize_mime_type :: "str \<Rightarrow> str result" where
  "normalize_mime_type mime_type =
     (let value = trim mime_type
      in if value = [] then Inr DEFAULT_MIME
         else if \<not> list_all (\<lambda>b. 0x20 \<le> b \<and> b \<le> 0x7e) (utf8_bytes value) then Inl Meta
         else case split_once 47 (trim (first_split 59 value)) of
           None \<Rightarrow> Inl Meta
         | Some (type_name, subtype) \<Rightarrow>
             if type_name = [] \<or> subtype = [] \<or> \<not> list_all is_mime_token_byte (utf8_bytes type_name) \<or>
                \<not> list_all is_mime_token_byte (utf8_bytes subtype)
             then Inl Meta else Inr value)"

definition is_precompressed_type :: "str \<Rightarrow> bool" where
  "is_precompressed_type mime_type =
     (let media = map to_lower (trim (first_split 59 mime_type))
      in case strip_prefix media (ascii ''image/'') of
           Some subtype \<Rightarrow> subtype \<notin> set (map ascii
             [''bmp'', ''x-ms-bmp'', ''svg+xml'', ''tiff'', ''x-icon'', ''vnd.microsoft.icon''])
         | None \<Rightarrow> (case strip_prefix media (ascii ''audio/'') of
             Some subtype \<Rightarrow> subtype \<notin> set (map ascii
               [''wav'', ''x-wav'', ''wave'', ''vnd.wave'', ''aiff'', ''x-aiff'', ''basic'', ''l16''])
           | None \<Rightarrow>
               if starts_with media (ascii ''video/'') \<or>
                  starts_with media (ascii ''application/vnd.openxmlformats-officedocument.'') \<or>
                  starts_with media (ascii ''application/vnd.oasis.opendocument.'') \<or>
                  ends_with media (ascii ''+zip'')
               then True
               else media \<in> set (map ascii
                 [''application/gzip'', ''application/java-archive'', ''application/vnd.rar'',
                  ''application/x-7z-compressed'', ''application/x-brotli'', ''application/x-bzip'',
                  ''application/x-bzip2'', ''application/x-gzip'', ''application/x-lzma'',
                  ''application/x-rar-compressed'', ''application/x-xz'', ''application/x-zip-compressed'',
                  ''application/zip'', ''application/zstd''])))"

section \<open>UTF-8 round trip\<close>

lemma unat_byte: "n < 256 \<Longrightarrow> unat (word_of_nat n :: u8) = n"
  by (simp add: unat_of_nat)

lemma byte_at_simps [simp]:
  "byte_at (b # bs) 0 = unat b" "byte_at (b # bs) (Suc i) = byte_at bs i"
  by (simp_all add: byte_at_def)

lemma byte_at_numerals [simp]:
  "byte_at (b # bs) 1 = byte_at bs 0" "byte_at (b # bs) 2 = byte_at bs 1" "byte_at (b # bs) 3 = byte_at bs 2"
  by (simp_all add: numeral_2_eq_2 numeral_3_eq_3)

lemma digits:
  fixes c :: nat
  shows "c div 64 * 64 + c mod 64 = c" and "c div 4096 * 4096 + c div 64 mod 64 * 64 + c mod 64 = c"
    and "c div 262144 * 262144 + c div 4096 mod 64 * 4096 + c div 64 mod 64 * 64 + c mod 64 = c"
proof -
  show one: "c div 64 * 64 + c mod 64 = c" by simp
  have d: "c div 4096 = c div 64 div 64" "c div 262144 = c div 64 div 64 div 64"
    by (simp_all flip: div_mult2_eq)
  have "c div 64 div 64 * 64 + c div 64 mod 64 = c div 64" by simp
  with one show two: "c div 4096 * 4096 + c div 64 mod 64 * 64 + c mod 64 = c" unfolding d by linarith
  have "c div 64 div 64 div 64 * 64 + c div 64 div 64 mod 64 = c div 64 div 64" by simp
  with two show "c div 262144 * 262144 + c div 4096 mod 64 * 4096 + c div 64 mod 64 * 64 + c mod 64 = c"
    unfolding d by linarith
qed

lemma utf8_next_two:
  assumes "unat a = 192 + x" and "unat b = 128 + y" and "2 \<le> x" and "x < 32" and "y < 64"
  shows "utf8_next (a # b # rest) = (Some (x * 64 + y), 2)"
  using assms by (simp add: utf8_next_def Let_def continuation_def)

lemma utf8_next_three:
  assumes "unat a = 224 + x" and "unat b = 128 + y" and "unat c = 128 + z" and "x < 16" and "y < 64" and "z < 64"
    and "x = 0 \<longrightarrow> 32 \<le> y" and "x = 13 \<longrightarrow> y < 32"
  shows "utf8_next (a # b # c # rest) = (Some (x * 4096 + y * 64 + z), 3)"
  using assms by (auto simp: utf8_next_def Let_def continuation_def second_of_three_def)

lemma utf8_next_four:
  assumes "unat a = 240 + x" and "unat b = 128 + y" and "unat c = 128 + z" and "unat d = 128 + w"
    and "x < 5" and "y < 64" and "z < 64" and "w < 64" and "x = 0 \<longrightarrow> 16 \<le> y" and "x = 4 \<longrightarrow> y < 16"
  shows "utf8_next (a # b # c # d # rest) = (Some (x * 262144 + y * 4096 + z * 64 + w), 4)"
  using assms by (auto simp: utf8_next_def Let_def continuation_def second_of_four_def)

lemma utf8_next_char:
  assumes "scalar c"
  shows "utf8_next (utf8_char c @ rest) = (Some c, length (utf8_char c))"
proof -
  have m: "x mod 64 < 64" for x :: nat by simp
  have u: "unat (word_of_nat (128 + x mod 64) :: u8) = 128 + x mod 64" for x
    using m [of x] by (intro unat_byte) linarith
  consider (one) "c < 0x80" | (two) "0x80 \<le> c" "c < 0x800" | (three) "0x800 \<le> c" "c < 0x10000"
    | (four) "0x10000 \<le> c" "c < 0x110000"
    using assms by (fastforce simp: scalar_def)
  then show ?thesis
  proof cases
    case one
    then show ?thesis by (simp add: utf8_char_def utf8_next_def unat_byte)
  next
    case two
    then have b: "2 \<le> c div 64" "c div 64 < 32" by simp_all
    then have "unat (word_of_nat (192 + c div 64) :: u8) = 192 + c div 64" by (intro unat_byte) simp
    from utf8_next_two [OF this u b m] show ?thesis using two digits(1) [of c] by (simp add: utf8_char_def)
  next
    case three
    then have b: "c div 4096 < 16" "c div 4096 = c div 64 div 64" by (simp_all flip: div_mult2_eq)
    then have "unat (word_of_nat (224 + c div 4096) :: u8) = 224 + c div 4096" by (intro unat_byte) simp
    note next3 = utf8_next_three [OF this u u b(1) m m]
    have low: "c div 4096 = 0 \<longrightarrow> 32 \<le> c div 64 mod 64"
    proof
      assume "c div 4096 = 0"
      moreover have "32 \<le> c div 64" using three by simp
      ultimately show "32 \<le> c div 64 mod 64" using b(2) div_mult_mod_eq [of "c div 64" 64] by linarith
    qed
    have high: "c div 4096 = 13 \<longrightarrow> c div 64 mod 64 < 32"
    proof
      assume "c div 4096 = 13"
      then have "c < 0xd800" using assms unfolding scalar_def by auto
      then have "c div 64 < 864" by simp
      moreover have "c div 64 = 13 * 64 + c div 64 mod 64"
        using \<open>c div 4096 = 13\<close> b(2) div_mult_mod_eq [of "c div 64" 64] by simp
      ultimately show "c div 64 mod 64 < 32" by linarith
    qed
    from next3 [OF low high] show ?thesis using three digits(2) [of c] by (simp add: utf8_char_def)
  next
    case four
    then have b: "c div 262144 < 5" "c div 262144 = c div 4096 div 64" by (simp_all flip: div_mult2_eq)
    then have "unat (word_of_nat (240 + c div 262144) :: u8) = 240 + c div 262144" by (intro unat_byte) simp
    note next4 = utf8_next_four [OF this u u u b(1) m m m]
    have low: "c div 262144 = 0 \<longrightarrow> 16 \<le> c div 4096 mod 64"
    proof
      assume "c div 262144 = 0"
      moreover have "16 \<le> c div 4096" using four by simp
      ultimately show "16 \<le> c div 4096 mod 64" using b(2) div_mult_mod_eq [of "c div 4096" 64] by linarith
    qed
    have high: "c div 262144 = 4 \<longrightarrow> c div 4096 mod 64 < 16"
    proof
      assume "c div 262144 = 4"
      moreover have "c div 4096 < 272" using four by simp
      ultimately show "c div 4096 mod 64 < 16" using b(2) div_mult_mod_eq [of "c div 4096" 64] by linarith
    qed
    from next4 [OF low high] show ?thesis using four digits(3) [of c] by (simp add: utf8_char_def)
  qed
qed

lemma utf8_char_nonempty: "utf8_char c \<noteq> []"
  by (simp add: utf8_char_def)

lemma utf8_chunks_bytes: "list_all scalar s \<Longrightarrow> utf8_chunks (utf8_bytes s) = map Some s"
proof (induction s)
  case Nil
  then show ?case by (subst utf8_chunks.simps) (simp add: utf8_bytes_def)
next
  case (Cons c s)
  then show ?case using utf8_next_char [of c "utf8_bytes s"] utf8_char_nonempty [of c]
    by (subst utf8_chunks.simps) (simp add: utf8_bytes_def)
qed

lemma from_utf8_bytes: "list_all scalar s \<Longrightarrow> from_utf8 (utf8_bytes s) = Some s"
proof -
  have "those (map Some s) = Some s" by (induction s) simp_all
  then show "list_all scalar s \<Longrightarrow> from_utf8 (utf8_bytes s) = Some s" by (simp add: from_utf8_def utf8_chunks_bytes)
qed

lemma from_utf8_lossy_bytes: "list_all scalar s \<Longrightarrow> from_utf8_lossy (utf8_bytes s) = s"
  by (simp add: from_utf8_lossy_def utf8_chunks_bytes comp_def)

section \<open>Trimming\<close>

lemma dropWhile_fix: "s = [] \<or> \<not> p (hd s) \<Longrightarrow> dropWhile p s = s"
  by (cases s) simp_all

lemma trim_end_fix: "s = [] \<or> \<not> p (last s) \<Longrightarrow> trim_end_matches p s = s"
  by (simp add: trim_end_matches_def dropWhile_fix hd_rev)

lemma trim_end_last: "trim_end_matches p s \<noteq> [] \<Longrightarrow> \<not> p (last (trim_end_matches p s))"
  using hd_dropWhile [of p "rev s"] by (simp add: trim_end_matches_def last_rev)

lemma trim_end_prefix: "\<exists>t. s = trim_end_matches p s @ t"
  by (rule exI [of _ "rev (takeWhile p (rev s))"])
    (metis rev_append rev_rev_ident takeWhile_dropWhile_id trim_end_matches_def)

lemma trim_end_set: "set (trim_end_matches p s) \<subseteq> set s"
  by (auto simp: trim_end_matches_def dest: set_dropWhileD)

lemma trim_end_hd: "trim_end_matches p s \<noteq> [] \<Longrightarrow> hd (trim_end_matches p s) = hd s"
  by (metis hd_append2 trim_end_prefix)

lemma trim_set: "set (trim s) \<subseteq> set s"
  using trim_end_set [of is_whitespace "dropWhile is_whitespace s"] by (auto simp: trim_def dest: set_dropWhileD)

lemma trim_ends:
  assumes "trim s \<noteq> []"
  shows "\<not> is_whitespace (hd (trim s))" and "\<not> is_whitespace (last (trim s))"
proof -
  have "dropWhile is_whitespace s \<noteq> []"
  proof
    assume "dropWhile is_whitespace s = []"
    with assms show False by (simp add: trim_def trim_end_matches_def)
  qed
  then show "\<not> is_whitespace (hd (trim s))"
    using assms trim_end_hd [of is_whitespace "dropWhile is_whitespace s"] hd_dropWhile [of is_whitespace s]
    unfolding trim_def by metis
  show "\<not> is_whitespace (last (trim s))" using assms trim_end_last by (simp add: trim_def)
qed

lemma trim_fix: "s = [] \<or> \<not> is_whitespace (hd s) \<and> \<not> is_whitespace (last s) \<Longrightarrow> trim s = s"
  by (auto simp: trim_def dropWhile_fix trim_end_fix)

lemma trim_trim [simp]: "trim (trim s) = trim s"
  using trim_ends [of s] by (intro trim_fix) auto

lemma trim_end_length: "length (trim_end_matches p s) \<le> length s"
  using length_dropWhile_le [of p "rev s"] by (simp add: trim_end_matches_def)

lemma trim_shorter:
  assumes "s \<noteq> []" and "is_whitespace (last s)"
  shows "length (trim s) < length s"
proof (cases "trim s = []")
  case False
  have "trim s \<noteq> s" using trim_ends(2) [OF False] assms(2) by auto
  moreover have "length (trim s) \<le> length (dropWhile is_whitespace s)" "length (dropWhile is_whitespace s) \<le> length s"
    unfolding trim_def by (simp_all add: trim_end_length length_dropWhile_le)
  moreover have "trim s = s" if "length (trim s) = length s"
  proof -
    have "length (dropWhile is_whitespace s) = length s"
      using that calculation(2,3) by simp
    then have "dropWhile is_whitespace s = s"
      by (metis append_self_conv2 length_append add_cancel_left_left length_0_conv takeWhile_dropWhile_id)
    then obtain t where "s = trim s @ t" using trim_end_prefix [of s is_whitespace] by (auto simp: trim_def)
    then show ?thesis using that by (metis append_Nil2 length_append add_cancel_right_right length_0_conv)
  qed
  ultimately show ?thesis by force
qed (use assms in simp)

section \<open>Safe names\<close>

definition allowed_char :: "rchar \<Rightarrow> bool" where
  "allowed_char c \<longleftrightarrow> \<not> is_control c \<and> \<not> is_bidi_control c \<and> c \<noteq> 47 \<and> c \<noteq> 92 \<and> c \<notin> set (ascii ''<>:\"|?*'')"

definition safe_name :: "str \<Rightarrow> bool" where
  "safe_name s \<longleftrightarrow> s \<noteq> [] \<and> list_all allowed_char s \<and> last s \<noteq> 46 \<and> last s \<noteq> 32 \<and>
     \<not> is_whitespace (hd s) \<and> \<not> is_windows_device_name (first_split 46 s)"

lemma ascii_simps: "ascii ''<>:\"|?*'' = [60, 62, 58, 34, 124, 63, 42]" "ascii ''.'' = [46]" "ascii ''..'' = [46, 46]"
  "ascii ''CON'' = [67, 79, 78]" "ascii ''PRN'' = [80, 82, 78]" "ascii ''AUX'' = [65, 85, 88]" "ascii ''NUL'' = [78, 85, 76]"
  "ascii ''COM'' = [67, 79, 77]" "ascii ''LPT'' = [76, 80, 84]"
  "DEFAULT_NAME = [116, 114, 97, 110, 115, 102, 101, 114, 46, 98, 105, 110]"
  by (simp_all add: ascii_def DEFAULT_NAME_def)

lemma last_split_no_sep: "c \<in> set (last_split seps s) \<Longrightarrow> c \<notin> seps"
  by (auto simp: last_split_def dest: set_takeWhileD)

lemma safe_char_allowed:
  "\<not> is_control c \<Longrightarrow> \<not> is_bidi_control c \<Longrightarrow> c \<notin> {47, 92} \<Longrightarrow> allowed_char (safe_char c)"
  by (auto simp: allowed_char_def safe_char_def ascii_simps is_control_def is_bidi_control_def)

lemma safe_char_fix: "allowed_char c \<Longrightarrow> safe_char c = c"
  by (simp add: allowed_char_def safe_char_def)

definition cleaned_name :: "str \<Rightarrow> str" where
  "cleaned_name name = trim_end_matches (\<lambda>c. c \<in> {46, 32})
     (trim (map safe_char (filter (\<lambda>c. \<not> is_control c \<and> \<not> is_bidi_control c) (last_split {47, 92} name))))"

lemma cleaned_name_chars: "list_all allowed_char (cleaned_name name)"
proof -
  let ?base = "last_split {47, 92} name"
  have "set (cleaned_name name) \<subseteq> safe_char ` {c \<in> set ?base. \<not> is_control c \<and> \<not> is_bidi_control c}"
    unfolding cleaned_name_def using trim_end_set trim_set by fastforce
  moreover have "allowed_char (safe_char c)" if "c \<in> set ?base" "\<not> is_control c" "\<not> is_bidi_control c" for c
    using that(2,3) last_split_no_sep [OF that(1)] by (rule safe_char_allowed)
  ultimately show ?thesis unfolding list_all_iff by blast
qed

lemma cleaned_name_ends:
  assumes "cleaned_name name \<noteq> []"
  shows "last (cleaned_name name) \<notin> {46, 32}" and "\<not> is_whitespace (hd (cleaned_name name))"
proof -
  let ?t = "trim (map safe_char (filter (\<lambda>c. \<not> is_control c \<and> \<not> is_bidi_control c) (last_split {47, 92} name)))"
  have c: "cleaned_name name = trim_end_matches (\<lambda>c. c \<in> {46, 32}) ?t" by (simp add: cleaned_name_def)
  show "last (cleaned_name name) \<notin> {46, 32}" using trim_end_last assms unfolding c by fastforce
  have "hd (cleaned_name name) = hd ?t" using assms unfolding c by (rule trim_end_hd)
  moreover have "?t \<noteq> []" using assms unfolding c by (auto simp: trim_end_matches_def)
  ultimately show "\<not> is_whitespace (hd (cleaned_name name))" using trim_ends(1) by simp
qed

lemma safe_file_name_eq:
  "safe_file_name name =
     (if cleaned_name name = [] then DEFAULT_NAME
      else if is_windows_device_name (first_split 46 (cleaned_name name)) then 95 # cleaned_name name
      else cleaned_name name)"
proof -
  have "cleaned_name name \<noteq> [46]" "cleaned_name name \<noteq> [46, 46]" using cleaned_name_ends(1) [of name] by auto
  then show ?thesis
    unfolding safe_file_name_def Let_def cleaned_name_def [symmetric] ascii_simps(2,3) by simp
qed

lemma device_name_start: "is_windows_device_name s \<Longrightarrow> s \<noteq> [] \<and> hd s \<noteq> 95"
  by (cases s) (auto simp: is_windows_device_name_def Let_def ascii_simps starts_with_def to_upper_def utf8_bytes_def
      split: if_splits)

lemma safe_file_name_ok: "safe_name (safe_file_name name)"
proof -
  let ?c = "cleaned_name name"
  have underscore: "allowed_char 95" "\<not> is_whitespace 95"
    by (simp_all add: allowed_char_def ascii_simps is_control_def is_bidi_control_def is_whitespace_def)
  have device: "\<not> is_windows_device_name (first_split 46 (95 # s))" for s
    using device_name_start by (fastforce simp: first_split_def)
  have "safe_name DEFAULT_NAME"
    by (simp add: safe_name_def ascii_simps allowed_char_def is_control_def is_bidi_control_def is_whitespace_def
        first_split_def is_windows_device_name_def to_upper_def starts_with_def)
  then show ?thesis
    using cleaned_name_chars [of name] cleaned_name_ends [of name] underscore device
    by (simp add: safe_file_name_eq safe_name_def)
qed

text \<open>A safe name is kept as it is unless it ends in white space.\<close>

lemma last_split_fix: "\<forall>c \<in> set s. c \<notin> seps \<Longrightarrow> last_split seps s = s"
proof -
  assume "\<forall>c \<in> set s. c \<notin> seps"
  then have "takeWhile (\<lambda>c. c \<notin> seps) (rev s) = rev s" by (simp add: takeWhile_eq_all_conv)
  then show ?thesis by (simp only: last_split_def rev_rev_ident)
qed

lemma safe_name_fix:
  assumes "safe_name s" and "\<not> is_whitespace (last s)"
  shows "safe_file_name s = s"
proof -
  have a: "\<And>c. c \<in> set s \<Longrightarrow> allowed_char c" using assms(1) by (simp add: safe_name_def list_all_iff)
  have "last_split {47, 92} s = s" using a by (intro last_split_fix) (auto simp: allowed_char_def)
  moreover have "filter (\<lambda>c. \<not> is_control c \<and> \<not> is_bidi_control c) s = s"
    using a by (intro filter_True) (auto simp: allowed_char_def)
  moreover have "map safe_char s = s" using a safe_char_fix by (intro map_idI) blast
  moreover have "trim s = s" using assms by (intro trim_fix) (simp add: safe_name_def)
  moreover have "trim_end_matches (\<lambda>c. c \<in> {46, 32}) s = s" using assms(1) by (intro trim_end_fix) (simp add: safe_name_def)
  ultimately have "cleaned_name s = s" by (simp only: cleaned_name_def)
  then show ?thesis using assms(1) by (simp add: safe_file_name_eq safe_name_def)
qed

section \<open>Media types\<close>

lemma default_mime: "trim DEFAULT_MIME = DEFAULT_MIME \<and> DEFAULT_MIME \<noteq> [] \<and> normalize_mime_type DEFAULT_MIME = Inr DEFAULT_MIME"
proof -
  have mime: "DEFAULT_MIME = [97, 112, 112, 108, 105, 99, 97, 116, 105, 111, 110, 47, 111, 99, 116, 101, 116, 45, 115,
      116, 114, 101, 97, 109]" by (simp add: DEFAULT_MIME_def ascii_def)
  have "trim DEFAULT_MIME = DEFAULT_MIME" unfolding mime by (simp add: trim_def trim_end_matches_def is_whitespace_def)
  moreover have "first_split 59 DEFAULT_MIME = DEFAULT_MIME" unfolding mime by (simp add: first_split_def)
  moreover have "split_once 47 DEFAULT_MIME = Some ([97, 112, 112, 108, 105, 99, 97, 116, 105, 111, 110],
      [111, 99, 116, 101, 116, 45, 115, 116, 114, 101, 97, 109])" unfolding mime by (simp add: split_once_def)
  moreover have "list_all (\<lambda>b. 0x20 \<le> b \<and> b \<le> 0x7e) (utf8_bytes DEFAULT_MIME)"
    unfolding mime by (simp add: utf8_bytes_def utf8_char_def)
  moreover have "DEFAULT_MIME \<noteq> []" unfolding mime by simp
  ultimately show ?thesis
    by (simp add: normalize_mime_type_def utf8_bytes_def utf8_char_def is_mime_token_byte_def ascii_def Let_def)
qed

lemma normalize_value:
  "normalize_mime_type m = Inr v \<Longrightarrow> v = trim v \<and> v \<noteq> [] \<and> normalize_mime_type v = Inr v"
proof (cases "trim m = []")
  case True
  assume "normalize_mime_type m = Inr v"
  then have v: "v = DEFAULT_MIME" using True by (simp add: normalize_mime_type_def)
  show ?thesis unfolding v using default_mime by simp
next
  case False
  assume n: "normalize_mime_type m = Inr v"
  then have "v = trim m" using False
    by (auto simp: normalize_mime_type_def Let_def split: if_splits option.splits)
  moreover from this have "normalize_mime_type v = normalize_mime_type m" by (simp add: normalize_mime_type_def)
  ultimately show ?thesis using n False by simp
qed

lemma normalize_ascii:
  assumes "normalize_mime_type m = Inr v"
  shows "list_all (\<lambda>b. 0x20 \<le> b \<and> b \<le> 0x7e) (utf8_bytes v)" and "list_all (\<lambda>c. c < 0x80) v"
proof -
  have n: "normalize_mime_type v = Inr v" "v = trim v" "v \<noteq> []" using normalize_value [OF assms] by simp_all
  then have "trim v \<noteq> []" by metis
  with n(1) show all: "list_all (\<lambda>b. 0x20 \<le> b \<and> b \<le> 0x7e) (utf8_bytes v)"
    unfolding n(2) [symmetric] using n(2)
    by (auto simp: normalize_mime_type_def Let_def split: if_splits)
  have "c < 0x80" if c: "c \<in> set v" for c
  proof (rule ccontr)
    assume "\<not> c < 0x80"
    then obtain b where b: "b \<in> set (utf8_char c)" "b = word_of_nat (128 + c mod 64)" by (auto simp: utf8_char_def)
    have "128 + c mod 64 < 256" using mod_less_divisor [of 64 c] by linarith
    then have "unat b = 128 + c mod 64" unfolding b(2) by (rule unat_byte)
    moreover have "b \<in> set (utf8_bytes v)" using c b(1) by (auto simp: utf8_bytes_def)
    then have "b \<le> 0x7e" using all by (auto simp: list_all_iff)
    then have "unat b \<le> 0x7e" by (simp add: word_le_nat_alt)
    ultimately show False by simp
  qed
  then show "list_all (\<lambda>c. c < 0x80) v" by (simp add: list_all_iff)
qed

lemma cleaned_name_hd:
  assumes "safe_name s" and "cleaned_name s = trim_end_matches p (trim s)" and "cleaned_name s \<noteq> []"
  shows "hd (cleaned_name s) = hd s"
proof -
  have "hd (cleaned_name s) = hd (trim s)" using assms(2,3) trim_end_hd by metis
  moreover have "dropWhile is_whitespace s = s" using assms(1) by (intro dropWhile_fix) (simp add: safe_name_def)
  moreover have "trim s \<noteq> []" using assms(2,3) by (auto simp: trim_end_matches_def)
  ultimately show ?thesis using trim_end_hd [of is_whitespace s] by (simp add: trim_def)
qed

section \<open>Properties\<close>

text \<open>C30: whatever name a container carries, the name handed to the application is not empty, has no
  path separator, control, bidirectional-override or reserved character, does not start with white
  space or end in a dot or blank, and its stem is not a Windows device name.\<close>

theorem safe_file_name_safe:
  "safe_file_name name \<noteq> [] \<and> list_all (\<lambda>c. \<not> is_control c \<and> \<not> is_bidi_control c \<and> c \<noteq> 47 \<and> c \<noteq> 92 \<and>
     c \<notin> set (ascii ''<>:\"|?*'')) (safe_file_name name) \<and>
   last (safe_file_name name) \<notin> {46, 32} \<and> \<not> is_whitespace (hd (safe_file_name name)) \<and>
   \<not> is_windows_device_name (first_split 46 (safe_file_name name))"
proof -
  have "allowed_char = (\<lambda>c. \<not> is_control c \<and> \<not> is_bidi_control c \<and> c \<noteq> 47 \<and> c \<noteq> 92 \<and> c \<notin> set (ascii ''<>:\"|?*''))"
    by (simp add: allowed_char_def fun_eq_iff)
  with safe_file_name_ok [of name] show ?thesis by (simp add: safe_name_def)
qed

text \<open>C31: sanitising is stable except for one class of names: a sanitised name is kept by a second
  pass unless it ends in white space other than a blank. Those names exist: for a name that ends in a
  no-break space and a dot the first pass removes the dot and the second one the space.\<close>

theorem safe_file_name_stable:
  "(safe_file_name (safe_file_name name) = safe_file_name name) = (\<not> is_whitespace (last (safe_file_name name))) \<and>
   safe_file_name [97, 0xa0, 46] = [97, 0xa0] \<and> safe_file_name [97, 0xa0] = [97]"
proof -
  let ?s = "safe_file_name name"
  have "safe_file_name ?s \<noteq> ?s" if w: "is_whitespace (last ?s)"
  proof
    assume same: "safe_file_name ?s = ?s"
    let ?t = "trim (map safe_char (filter (\<lambda>c. \<not> is_control c \<and> \<not> is_bidi_control c) (last_split {47, 92} ?s)))"
    have ok: "safe_name ?s" by (rule safe_file_name_ok)
    have a: "\<And>c. c \<in> set ?s \<Longrightarrow> allowed_char c" using ok by (simp add: safe_name_def list_all_iff)
    have "last_split {47, 92} ?s = ?s" using a by (intro last_split_fix) (auto simp: allowed_char_def)
    moreover have "filter (\<lambda>c. \<not> is_control c \<and> \<not> is_bidi_control c) ?s = ?s"
      using a by (intro filter_True) (auto simp: allowed_char_def)
    moreover have "map safe_char ?s = ?s" using a safe_char_fix by (intro map_idI) blast
    ultimately have t: "?t = trim ?s" by (simp only:)
    then have c: "cleaned_name ?s = trim_end_matches (\<lambda>c. c \<in> {46, 32}) (trim ?s)" by (simp add: cleaned_name_def)
    have short: "length (trim ?s) < length ?s"
      using trim_shorter [OF _ w] ok by (simp add: safe_name_def)
    have "length (cleaned_name ?s) < length ?s"
      unfolding c using short trim_end_length [of "\<lambda>c. c \<in> {46, 32}" "trim ?s"] by linarith
    then have "cleaned_name ?s = [] \<or> is_windows_device_name (first_split 46 (cleaned_name ?s))"
      using same by (auto simp: safe_file_name_eq split: if_splits)
    then show False
    proof
      assume "cleaned_name ?s = []"
      then have "?s = DEFAULT_NAME" using same by (simp add: safe_file_name_eq)
      then show False using w by (simp add: ascii_simps is_whitespace_def)
    next
      assume d: "is_windows_device_name (first_split 46 (cleaned_name ?s))"
      then have "hd (cleaned_name ?s) \<noteq> 95" "cleaned_name ?s \<noteq> []"
        using device_name_start [OF d] by (auto simp: first_split_def split: if_splits; cases "cleaned_name ?s"; simp)+
      moreover have "?s = 95 # cleaned_name ?s" using same d \<open>cleaned_name ?s \<noteq> []\<close> by (simp add: safe_file_name_eq)
      moreover have "hd (cleaned_name ?s) = hd ?s" by (rule cleaned_name_hd [OF ok c \<open>cleaned_name ?s \<noteq> []\<close>])
      ultimately show False by (metis list.sel(1))
    qed
  qed
  moreover have "safe_file_name ?s = ?s" if "\<not> is_whitespace (last ?s)"
    using safe_name_fix [OF safe_file_name_ok that] .
  moreover have "safe_file_name [97, 0xa0, 46] = [97, 0xa0]" "safe_file_name [97, 0xa0] = [97]"
    by (simp_all add: safe_file_name_def last_split_def is_control_def is_bidi_control_def safe_char_def ascii_def
        trim_def trim_end_matches_def is_whitespace_def first_split_def is_windows_device_name_def to_upper_def
        starts_with_def Let_def)
  ultimately show ?thesis by blast
qed

text \<open>A media type that is accepted is printable ASCII of the form type/subtype, and reading it
  back accepts it unchanged.\<close>

theorem mime_type_stable:
  assumes "normalize_mime_type mime_type = Inr value"
  shows "normalize_mime_type value = Inr value \<and> list_all (\<lambda>c. 0x20 \<le> c \<and> c \<le> 0x7e) value \<and> 47 \<in> set value"
proof -
  note n = normalize_value [OF assms]
  have small: "c < 0x80" if "c \<in> set value" for c using normalize_ascii(2) [OF assms] that by (simp add: list_all_iff)
  have "0x20 \<le> c \<and> c \<le> 0x7e" if c: "c \<in> set value" for c
  proof -
    have "utf8_char c = [word_of_nat c]" using small [OF c] by (simp add: utf8_char_def)
    then have "word_of_nat c \<in> set (utf8_bytes value)" using c by (auto simp: utf8_bytes_def intro!: bexI [of _ c])
    then have "(0x20 :: u8) \<le> word_of_nat c" "word_of_nat c \<le> (0x7e :: u8)"
      using normalize_ascii(1) [OF assms] by (auto simp: list_all_iff)
    then show ?thesis using small [OF c] unat_byte [of c] by (simp add: word_le_nat_alt)
  qed
  moreover have "47 \<in> set value"
  proof (rule ccontr)
    assume "47 \<notin> set value"
    then have "47 \<notin> set (trim (first_split 59 value))"
      using trim_set [of "first_split 59 value"] by (auto simp: first_split_def dest: set_takeWhileD)
    then have "dropWhile (\<lambda>c. c \<noteq> 47) (trim (first_split 59 value)) = []"
      by (intro dropWhile_eq_Nil_conv [THEN iffD2]) auto
    then have "split_once 47 (trim (first_split 59 value)) = None" by (simp only: split_once_def list.case)
    moreover have "trim value = value" using n by metis
    ultimately show False using n by (auto simp: normalize_mime_type_def Let_def split: if_splits)
  qed
  ultimately show ?thesis using n by (simp add: list_all_iff)
qed

theorem mime_type_stable_witness:
  "normalize_mime_type (ascii ''text/plain'') = Inr (ascii ''text/plain'') \<and> 47 \<in> set (ascii ''text/plain'')"
proof -
  have "normalize_mime_type (ascii '' text/plain'') = Inr (ascii ''text/plain'')"
    by (simp add: normalize_mime_type_def trim_def trim_end_matches_def is_whitespace_def utf8_bytes_def utf8_char_def
        first_split_def split_once_def is_mime_token_byte_def ascii_def Let_def)
  from mime_type_stable [OF this] show ?thesis by blast
qed

end
