(* ===== verification/Float64.thy ===== *)
theory Float64
  imports Prelude Complex_Main "HOL-Library.Log_Nat"
begin

text \<open>
  The part of Rust's \<open>f64\<close> that the degree distribution uses: IEEE 754 binary64 with
  round-to-nearest-even. A float is NaN, a signed infinity, a signed zero or a non-zero rational;
  \<open>f_valid\<close> singles out the rationals that binary64 can represent. Every operation is computed
  exactly on rationals and rounded once by \<open>round64\<close>, which is executable. The lemmas show
  that rounding returns a valid float, leaves representable values alone and is monotone.
\<close>

section \<open>Values and comparisons\<close>

datatype f64 = NaN | Inf bool | Zero bool | Num rat

fun f_val :: "f64 \<Rightarrow> rat" where
  "f_val (Num q) = q"
| "f_val _ = 0"

fun f_rank :: "f64 \<Rightarrow> int" where
  "f_rank (Inf neg) = (if neg then -1 else 1)"
| "f_rank _ = 0"

definition f_is_nan :: "f64 \<Rightarrow> bool" where
  "f_is_nan a \<longleftrightarrow> a = NaN"

definition f_le :: "f64 \<Rightarrow> f64 \<Rightarrow> bool" where
  "f_le a b \<longleftrightarrow> a \<noteq> NaN \<and> b \<noteq> NaN \<and>
     (f_rank a < f_rank b \<or> f_rank a = f_rank b \<and> f_val a \<le> f_val b)"

definition f_lt :: "f64 \<Rightarrow> f64 \<Rightarrow> bool" where
  "f_lt a b \<longleftrightarrow> a \<noteq> NaN \<and> b \<noteq> NaN \<and>
     (f_rank a < f_rank b \<or> f_rank a = f_rank b \<and> f_val a < f_val b)"

definition f_eq :: "f64 \<Rightarrow> f64 \<Rightarrow> bool" where
  "f_eq a b \<longleftrightarrow> f_le a b \<and> f_le b a"

lemma f_le_trans: "f_le a b \<Longrightarrow> f_le b c \<Longrightarrow> f_le a c"
  by (auto simp: f_le_def)

lemma f_le_refl: "a \<noteq> NaN \<Longrightarrow> f_le a a"
  by (simp add: f_le_def)

lemma f_lt_le_trans: "f_lt a b \<Longrightarrow> f_le b c \<Longrightarrow> f_lt a c"
  by (auto simp: f_le_def f_lt_def)

lemma f_not_le: "a \<noteq> NaN \<Longrightarrow> b \<noteq> NaN \<Longrightarrow> \<not> f_le a b \<longleftrightarrow> f_lt b a"
  by (auto simp: f_le_def f_lt_def)

section \<open>Rounding\<close>

text \<open>The binary exponent of a positive rational.\<close>

definition ilog2 :: "rat \<Rightarrow> int" where
  "ilog2 a =
     (let (n, d) = quotient_of a;
          k = int (floorlog 2 (nat n)) - int (floorlog 2 (nat d))
      in if 2 powi k \<le> a then k else k - 1)"

definition round_half_even :: "rat \<Rightarrow> int" where
  "round_half_even x =
     (let n = \<lfloor>x\<rfloor>; r = x - of_int n
      in if r < 1 / 2 then n else if 1 / 2 < r then n + 1 else if even n then n else n + 1)"

definition ulp_exp :: "rat \<Rightarrow> int" where
  "ulp_exp a = max (ilog2 a - 52) (-1074)"

text \<open>Rounding with no upper bound on the exponent, of a non-negative rational.\<close>

definition rnd :: "rat \<Rightarrow> rat" where
  "rnd a = (if a = 0 then 0 else of_int (round_half_even (a / 2 powi ulp_exp a)) * 2 powi ulp_exp a)"

definition round64 :: "bool \<Rightarrow> rat \<Rightarrow> f64" where
  "round64 zneg q =
     (if q = 0 then Zero zneg
      else let r = rnd \<bar>q\<bar>
           in if r = 0 then Zero (q < 0)
              else if 2 ^ 1024 \<le> r then Inf (q < 0)
              else Num (if q < 0 then - r else r))"

section \<open>Arithmetic\<close>

fun f_neg :: "f64 \<Rightarrow> f64" where
  "f_neg NaN = NaN"
| "f_neg (Inf s) = Inf (\<not> s)"
| "f_neg (Zero s) = Zero (\<not> s)"
| "f_neg (Num q) = Num (- q)"

fun f_sign :: "f64 \<Rightarrow> bool" where
  "f_sign (Inf s) = s"
| "f_sign (Zero s) = s"
| "f_sign (Num q) = (q < 0)"
| "f_sign NaN = False"

fun f_add :: "f64 \<Rightarrow> f64 \<Rightarrow> f64" where
  "f_add NaN _ = NaN"
| "f_add _ NaN = NaN"
| "f_add (Inf s) (Inf t) = (if s = t then Inf s else NaN)"
| "f_add (Inf s) _ = Inf s"
| "f_add _ (Inf t) = Inf t"
| "f_add (Zero s) (Zero t) = Zero (s \<and> t)"
| "f_add a b = round64 False (f_val a + f_val b)"

definition f_sub :: "f64 \<Rightarrow> f64 \<Rightarrow> f64" where
  "f_sub a b = f_add a (f_neg b)"

fun f_mul :: "f64 \<Rightarrow> f64 \<Rightarrow> f64" where
  "f_mul NaN _ = NaN"
| "f_mul _ NaN = NaN"
| "f_mul (Inf s) (Zero t) = NaN"
| "f_mul (Zero s) (Inf t) = NaN"
| "f_mul (Inf s) b = Inf (s \<noteq> f_sign b)"
| "f_mul a (Inf t) = Inf (f_sign a \<noteq> t)"
| "f_mul a b = round64 (f_sign a \<noteq> f_sign b) (f_val a * f_val b)"

fun f_div :: "f64 \<Rightarrow> f64 \<Rightarrow> f64" where
  "f_div NaN _ = NaN"
| "f_div _ NaN = NaN"
| "f_div (Inf s) (Inf t) = NaN"
| "f_div (Inf s) b = Inf (s \<noteq> f_sign b)"
| "f_div a (Inf t) = Zero (f_sign a \<noteq> t)"
| "f_div (Zero s) (Zero t) = NaN"
| "f_div a (Zero t) = Inf (f_sign a \<noteq> t)"
| "f_div a b = round64 (f_sign a \<noteq> f_sign b) (f_val a / f_val b)"

text \<open>\<open>f64::max\<close> and \<open>f64::min\<close> return the other argument when one is NaN.\<close>

definition f_max :: "f64 \<Rightarrow> f64 \<Rightarrow> f64" where
  "f_max a b = (if a = NaN then b else if b = NaN then a else if f_lt a b then b else a)"

definition f_min :: "f64 \<Rightarrow> f64 \<Rightarrow> f64" where
  "f_min a b = (if a = NaN then b else if b = NaN then a else if f_lt b a then b else a)"

text \<open>Integer conversions: \<open>as f64\<close> rounds, \<open>as usize\<close> truncates and saturates.\<close>

definition f_of_int :: "int \<Rightarrow> f64" where
  "f_of_int n = round64 False (of_int n)"

definition f_of_nat :: "nat \<Rightarrow> f64" where
  "f_of_nat n = f_of_int (int n)"

fun f_to_usize :: "f64 \<Rightarrow> usize" where
  "f_to_usize NaN = 0"
| "f_to_usize (Inf s) = (if s then 0 else usize_max)"
| "f_to_usize (Zero s) = 0"
| "f_to_usize (Num q) = min (nat \<lfloor>q\<rfloor>) usize_max"

text \<open>A decimal literal of the source denotes the float nearest to it.\<close>

definition f_lit :: "rat \<Rightarrow> f64" where
  "f_lit q = round64 False q"

section \<open>Representable values\<close>

definition rep :: "rat \<Rightarrow> bool" where
  "rep q \<longleftrightarrow> \<bar>q\<bar> < 2 ^ 1024 \<and>
     (\<exists>m e. \<bar>m\<bar> < 2 ^ 53 \<and> -1074 \<le> e \<and> q = of_int m * 2 powi e)"

fun f_valid :: "f64 \<Rightarrow> bool" where
  "f_valid (Num q) \<longleftrightarrow> q \<noteq> 0 \<and> rep q"
| "f_valid _ \<longleftrightarrow> True"

lemma powi_pos [simp]: "0 < (2 :: rat) powi e"
  by simp

lemma powi_mono: "d \<le> e \<Longrightarrow> (2 :: rat) powi d \<le> 2 powi e"
  by (intro power_int_increasing) simp_all

lemma powi_less: "(2 :: rat) powi d < 2 powi e \<longleftrightarrow> d < e"
proof -
  have "\<not> (2 :: rat) powi d < 2 powi e" if "e \<le> d" using powi_mono [OF that] by simp
  moreover have "(2 :: rat) powi d < 2 powi e" if "d < e"
    using that by (intro power_int_strict_increasing) simp_all
  ultimately show ?thesis by (meson not_le)
qed

lemma powi_add: "(2 :: rat) powi (d + e) = 2 powi d * 2 powi e"
  by (simp add: power_int_add)

lemma powi_nat: "(2 :: rat) powi int n = 2 ^ n"
  by simp

lemma floorlog_int_bounds:
  assumes "0 < n"
  shows "2 powi (int (floorlog 2 (nat n)) - 1) \<le> (of_int n :: rat)"
    and "(of_int n :: rat) < 2 powi int (floorlog 2 (nat n))"
proof -
  let ?l = "floorlog 2 (nat n)"
  have b: "2 ^ (?l - 1) \<le> nat n" "nat n < 2 ^ ?l"
    using floorlog_bounds [of "nat n" 2] assms by simp_all
  have l: "0 < ?l" using assms by (simp add: floorlog_def)
  have n: "(of_int n :: rat) = of_nat (nat n)" using assms by simp
  have "of_nat (2 ^ (?l - 1)) \<le> (of_nat (nat n) :: rat)" using b(1) by (simp only: of_nat_le_iff)
  moreover have "int ?l - 1 = int (?l - 1)" using l by simp
  ultimately show "2 powi (int ?l - 1) \<le> (of_int n :: rat)" unfolding n by (simp only: powi_nat) simp
  have "(of_nat (nat n) :: rat) < of_nat (2 ^ ?l)" using b(2) by (simp only: of_nat_less_iff)
  then show "(of_int n :: rat) < 2 powi int ?l" unfolding n by (simp only: powi_nat) simp
qed

lemma ilog2_bounds:
  assumes "0 < a"
  shows "2 powi ilog2 a \<le> a" and "a < 2 powi (ilog2 a + 1)"
proof -
  obtain n d where q: "quotient_of a = (n, d)" by fastforce
  have d: "0 < d" using quotient_of_denom_pos [OF q] .
  have a: "a = of_int n / of_int d" using quotient_of_div [OF q] .
  have n: "0 < n" using assms d unfolding a by (simp add: zero_less_divide_iff)
  let ?ln = "int (floorlog 2 (nat n))" let ?ld = "int (floorlog 2 (nat d))"
  note bn = floorlog_int_bounds [OF n] note bd = floorlog_int_bounds [OF d]
  have dr: "0 < (of_int d :: rat)" using d by simp
  have "a < 2 powi (?ln - ?ld + 1)"
  proof -
    have "(of_int n :: rat) < 2 powi ?ln" using bn(2) .
    also have "(2 :: rat) powi ?ln = 2 powi (?ln - ?ld + 1) * 2 powi (?ld - 1)"
      by (simp flip: powi_add)
    also have "\<dots> \<le> 2 powi (?ln - ?ld + 1) * of_int d" using bd(1) by (intro mult_left_mono) simp_all
    finally show ?thesis unfolding a using dr by (simp add: pos_divide_less_eq)
  qed
  moreover have "2 powi (?ln - ?ld - 1) \<le> a"
  proof -
    have "2 powi (?ln - ?ld - 1) * of_int d \<le> 2 powi (?ln - ?ld - 1) * (2 :: rat) powi ?ld"
      using bd(2) by (intro mult_left_mono) simp_all
    also have "\<dots> = 2 powi (?ln - 1)" unfolding powi_add [symmetric] by simp
    also have "\<dots> \<le> of_int n" using bn(1) .
    finally show ?thesis unfolding a using dr by (simp add: pos_le_divide_eq)
  qed
  ultimately show "2 powi ilog2 a \<le> a" and "a < 2 powi (ilog2 a + 1)"
    by (simp_all add: ilog2_def q Let_def)
qed

lemma ilog2_eqI: "2 powi l \<le> a \<Longrightarrow> a < 2 powi (l + 1) \<Longrightarrow> ilog2 a = l"
proof -
  assume lo: "2 powi l \<le> a" and hi: "a < 2 powi (l + 1)"
  have pos: "0 < a" by (rule less_le_trans [OF powi_pos lo])
  note b = ilog2_bounds [OF pos]
  have "(2 :: rat) powi l < 2 powi (ilog2 a + 1)" using lo b(2) by (rule le_less_trans)
  moreover have "(2 :: rat) powi ilog2 a < 2 powi (l + 1)" using b(1) hi by (rule le_less_trans)
  ultimately show ?thesis by (simp add: powi_less)
qed

lemma ilog2_mono: "0 < a \<Longrightarrow> a \<le> b \<Longrightarrow> ilog2 a \<le> ilog2 b"
proof -
  assume a: "0 < a" and ab: "a \<le> b"
  have "(2 :: rat) powi ilog2 a \<le> b" using ilog2_bounds(1) [OF a] ab by simp
  also have "b < 2 powi (ilog2 b + 1)" using a ab by (intro ilog2_bounds) simp
  finally show ?thesis by (simp add: powi_less)
qed


section \<open>Rounding is exact, bounded and monotone\<close>

lemma round_half_even_bounds: "\<lfloor>x\<rfloor> \<le> round_half_even x" "round_half_even x \<le> \<lfloor>x\<rfloor> + 1"
  by (auto simp: round_half_even_def Let_def)

lemma round_half_even_int [simp]: "round_half_even (of_int n) = n"
  by (simp add: round_half_even_def)

lemma round_half_even_mono: "x \<le> y \<Longrightarrow> round_half_even x \<le> round_half_even y"
proof -
  assume xy: "x \<le> y"
  then have le: "\<lfloor>x\<rfloor> \<le> \<lfloor>y\<rfloor>" by (rule floor_mono)
  show ?thesis
  proof (cases "\<lfloor>x\<rfloor> = \<lfloor>y\<rfloor>")
    case True
    with xy show ?thesis by (auto simp: round_half_even_def Let_def)
  next
    case False
    with le round_half_even_bounds(2) [of x] round_half_even_bounds(1) [of y] show ?thesis by linarith
  qed
qed

lemma scaled_bounds:
  assumes "0 < a"
  shows "a / 2 powi ulp_exp a < 2 ^ 53"
    and "-1074 < ulp_exp a \<Longrightarrow> 2 ^ 52 \<le> a / 2 powi ulp_exp a"
proof -
  have "a < 2 powi (ilog2 a + 1)" using assms by (rule ilog2_bounds)
  also have "\<dots> \<le> 2 powi (int 53 + ulp_exp a)" by (intro powi_mono) (simp add: ulp_exp_def)
  also have "\<dots> = 2 ^ 53 * 2 powi ulp_exp a" by (simp only: powi_add powi_nat)
  finally show "a / 2 powi ulp_exp a < 2 ^ 53" by (simp add: pos_divide_less_eq)
  assume "-1074 < ulp_exp a"
  then have "ilog2 a = int 52 + ulp_exp a" by (simp add: ulp_exp_def)
  then have "2 ^ 52 * 2 powi ulp_exp a = (2 :: rat) powi ilog2 a" by (simp only: powi_add powi_nat)
  also have "\<dots> \<le> a" using assms by (rule ilog2_bounds)
  finally show "2 ^ 52 \<le> a / 2 powi ulp_exp a" by (simp add: pos_le_divide_eq)
qed

lemma rnd_mantissa:
  assumes "0 < a"
  shows "\<exists>m. 0 \<le> m \<and> m \<le> 2 ^ 53 \<and> rnd a = of_int m * 2 powi ulp_exp a \<and>
     (-1074 < ulp_exp a \<longrightarrow> 2 ^ 52 \<le> m)"
proof -
  let ?x = "a / 2 powi ulp_exp a" let ?m = "round_half_even ?x"
  have x: "0 \<le> ?x" using assms by simp
  have "?m \<le> round_half_even (of_int (2 ^ 53))"
    using scaled_bounds(1) [OF assms] by (intro round_half_even_mono) simp
  moreover have "round_half_even (of_int 0) \<le> ?m" using x by (intro round_half_even_mono) simp
  moreover have "round_half_even (of_int (2 ^ 52)) \<le> ?m" if "-1074 < ulp_exp a"
    using scaled_bounds(2) [OF assms that] by (intro round_half_even_mono) simp
  ultimately show ?thesis using assms unfolding round_half_even_int
    by (intro exI [of _ ?m]) (simp add: rnd_def)
qed

lemma rnd_nonneg: "0 \<le> a \<Longrightarrow> 0 \<le> rnd a"
proof (cases "a = 0")
  case False
  moreover assume "0 \<le> a"
  ultimately obtain m where "0 \<le> m" "rnd a = of_int m * 2 powi ulp_exp a"
    using rnd_mantissa [of a] by auto
  then show ?thesis by simp
qed (simp add: rnd_def)

lemma rnd_mono:
  assumes "0 \<le> a" and "a \<le> b"
  shows "rnd a \<le> rnd b"
proof (cases "a = 0")
  case True
  with assms show ?thesis using rnd_nonneg [of b] by (simp add: rnd_def)
next
  case False
  with assms have a: "0 < a" and b: "0 < b" by simp_all
  have le: "ulp_exp a \<le> ulp_exp b"
    using ilog2_mono [OF a assms(2)] by (simp add: ulp_exp_def)
  show ?thesis
  proof (cases "ulp_exp a = ulp_exp b")
    case True
    have "a / 2 powi ulp_exp b \<le> b / 2 powi ulp_exp b"
      using assms(2) by (intro divide_right_mono) simp_all
    then have "round_half_even (a / 2 powi ulp_exp b) \<le> round_half_even (b / 2 powi ulp_exp b)"
      by (rule round_half_even_mono)
    with a b True show ?thesis by (simp add: rnd_def mult_right_mono)
  next
    case False
    with le have lt: "ulp_exp a + 1 \<le> ulp_exp b" by simp
    obtain m where m: "m \<le> 2 ^ 53" "rnd a = of_int m * 2 powi ulp_exp a"
      using rnd_mantissa [OF a] by auto
    have "-1074 < ulp_exp b" using lt by (simp add: ulp_exp_def)
    then obtain n where n: "2 ^ 52 \<le> n" "rnd b = of_int n * 2 powi ulp_exp b"
      using rnd_mantissa [OF b] by auto
    have "(of_int m :: rat) \<le> of_int (2 ^ 53)" using m(1) by (simp only: of_int_le_iff)
    then have "rnd a \<le> 2 ^ 53 * 2 powi ulp_exp a"
      unfolding m(2) by (intro mult_right_mono) simp_all
    also have "(2 :: rat) ^ 53 * 2 powi ulp_exp a = 2 ^ 52 * 2 powi (ulp_exp a + 1)"
      by (simp add: powi_add)
    also have "\<dots> \<le> 2 ^ 52 * 2 powi ulp_exp b" using lt by (intro mult_left_mono powi_mono) simp_all
    also have "\<dots> \<le> of_int n * 2 powi ulp_exp b"
    proof (rule mult_right_mono)
      have "(of_int (2 ^ 52) :: rat) \<le> of_int n" using n(1) by (simp only: of_int_le_iff)
      then show "(2 :: rat) ^ 52 \<le> of_int n" by simp
    qed simp
    finally show ?thesis by (simp only: n(2))
  qed
qed

lemma repI: "\<bar>q\<bar> < 2 ^ 1024 \<Longrightarrow> \<bar>m\<bar> < 2 ^ 53 \<Longrightarrow> -1074 \<le> e \<Longrightarrow> q = of_int m * 2 powi e \<Longrightarrow> rep q"
  unfolding rep_def by blast

lemma rep_0 [simp]: "rep 0"
  by (rule repI [of 0 0 0]) simp_all

lemma rep_rnd:
  assumes "0 \<le> a" and "rnd a < 2 ^ 1024"
  shows "rep (rnd a)"
proof (cases "a = 0")
  case True
  then show ?thesis by (simp add: rnd_def)
next
  case False
  with assms have a: "0 < a" by simp
  have e: "-1074 \<le> ulp_exp a" by (simp add: ulp_exp_def)
  obtain m where m: "0 \<le> m" "m \<le> 2 ^ 53" "rnd a = of_int m * 2 powi ulp_exp a"
    using rnd_mantissa [OF a] by auto
  have abs: "\<bar>rnd a\<bar> < 2 ^ 1024" using assms rnd_nonneg [of a] by simp
  show ?thesis
  proof (cases "m = 2 ^ 53")
    case True
    then have "rnd a = of_int (2 ^ 52) * 2 powi (ulp_exp a + 1)" using m(3) by (simp add: powi_add)
    then show ?thesis using e by (intro repI [OF abs, of "2 ^ 52" "ulp_exp a + 1"]) simp_all
  next
    case False
    with m(1,2) have "\<bar>m\<bar> < 2 ^ 53" by linarith
    then show ?thesis using e m(3) by (rule repI [OF abs])
  qed
qed

lemma rnd_rep:
  assumes "0 \<le> a" and "rep a"
  shows "rnd a = a"
proof (cases "a = 0")
  case True
  then show ?thesis by (simp add: rnd_def)
next
  case False
  with assms have a: "0 < a" by simp
  obtain m e where me: "\<bar>m\<bar> < 2 ^ 53" "-1074 \<le> e" "a = of_int m * 2 powi e"
    using assms(2) unfolding rep_def by blast
  have "of_int m * 2 powi e < (2 :: rat) ^ 53 * 2 powi e"
  proof (rule mult_strict_right_mono)
    have "(of_int m :: rat) < of_int (2 ^ 53)" using me(1) by (simp only: of_int_less_iff)
    then show "(of_int m :: rat) < 2 ^ 53" by simp
  qed simp
  then have "a < 2 powi (int 53 + e)" unfolding me(3) by (simp only: powi_add powi_nat)
  with ilog2_bounds(1) [OF a] have "(2 :: rat) powi ilog2 a < 2 powi (int 53 + e)" by simp
  then have le: "ulp_exp a \<le> e" using me(2) by (simp add: powi_less ulp_exp_def)
  have "a / 2 powi ulp_exp a = of_int (m * 2 ^ nat (e - ulp_exp a))"
  proof -
    have "2 powi e = 2 powi int (nat (e - ulp_exp a)) * (2 :: rat) powi ulp_exp a"
      using le by (simp flip: powi_add)
    then have "a = of_int m * 2 ^ nat (e - ulp_exp a) * 2 powi ulp_exp a"
      using me(3) by (simp only: powi_nat mult.assoc)
    then show ?thesis by (metis nonzero_eq_divide_eq of_int_mult of_int_numeral of_int_power
        less_irrefl powi_pos)
  qed
  then have "rnd a = of_int (m * 2 ^ nat (e - ulp_exp a)) * 2 powi ulp_exp a"
    using a by (simp only: rnd_def round_half_even_int) simp
  also have "\<dots> = a / 2 powi ulp_exp a * 2 powi ulp_exp a"
    by (simp only: \<open>a / 2 powi ulp_exp a = of_int (m * 2 ^ nat (e - ulp_exp a))\<close>)
  also have "\<dots> = a" by simp
  finally show ?thesis .
qed

lemma rep_uminus [simp]: "rep (- q) = rep q"
proof -
  have "rep (- q)" if "rep q" for q
  proof -
    obtain m e where "\<bar>m\<bar> < 2 ^ 53" "-1074 \<le> e" "q = of_int m * 2 powi e" "\<bar>q\<bar> < 2 ^ 1024"
      using \<open>rep q\<close> unfolding rep_def by blast
    then show ?thesis by (intro repI [of "- q" "- m" e]) simp_all
  qed
  from this [of q] this [of "- q"] show ?thesis by auto
qed

lemma round64_valid [simp]: "f_valid (round64 s q)"
  using rep_rnd [of "\<bar>q\<bar>"] by (auto simp: round64_def Let_def not_le)

lemma round64_rep: "rep q \<Longrightarrow> round64 s q = (if q = 0 then Zero s else Num q)"
proof -
  assume r: "rep q"
  then have "rep \<bar>q\<bar>" by (auto simp: abs_if)
  then have "rnd \<bar>q\<bar> = \<bar>q\<bar>" by (simp add: rnd_rep)
  moreover have "\<bar>q\<bar> < 2 ^ 1024" using r by (simp add: rep_def)
  ultimately show ?thesis by (auto simp: round64_def Let_def abs_if)
qed

lemma round64_not_nan [simp]: "round64 s q \<noteq> NaN"
  by (simp add: round64_def Let_def)

lemma round64_mono: "p \<le> q \<Longrightarrow> f_le (round64 s p) (round64 t q)"
proof -
  assume pq: "p \<le> q"
  have key: "f_le (round64 s p) (round64 t q) \<longleftrightarrow>
      (f_rank (round64 s p) < f_rank (round64 t q) \<or>
       f_rank (round64 s p) = f_rank (round64 t q) \<and> f_val (round64 s p) \<le> f_val (round64 t q))"
    by (simp add: f_le_def)
  have nn: "0 \<le> rnd \<bar>p\<bar>" "0 \<le> rnd \<bar>q\<bar>" by (simp_all add: rnd_nonneg)
  consider "0 \<le> p" | "p < 0" "0 \<le> q" | "q < 0" by linarith
  then show ?thesis
  proof cases
    case 1
    then have "rnd \<bar>p\<bar> \<le> rnd \<bar>q\<bar>" using pq by (intro rnd_mono) simp_all
    with 1 pq nn show ?thesis unfolding key by (auto simp: round64_def Let_def)
  next
    case 2
    with nn show ?thesis unfolding key by (auto simp: round64_def Let_def)
  next
    case 3
    then have "rnd \<bar>q\<bar> \<le> rnd \<bar>p\<bar>" using pq by (intro rnd_mono) simp_all
    with 3 pq nn show ?thesis unfolding key by (auto simp: round64_def Let_def)
  qed
qed

end
