(* ===== verification/Dlog.thy ===== *)
theory Dlog
  imports Float64
begin

text \<open>
  The deterministic logarithm (\<open>src/dlog.rs\<close>). The two normalisation loops have no
  termination argument on arbitrary input, so they are partial functions whose \<open>None\<close> would be
  an endless loop; \<open>dlog_total\<close> shows that they end on every binary64 value.
\<close>

section \<open>Literals\<close>

definition LN_2 :: f64 where
  "LN_2 = f_lit (693147180559945309417232121458176568 / 10 ^ 36)"

abbreviation f_half :: f64 where "f_half \<equiv> f_lit (1 / 2)"
abbreviation f_one :: f64 where "f_one \<equiv> f_lit 1"
abbreviation f_two :: f64 where "f_two \<equiv> f_lit 2"
abbreviation f_zero :: f64 where "f_zero \<equiv> f_lit 0"

lemma f_lit_dyadic:
  assumes "\<bar>m\<bar> < 2 ^ 53" and "n \<le> 1000" and "m \<noteq> 0"
  shows "f_lit (of_int m / 2 ^ n) = Num (of_int m / 2 ^ n)"
proof -
  have "\<bar>of_int m / 2 ^ n\<bar> < (2 :: rat) ^ 1024"
  proof -
    have "\<bar>of_int m / 2 ^ n\<bar> \<le> (of_int \<bar>m\<bar> :: rat)"
      by (simp add: divide_le_eq_1 pos_divide_le_eq mult_le_cancel_left1)
    also have "\<dots> < of_int (2 ^ 53)" using assms(1) by (simp only: of_int_less_iff)
    also have "\<dots> \<le> 2 ^ 1024" by simp
    finally show ?thesis .
  qed
  moreover have "(of_int m / 2 ^ n :: rat) = of_int m * 2 powi (- int n)"
    by (simp add: power_int_minus divide_inverse)
  ultimately have "rep (of_int m / 2 ^ n)" using assms by (intro repI [of _ m "- int n"]) simp_all
  then show ?thesis using assms(3) by (simp add: f_lit_def round64_rep)
qed

lemma f_lits [simp]:
  "f_lit (1 / 2) = Num (1 / 2)" "f_lit 1 = Num 1" "f_lit 2 = Num 2" "f_lit (3 / 2) = Num (3 / 2)"
  "f_lit (3 / 4) = Num (3 / 4)" "f_lit 1024 = Num 1024" "f_lit 4294967296 = Num 4294967296"
  "f_lit 0 = Zero False"
  using f_lit_dyadic [of 1 1] f_lit_dyadic [of 1 0] f_lit_dyadic [of 2 0] f_lit_dyadic [of 3 1]
    f_lit_dyadic [of 3 2] f_lit_dyadic [of 1024 0] f_lit_dyadic [of 4294967296 0]
  by (simp_all add: f_lit_def round64_def)

section \<open>The logarithm\<close>

partial_function (option) halve_loop :: "f64 \<Rightarrow> int \<Rightarrow> (f64 \<times> int) option" where
  "halve_loop m e =
     (if f_le (f_lit (3 / 2)) m then halve_loop (f_div m f_two) (e + 1) else Some (m, e))"

partial_function (option) double_loop :: "f64 \<Rightarrow> int \<Rightarrow> (f64 \<times> int) option" where
  "double_loop m e =
     (if f_lt m (f_lit (3 / 4)) then double_loop (f_mul m f_two) (e - 1) else Some (m, e))"

text \<open>The loops compute by their equations.\<close>

declare halve_loop.simps [code] double_loop.simps [code]

function series :: "f64 \<Rightarrow> f64 \<Rightarrow> f64 \<Rightarrow> int \<Rightarrow> f64" where
  "series acc trm z2 n =
     (if n \<le> 21 then series (f_add acc (f_div trm (f_of_int n))) (f_mul trm z2) z2 (n + 2)
      else acc)"
  by pat_completeness auto
termination
  by (relation "measure (\<lambda>(s, t, z, n). nat (22 - n))") auto

declare series.simps [simp del]

definition dlog :: "f64 \<Rightarrow> f64 option" where
  "dlog x =
     (if f_is_nan x \<or> f_lt x f_zero then Some NaN
      else if f_eq x f_zero then Some (Inf True)
      else if f_eq x (Inf False) then Some (Inf False)
      else do {
        (m, e) \<leftarrow> halve_loop x 0;
        (m, e) \<leftarrow> double_loop m e;
        let z = f_div (f_sub m f_one) (f_add m f_one);
        let z2 = f_mul z z;
        let s = series f_zero z z2 1;
        Some (f_add (f_mul (f_of_int e) LN_2) (f_mul f_two s)) })"

section \<open>Termination\<close>

lemma f_add_valid [simp]: "f_valid (f_add a b)"
  by (cases "(a, b)" rule: f_add.cases) simp_all

lemma f_mul_valid [simp]: "f_valid (f_mul a b)"
  by (cases "(a, b)" rule: f_mul.cases) simp_all

lemma f_div_valid [simp]: "f_valid (f_div a b)"
  by (cases "(a, b)" rule: f_div.cases) simp_all

lemma f_minmax_valid [simp]: "f_valid a \<Longrightarrow> f_valid b \<Longrightarrow> f_valid (f_max a b) \<and> f_valid (f_min a b)"
  by (simp add: f_max_def f_min_def)

lemma rep_half:
  assumes "rep q" and "1 \<le> q"
  shows "rep (q / 2)"
proof -
  obtain m e where me: "\<bar>m\<bar> < 2 ^ 53" "-1074 \<le> e" "q = of_int m * 2 powi e"
    using assms(1) unfolding rep_def by blast
  have "\<bar>q / 2\<bar> < 2 ^ 1024" using assms unfolding rep_def by linarith
  moreover have "-1074 \<le> e - 1"
  proof (rule ccontr)
    assume "\<not> -1074 \<le> e - 1"
    then have e: "e \<le> -53" using me(2) by simp
    have "(of_int m :: rat) < of_int (2 ^ 53)" using me(1) by (simp only: of_int_less_iff)
    then have "q < 2 ^ 53 * 2 powi e" unfolding me(3) by (intro mult_strict_right_mono) simp_all
    also have "\<dots> = 2 powi (int 53 + e)" by (simp only: powi_add powi_nat)
    also have "\<dots> \<le> 2 powi 0" using e by (intro powi_mono) simp
    finally show False using assms(2) by simp
  qed
  moreover have "q / 2 = of_int m * 2 powi (e - 1)"
    unfolding me(3) by (simp add: power_int_diff)
  ultimately show ?thesis using me(1) by (intro repI [of _ m "e - 1"])
qed

lemma rep_double:
  assumes "rep q" and "\<bar>q\<bar> < 2 ^ 1000"
  shows "rep (q * 2)"
proof -
  obtain m e where me: "\<bar>m\<bar> < 2 ^ 53" "-1074 \<le> e" "q = of_int m * 2 powi e"
    using assms(1) unfolding rep_def by blast
  have "\<bar>q * 2\<bar> = 2 * \<bar>q\<bar>" by simp
  also have "\<dots> < 2 * 2 ^ 1000" using assms(2) by linarith
  also have "\<dots> \<le> (2 :: rat) ^ 1024" by simp
  finally have "\<bar>q * 2\<bar> < 2 ^ 1024" .
  then show ?thesis using me by (intro repI [of _ m "e + 1"]) (simp_all add: powi_add)
qed

lemma halve_loop_ends:
  "rep q \<Longrightarrow> 0 < q \<Longrightarrow> q < 3 / 2 * 2 ^ n \<Longrightarrow>
   \<exists>r e'. halve_loop (Num q) e = Some (Num r, e') \<and> rep r \<and> 0 < r \<and> r < 3 / 2"
proof (induction n arbitrary: q e)
  case 0
  then show ?case by (simp add: halve_loop.simps [of "Num q"] f_le_def)
next
  case (Suc n)
  show ?case
  proof (cases "3 / 2 \<le> q")
    case True
    then have r: "rep (q / 2)" using Suc.prems(1) by (intro rep_half) simp_all
    have "q / 2 < 3 / 2 * 2 ^ n" using Suc.prems(3) by simp
    from Suc.IH [OF r _ this, of "e + 1"] True r show ?thesis
      by (simp add: halve_loop.simps [of "Num q"] f_le_def round64_rep)
  next
    case False
    then show ?thesis using Suc.prems by (simp add: halve_loop.simps [of "Num q"] f_le_def)
  qed
qed

lemma double_loop_ends:
  "rep q \<Longrightarrow> 0 < q \<Longrightarrow> q < 3 / 2 \<Longrightarrow> 3 / 4 \<le> q * 2 ^ n \<Longrightarrow>
   \<exists>r e'. double_loop (Num q) e = Some (Num r, e')"
proof (induction n arbitrary: q e)
  case 0
  then show ?case by (simp add: double_loop.simps [of "Num q"] f_lt_def)
next
  case (Suc n)
  show ?case
  proof (cases "q < 3 / 4")
    case True
    have "\<bar>q\<bar> < 2" using Suc.prems by simp
    also have "(2 :: rat) \<le> 2 ^ 1000" by simp
    finally have r: "rep (q * 2)" using Suc.prems(1) by (intro rep_double)
    from Suc.IH [OF r, of "e - 1"] Suc.prems True r show ?thesis
      by (simp add: double_loop.simps [of "Num q"] f_lt_def round64_rep mult.assoc)
  next
    case False
    then show ?thesis by (simp add: double_loop.simps [of "Num q"] f_lt_def)
  qed
qed

lemma rat_below_power: "\<exists>n. (x :: rat) < 2 ^ n"
proof -
  obtain n where "x < of_nat n" using reals_Archimedean2 [of x] by blast
  also have "(of_nat n :: rat) < of_nat (2 ^ n)" by (simp only: of_nat_less_iff less_exp)
  finally show ?thesis by (intro exI [of _ n]) simp
qed

lemma dlog_returns:
  assumes "f_valid x"
  shows "\<exists>y. dlog x = Some y \<and> f_valid y"
proof -
  consider "\<nexists>q. x = Num q \<and> 0 < q" | q where "x = Num q" "0 < q" "rep q"
    using assms by (cases x) auto
  then show ?thesis
  proof cases
    case 1
    then have "f_is_nan x \<or> f_lt x f_zero \<or> f_eq x f_zero \<or> f_eq x (Inf False)"
      by (cases x) (auto simp: f_is_nan_def f_lt_def f_eq_def f_le_def)
    then show ?thesis by (auto simp: dlog_def)
  next
    case (2 q)
    note q = this
    obtain n where "q / (3 / 2) < 2 ^ n" using rat_below_power by blast
    then have "q < 3 / 2 * 2 ^ n" by (simp add: field_simps)
    from halve_loop_ends [OF q(3,2) this, of 0] obtain r e where
      r: "halve_loop (Num q) 0 = Some (Num r, e)" "rep r" "0 < r" "r < 3 / 2" by blast
    obtain l where "3 / 4 / r < 2 ^ l" using rat_below_power by blast
    then have "3 / 4 \<le> r * 2 ^ l" using r(3) by (simp add: field_simps)
    from double_loop_ends [OF r(2-4) this, of e] obtain m f where
      "double_loop (Num r) e = Some (Num m, f)" by blast
    with r q show ?thesis
      by (simp add: dlog_def Let_def f_is_nan_def f_lt_def f_eq_def f_le_def)
  qed
qed

text \<open>C39: \<open>dlog\<close> returns on every binary64 value, and what it returns is a binary64 value.\<close>

theorem dlog_total:
  assumes "f_valid x"
  shows "\<exists>y. dlog x = Some y \<and> f_valid y"
  using assms by (rule dlog_returns)

theorem dlog_total_witness: "\<exists>y. dlog (Num 1) = Some y \<and> f_valid y"
proof (rule dlog_total)
  show "f_valid (Num 1)" using repI [of 1 1 0] by simp
qed

end
