(* ===== verification/Simd.thy ===== *)
theory Simd
  imports Prelude
begin

text \<open>
  The XOR engine (\<open>src/simd.rs\<close>) and the byte views of word slices (\<open>src/bytes.rs\<close>).

  The target architecture, the CPU's feature registers and the cached AVX2 state are fields of
  the record \<open>platform\<close>. Each vector loop is modelled as the source has it: a loop over
  whole lanes and a scalar loop over the rest. The lemma \<open>xor_into_eq\<close> shows that every
  dispatch computes the same element-wise XOR, and that unequal lengths panic before any
  pointer access. Byte views are little-endian, as on every target the source names.
\<close>

unbundle bit_operations_syntax

section \<open>Feature detection\<close>

datatype target_arch = X86_64 | Aarch64 | OtherArch

record cpu =
  cpuid1_ecx :: u32
  xcr0 :: u64
  cpuid7_ebx :: u32

record platform =
  arch :: target_arch
  cpu_regs :: cpu
  avx2_state :: u8

definition detect_avx2 :: "cpu \<Rightarrow> bool" where
  "detect_avx2 c =
     (let osxsave = cpuid1_ecx c AND push_bit 27 1 \<noteq> 0;
          avx = cpuid1_ecx c AND push_bit 28 1 \<noteq> 0
      in if \<not> osxsave \<or> \<not> avx then False
         else if xcr0 c AND 0x6 \<noteq> 0x6 then False
         else cpuid7_ebx c AND push_bit 5 1 \<noteq> 0)"

text \<open>\<open>avx2_available\<close> returns the answer and the new value of the static \<open>AVX2_STATE\<close>.\<close>

definition avx2_available :: "cpu \<Rightarrow> u8 \<Rightarrow> bool \<times> u8" where
  "avx2_available c st =
     (if st = 1 then (False, st)
      else if st = 2 then (True, st)
      else let detected = detect_avx2 c in (detected, if detected then 2 else 1))"

definition avx2_state_ok :: "cpu \<Rightarrow> u8 \<Rightarrow> bool" where
  "avx2_state_ok c st \<longleftrightarrow> (st = 1 \<longrightarrow> \<not> detect_avx2 c) \<and> (st = 2 \<longrightarrow> detect_avx2 c)"

lemma avx2_available_detects:
  "avx2_state_ok c st \<Longrightarrow> fst (avx2_available c st) = detect_avx2 c"
  by (auto simp: avx2_state_ok_def avx2_available_def Let_def)

lemma avx2_state_ok_keep:
  "avx2_state_ok c st \<Longrightarrow> avx2_state_ok c (snd (avx2_available c st))"
  by (auto simp: avx2_state_ok_def avx2_available_def Let_def)

lemma avx2_cached_after_first: "snd (avx2_available c st) \<in> {1, 2}"
  by (auto simp: avx2_available_def Let_def)

section \<open>The vector loops\<close>

definition lane_xor :: "u32 list \<Rightarrow> u32 list \<Rightarrow> u32 list" where
  "lane_xor a b = map2 (XOR) a b"

definition load_lane :: "nat \<Rightarrow> u32 list \<Rightarrow> nat \<Rightarrow> u32 list" where
  "load_lane l p i = take l (drop i p)"

definition store_lane :: "u32 list \<Rightarrow> nat \<Rightarrow> u32 list \<Rightarrow> u32 list" where
  "store_lane p i v = take i p @ v @ drop (i + length v) p"

function vector_loop :: "nat \<Rightarrow> u32 list \<Rightarrow> u32 list \<Rightarrow> nat \<Rightarrow> u32 list \<times> nat" where
  "vector_loop l d s i =
     (if 0 < l \<and> i + l \<le> length d
      then vector_loop l
             (store_lane d i (lane_xor (load_lane l d i) (load_lane l s i))) s (i + l)
      else (d, i))"
  by pat_completeness auto

termination
  by (relation "measure (\<lambda>(l, d, s, i). length d - i)")
    (auto simp: store_lane_def lane_xor_def load_lane_def)

lemma length_store_lane: "i + length v \<le> length p \<Longrightarrow> length (store_lane p i v) = length p"
  by (simp add: store_lane_def)

lemma length_lane_step:
  "i + l \<le> length d \<Longrightarrow>
   length (store_lane d i (lane_xor (load_lane l d i) (load_lane l s i))) = length d"
  by (rule length_store_lane) (simp add: lane_xor_def load_lane_def)

function tail_loop :: "u32 list \<Rightarrow> u32 list \<Rightarrow> nat \<Rightarrow> u32 list" where
  "tail_loop d s i =
     (if i < length d then tail_loop (d[i := d ! i XOR s ! i]) s (i + 1) else d)"
  by pat_completeness auto
termination
  by (relation "measure (\<lambda>(d, s, i). length d - i)") auto

declare vector_loop.simps [simp del] tail_loop.simps [simp del]

definition xor_avx2 :: "u32 list \<Rightarrow> u32 list \<Rightarrow> u32 list" where
  "xor_avx2 d s = (let (d', i) = vector_loop 8 d s 0 in tail_loop d' s i)"

definition xor_sse2 :: "u32 list \<Rightarrow> u32 list \<Rightarrow> u32 list" where
  "xor_sse2 d s = (let (d', i) = vector_loop 4 d s 0 in tail_loop d' s i)"

definition xor_neon :: "u32 list \<Rightarrow> u32 list \<Rightarrow> u32 list" where
  "xor_neon d s = (let (d', i) = vector_loop 4 d s 0 in tail_loop d' s i)"

fun xor_scalar :: "u32 list \<Rightarrow> u32 list \<Rightarrow> u32 list" where
  "xor_scalar (d # ds) (s # ss) = (d XOR s) # xor_scalar ds ss"
| "xor_scalar ds _ = ds"

definition xor_into :: "'p platform_scheme \<Rightarrow> u32 list \<Rightarrow> u32 list \<Rightarrow> u32 list option" where
  "xor_into P dst src =
     (if length dst \<noteq> length src then None
      else Some (case arch P of
          X86_64 \<Rightarrow>
            (if fst (avx2_available (cpu_regs P) (avx2_state P))
             then xor_avx2 dst src else xor_sse2 dst src)
        | Aarch64 \<Rightarrow> xor_neon dst src
        | OtherArch \<Rightarrow> xor_scalar dst src))"

section \<open>Every path is the element-wise XOR\<close>

definition xor_words :: "u32 list \<Rightarrow> u32 list \<Rightarrow> u32 list" where
  "xor_words a b = map2 (XOR) a b"

lemma length_xor_words [simp, len_simps]: "length (xor_words a b) = min (length a) (length b)"
  by (simp add: xor_words_def)

lemma nth_xor_words [simp]:
  "i < length a \<Longrightarrow> i < length b \<Longrightarrow> xor_words a b ! i = a ! i XOR b ! i"
  by (simp add: xor_words_def)

text \<open>\<open>half_done i d s\<close>: the first \<open>i\<close> words are XORed, the others untouched.\<close>

definition half_done :: "nat \<Rightarrow> u32 list \<Rightarrow> u32 list \<Rightarrow> u32 list" where
  "half_done i d s = take i (xor_words d s) @ drop i d"

lemma length_half_done: "length d = length s \<Longrightarrow> length (half_done i d s) = length d"
  by (simp add: half_done_def)

lemma nth_half_done:
  "length d = length s \<Longrightarrow> j < length d \<Longrightarrow>
   half_done i d s ! j = (if j < i then d ! j XOR s ! j else d ! j)"
  by (simp add: half_done_def nth_append min_def)

lemma half_done_0 [simp]: "half_done 0 d s = d"
  by (simp add: half_done_def)

lemma half_done_all: "length d = length s \<Longrightarrow> length d \<le> i \<Longrightarrow> half_done i d s = xor_words d s"
  by (simp add: half_done_def)

lemma half_done_lane:
  assumes "length d = length s" and "i + l \<le> length d"
  shows "store_lane (half_done i d s) i
           (lane_xor (load_lane l (half_done i d s) i) (load_lane l s i)) = half_done (i + l) d s"
    (is "?L = _")
proof (rule nth_equalityI)
  show len: "length ?L = length (half_done (i + l) d s)"
    using assms by (simp add: length_lane_step length_half_done)
  fix j assume "j < length ?L"
  then have j: "j < length d" using len assms by (simp add: length_half_done)
  let ?v = "lane_xor (load_lane l (half_done i d s) i) (load_lane l s i)"
  have v: "length ?v = l" using assms by (simp add: lane_xor_def load_lane_def length_half_done)
  consider "j < i" | "i \<le> j \<and> j < i + l" | "i + l \<le> j" by linarith
  then show "?L ! j = half_done (i + l) d s ! j"
  proof cases
    case 2
    then have lt: "j - i < l" by arith
    then have "?v ! (j - i) = half_done i d s ! j XOR s ! j"
      using assms 2 by (simp add: lane_xor_def load_lane_def length_half_done)
    then show ?thesis
      using assms j 2 v lt by (simp add: store_lane_def nth_append nth_half_done length_half_done)
  next
    case 3
    then have "\<not> j - i < l" by arith
    with 3 assms j v show ?thesis
      by (simp add: store_lane_def nth_append nth_half_done length_half_done)
  qed (use assms j v in \<open>simp add: store_lane_def nth_append nth_half_done length_half_done\<close>)
qed

lemma half_done_word:
  assumes "length d = length s" and "i < length d"
  shows "(half_done i d s)[i := half_done i d s ! i XOR s ! i] = half_done (i + 1) d s"
  using assms
  by (intro nth_equalityI) (auto simp: length_half_done nth_half_done nth_list_update)

lemma vector_loop_half_done:
  "length d = length s \<Longrightarrow> i \<le> length d \<Longrightarrow>
   \<exists>j. i \<le> j \<and> j \<le> length d \<and> vector_loop l (half_done i d s) s i = (half_done j d s, j)"
proof (induction "length d - i" arbitrary: i rule: less_induct)
  case less
  show ?case
  proof (cases "0 < l \<and> i + l \<le> length d")
    case True
    then have "length d - (i + l) < length d - i" by arith
    from less.hyps [OF this less.prems(1)] True
    obtain j where "i + l \<le> j" "j \<le> length d"
      "vector_loop l (half_done (i + l) d s) s (i + l) = (half_done j d s, j)" by auto
    with True less.prems show ?thesis
      by (intro exI [of _ j])
        (simp add: vector_loop.simps [of l "half_done i d s"] half_done_lane length_half_done)
  next
    case False
    with less.prems show ?thesis
      by (auto simp: vector_loop.simps [of l "half_done i d s"] length_half_done)
  qed
qed

lemma tail_loop_half_done:
  "length d = length s \<Longrightarrow> tail_loop (half_done i d s) s i = xor_words d s"
proof (induction "length d - i" arbitrary: i rule: less_induct)
  case less
  show ?case
  proof (cases "i < length d")
    case True
    then have "length d - (i + 1) < length d - i" by simp
    from less.hyps [OF this less.prems] True less.prems show ?thesis
      by (simp add: tail_loop.simps [of "half_done i d s"] half_done_word length_half_done)
  next
    case False
    with less.prems show ?thesis
      by (simp add: tail_loop.simps [of "xor_words d s"] half_done_all)
  qed
qed

lemma lanes_then_tail:
  "length d = length s \<Longrightarrow>
   (let (d', i) = vector_loop l d s 0 in tail_loop d' s i) = xor_words d s"
  using vector_loop_half_done [of d s 0 l] by (auto simp: tail_loop_half_done)

lemma xor_scalar_eq: "length d = length s \<Longrightarrow> xor_scalar d s = xor_words d s"
  by (induction d s rule: xor_scalar.induct) (auto simp: xor_words_def)

lemma xor_into_eq [simp]:
  "xor_into P dst src = (if length dst = length src then Some (xor_words dst src) else None)"
  by (simp add: xor_into_def xor_avx2_def xor_sse2_def xor_neon_def lanes_then_tail xor_scalar_eq
      split: target_arch.split)

section \<open>Word slices as bytes\<close>

definition words_as_bytes :: "u32 list \<Rightarrow> u8 list" where
  "words_as_bytes ws = concat (map le_bytes32 ws)"

text \<open>Writing through \<open>words_as_bytes_mut\<close> replaces the words by the ones the new bytes spell.\<close>

fun bytes_as_words :: "u8 list \<Rightarrow> u32 list" where
  "bytes_as_words (a # b # c # d # bs) = of_le32 a b c d # bytes_as_words bs"
| "bytes_as_words _ = []"

lemma words_as_bytes_simps [simp]:
  "words_as_bytes [] = []"
  "words_as_bytes (w # ws) = le_bytes32 w @ words_as_bytes ws"
  by (simp_all add: words_as_bytes_def)

lemma length_words_as_bytes [simp, len_simps]: "length (words_as_bytes ws) = 4 * length ws"
  by (induction ws) auto

lemma words_as_bytes_append: "words_as_bytes (xs @ ys) = words_as_bytes xs @ words_as_bytes ys"
  by (simp add: words_as_bytes_def)

lemma bytes_as_words_of_words [simp]: "bytes_as_words (words_as_bytes ws) = ws"
  by (induction ws) (simp_all add: le_bytes32_def)

lemma words_of_bytes: "length bs mod 4 = 0 \<Longrightarrow> words_as_bytes (bytes_as_words bs) = bs"
proof (induction bs rule: bytes_as_words.induct)
  case (1 a b c d bs)
  then have "length bs mod 4 = 0" by simp
  with 1 show ?case by (simp add: bytes_of_le32)
qed simp_all

lemma length_bytes_as_words [len_simps]: "length bs mod 4 = 0 \<Longrightarrow> 4 * length (bytes_as_words bs) = length bs"
  using words_of_bytes [of bs] length_words_as_bytes [of "bytes_as_words bs"] by simp

definition xor_bytes :: "u8 list \<Rightarrow> u8 list \<Rightarrow> u8 list" where
  "xor_bytes a b = map2 (XOR) a b"

lemma length_xor_bytes [simp, len_simps]: "length (xor_bytes a b) = min (length a) (length b)"
  by (simp add: xor_bytes_def)

lemma le_bytes32_xor: "le_bytes32 (x XOR y) = map2 (XOR) (le_bytes32 x) (le_bytes32 y)"
  by (simp add: le_bytes32_def) (auto intro!: bit_word_eqI simp: bit_simps)

lemma words_as_bytes_xor:
  "length a = length b \<Longrightarrow>
   words_as_bytes (xor_words a b) = xor_bytes (words_as_bytes a) (words_as_bytes b)"
  by (induction a b rule: list_induct2) (simp_all add: xor_words_def xor_bytes_def le_bytes32_xor)

lemma take_xor_bytes: "take n (xor_bytes a b) = xor_bytes (take n a) (take n b)"
  by (simp add: xor_bytes_def take_map take_zip)

section \<open>Property\<close>

text \<open>C38: on every platform, whatever the cached AVX2 state, \<open>xor_into\<close> panics exactly on unequal
  lengths and otherwise stores the element-wise XOR; and the cache is transparent: the second query
  answers what the CPU registers say.\<close>

theorem xor_into_every_path:
  "xor_into P dst src = (if length dst = length src then Some (map2 (XOR) dst src) else None) \<and>
   fst (avx2_available c (snd (avx2_available c 0))) = detect_avx2 c"
proof
  show "xor_into P dst src = (if length dst = length src then Some (map2 (XOR) dst src) else None)"
    by (simp add: xor_words_def)
  have "avx2_state_ok c 0" by (simp add: avx2_state_ok_def)
  then show "fst (avx2_available c (snd (avx2_available c 0))) = detect_avx2 c"
    by (intro avx2_available_detects avx2_state_ok_keep)
qed

end
