(* ===== verification/Soliton.thy ===== *)
theory Soliton
  imports Dlog Simd
begin

text \<open>
  The robust-soliton degree distribution (\<open>src/soliton.rs\<close>) and its two-level sampler.
  \<open>libm\<close>'s square root and ceiling are third-party code: they are fields of the record
  \<open>math_platform\<close>, and totality needs nothing of them. The sampler is compared with a plain binary
  search: on a sorted distribution both return the same degree.
\<close>

section \<open>The distribution\<close>

record math_platform = platform +
  libm_sqrt :: "f64 \<Rightarrow> f64"
  libm_ceil :: "f64 \<Rightarrow> f64"

definition SOLITON_C :: f64 where "SOLITON_C = f_lit (1 / 10)"
definition SOLITON_DELTA :: f64 where "SOLITON_DELTA = f_lit (1 / 2)"
definition QUANT :: usize where "QUANT = 1024"

definition cdf_term :: "usize \<Rightarrow> f64 \<Rightarrow> usize \<Rightarrow> usize \<Rightarrow> (f64 \<times> f64) option" where
  "cdf_term k r spike d = do {
     let rho = (if d = 1 then f_div f_one (f_of_nat k)
                else f_div f_one (f_of_nat (d * (d - 1))));
     tau \<leftarrow> (if d < spike then Some (f_div r (f_of_nat (d * k)))
            else if d = spike then do {
              l \<leftarrow> dlog (f_div r SOLITON_DELTA);
              Some (f_div (f_mul r (f_max l f_zero)) (f_of_nat k)) }
            else Some f_zero);
     Some (rho, tau) }"

fun cdf_loop :: "usize \<Rightarrow> f64 \<Rightarrow> usize \<Rightarrow> usize list \<Rightarrow> f64 \<Rightarrow> f64 list \<Rightarrow> (f64 \<times> f64 list) option" where
  "cdf_loop k r spike [] tot cdf = Some (tot, cdf)"
| "cdf_loop k r spike (d # ds) tot cdf = do {
     (rho, tau) \<leftarrow> cdf_term k r spike d;
     let tot = f_add tot (f_add rho tau);
     cdf \<leftarrow> set_at cdf (d - 1) tot;
     cdf_loop k r spike ds tot cdf }"

definition soliton_cdf :: "'m math_platform_scheme \<Rightarrow> usize \<Rightarrow> f64 list option" where
  "soliton_cdf P k =
     (if k = 0 then Some []
      else if k = 1 then Some [f_one]
      else do {
        l \<leftarrow> dlog (f_div (f_of_nat k) SOLITON_DELTA);
        let r = f_max (f_mul (f_mul SOLITON_C l) (libm_sqrt P (f_of_nat k))) f_one;
        let spike = f_to_usize (f_min (libm_ceil P (f_div (f_of_nat k) r)) (f_of_nat k));
        (tot, cdf) \<leftarrow> cdf_loop k r spike [1..<k + 1] f_zero (replicate k f_zero);
        let cdf = map (\<lambda>x. f_div x tot) cdf;
        set_at cdf (k - 1) f_one })"

section \<open>Sampling\<close>

record degree_cdf =
  dc_cdf :: "f64 list"
  dc_quant :: "u32 list"

text \<open>The binary search that \<open>lower_bound\<close> and \<open>sample\<close> both run.\<close>

function search_loop :: "f64 list \<Rightarrow> f64 \<Rightarrow> usize \<Rightarrow> usize \<Rightarrow> usize option" where
  "search_loop cdf x lo hi =
     (if lo < hi then
        let mid = (lo + hi) div 2
        in (case get_at cdf mid of
              None \<Rightarrow> None
            | Some c \<Rightarrow> if f_le x c then search_loop cdf x lo mid
                        else search_loop cdf x (mid + 1) hi)
      else Some lo)"
  by pat_completeness auto
termination
  by (relation "measure (\<lambda>(cdf, x, lo, hi). hi - lo)") auto

declare search_loop.simps [simp del]

definition lower_bound :: "f64 list \<Rightarrow> f64 \<Rightarrow> usize option" where
  "lower_bound cdf x = do {
     hi \<leftarrow> checked_sub (length cdf) 1;
     search_loop cdf x 0 hi }"

definition quant_entry :: "f64 list \<Rightarrow> usize \<Rightarrow> u32 option" where
  "quant_entry cdf i =
     map_option word_of_nat (lower_bound cdf (f_div (f_of_nat i) (f_of_nat QUANT)))"

definition degree_cdf_new :: "'m math_platform_scheme \<Rightarrow> usize \<Rightarrow> degree_cdf option" where
  "degree_cdf_new P k = do {
     cdf \<leftarrow> soliton_cdf P k;
     if cdf = [] then Some \<lparr>dc_cdf = cdf, dc_quant = replicate (QUANT + 1) 0\<rparr>
     else do {
       quant \<leftarrow> those (map (quant_entry cdf) [0..<QUANT + 1]);
       Some \<lparr>dc_cdf = cdf, dc_quant = quant\<rparr> } }"

definition degree_cdf_values :: "degree_cdf \<Rightarrow> f64 list" where
  "degree_cdf_values dc = dc_cdf dc"

definition degree_cdf_k :: "degree_cdf \<Rightarrow> usize" where
  "degree_cdf_k dc = length (dc_cdf dc)"

definition sample :: "degree_cdf \<Rightarrow> f64 \<Rightarrow> usize option" where
  "sample dc u =
     (if dc_cdf dc = [] then Some 0
      else if f_is_nan u \<or> f_le u f_zero then Some 1
      else if f_le f_one u then Some (length (dc_cdf dc))
      else do {
        let i = f_to_usize (f_mul u (f_of_nat QUANT));
        lo \<leftarrow> get_at (dc_quant dc) i;
        hi \<leftarrow> get_at (dc_quant dc) (i + 1);
        lo \<leftarrow> search_loop (dc_cdf dc) u (unat lo) (unat hi);
        Some (lo + 1) })"

definition degree_binary :: "f64 list \<Rightarrow> f64 \<Rightarrow> usize option" where
  "degree_binary cdf u =
     (if cdf = [] then Some 0
      else if f_is_nan u \<or> f_le u f_zero then Some 1
      else if f_le f_one u then Some (length cdf)
      else map_option (\<lambda>lo. min (lo + 1) (length cdf)) (lower_bound cdf u))"

section \<open>Binary search\<close>

lemma search_loop_range:
  "lo \<le> hi \<Longrightarrow> hi \<le> length cdf \<Longrightarrow> \<exists>r. search_loop cdf x lo hi = Some r \<and> lo \<le> r \<and> r \<le> hi"
proof (induction cdf x lo hi rule: search_loop.induct)
  case (1 cdf x lo hi)
  show ?case
  proof (cases "lo < hi")
    case True
    let ?mid = "(lo + hi) div 2"
    have mid: "lo \<le> ?mid" "?mid < hi" using True by linarith+
    with 1(4) have c: "get_at cdf ?mid = Some (cdf ! ?mid)" by (simp add: get_at_in)
    show ?thesis
    proof (cases "f_le x (cdf ! ?mid)")
      case True
      then have "search_loop cdf x lo hi = search_loop cdf x lo ?mid"
        using \<open>lo < hi\<close> c by (simp add: search_loop.simps [of cdf x lo hi] Let_def)
      with 1(1) [OF \<open>lo < hi\<close> refl c True] mid 1(4) show ?thesis by fastforce
    next
      case False
      then have "search_loop cdf x lo hi = search_loop cdf x (?mid + 1) hi"
        using \<open>lo < hi\<close> c by (simp add: search_loop.simps [of cdf x lo hi] Let_def)
      with 1(2) [OF \<open>lo < hi\<close> refl c False] mid 1(4) show ?thesis by fastforce
    qed
  next
    case False
    then have "search_loop cdf x lo hi = Some lo" by (subst search_loop.simps) simp
    with 1(3) show ?thesis by simp
  qed
qed

text \<open>On a distribution where reaching \<open>x\<close> is monotone in the index, the search returns the first
  index of the range that reaches \<open>x\<close>, and the end of the range if none does.\<close>

definition mono_reach :: "f64 list \<Rightarrow> f64 \<Rightarrow> bool" where
  "mono_reach cdf x \<longleftrightarrow> (\<forall>i j. i \<le> j \<and> j < length cdf \<and> f_le x (cdf ! i) \<longrightarrow> f_le x (cdf ! j))"

lemma search_loop_first:
  assumes "mono_reach cdf x"
  shows "lo \<le> hi \<Longrightarrow> hi \<le> length cdf \<Longrightarrow> search_loop cdf x lo hi = Some r \<Longrightarrow>
    (\<forall>j. lo \<le> j \<and> j < r \<longrightarrow> \<not> f_le x (cdf ! j)) \<and> (r < hi \<longrightarrow> f_le x (cdf ! r))"
  using assms
proof (induction cdf x lo hi arbitrary: r rule: search_loop.induct)
  case (1 cdf x lo hi)
  show ?case
  proof (cases "lo < hi")
    case True
    let ?mid = "(lo + hi) div 2"
    have mid: "lo \<le> ?mid" "?mid < hi" using True by linarith+
    with 1(4) have c: "get_at cdf ?mid = Some (cdf ! ?mid)" by (simp add: get_at_in)
    show ?thesis
    proof (cases "f_le x (cdf ! ?mid)")
      case hit: True
      then have run: "search_loop cdf x lo ?mid = Some r"
        using True c 1(5) by (simp add: search_loop.simps [of cdf x lo hi] Let_def)
      have "r \<le> ?mid" using search_loop_range [of lo ?mid cdf x] mid 1(4) run by auto
      with 1(1) [OF True refl c hit mid(1) _ run 1(6)] mid 1(4) hit show ?thesis
        by (cases "r = ?mid") auto
    next
      case miss: False
      then have run: "search_loop cdf x (?mid + 1) hi = Some r"
        using True c 1(5) by (simp add: search_loop.simps [of cdf x lo hi] Let_def)
      have low: "\<not> f_le x (cdf ! j)" if "j \<le> ?mid" for j
        using that miss 1(6) mid 1(4) unfolding mono_reach_def by (meson less_le_trans)
      have le: "?mid + 1 \<le> hi" using mid by simp
      from 1(2) [OF True refl c miss le 1(4) run 1(6)] low show ?thesis
        by (metis Suc_eq_plus1 not_less_eq_eq)
    qed
  next
    case False
    then have "search_loop cdf x lo hi = Some lo" by (simp add: search_loop.simps [of cdf x lo hi])
    with 1(3,5) False show ?thesis by auto
  qed
qed

lemma lower_bound_range:
  "cdf \<noteq> [] \<Longrightarrow> \<exists>r. lower_bound cdf x = Some r \<and> r < length cdf"
proof -
  assume "cdf \<noteq> []"
  then have pos: "0 < length cdf" by simp
  then obtain r where "search_loop cdf x 0 (length cdf - 1) = Some r" "r \<le> length cdf - 1"
    using search_loop_range [of 0 "length cdf - 1" cdf x] by auto
  moreover from pos this have "r < length cdf" by linarith
  ultimately show ?thesis using pos by (auto simp: lower_bound_def checked_sub_def Suc_le_eq)
qed

lemma lower_bound_first:
  assumes "mono_reach cdf x" and "lower_bound cdf x = Some r"
  shows "(\<forall>j < r. \<not> f_le x (cdf ! j)) \<and> (r < length cdf - 1 \<longrightarrow> f_le x (cdf ! r))"
proof -
  have "search_loop cdf x 0 (length cdf - 1) = Some r"
    using assms(2) by (auto simp: lower_bound_def checked_sub_def split: if_splits)
  from search_loop_first [OF assms(1) _ _ this] show ?thesis by auto
qed

section \<open>The distribution and the sampler are well formed\<close>

lemma cdf_term_total: "\<exists>rho tau. cdf_term k r spike d = Some (rho, tau)"
proof -
  obtain l where "dlog (f_div r SOLITON_DELTA) = Some l"
    using dlog_returns [OF f_div_valid] by blast
  then show ?thesis by (simp add: cdf_term_def Let_def)
qed

lemma cdf_loop_total:
  "\<forall>d \<in> set ds. 1 \<le> d \<and> d \<le> length cdf \<Longrightarrow>
   \<exists>t cdf'. cdf_loop k r spike ds tot cdf = Some (t, cdf') \<and> length cdf' = length cdf"
proof (induction ds arbitrary: tot cdf)
  case (Cons d ds)
  obtain rho tau where "cdf_term k r spike d = Some (rho, tau)" using cdf_term_total by blast
  moreover have "d - 1 < length cdf" using Cons.prems by auto
  ultimately show ?case
    using Cons.IH [of "cdf[d - 1 := f_add tot (f_add rho tau)]"] Cons.prems by (simp add: set_at_in Let_def)
qed simp

lemma soliton_cdf_total:
  "\<exists>cdf. soliton_cdf P k = Some cdf \<and> length cdf = k \<and> (0 < k \<longrightarrow> cdf ! (k - 1) = f_one)"
proof (cases "k \<le> 1")
  case True
  then show ?thesis by (cases k) (auto simp: soliton_cdf_def)
next
  case False
  obtain l where l: "dlog (f_div (f_of_nat k) SOLITON_DELTA) = Some l"
    using dlog_returns [OF f_div_valid] by blast
  define r where "r = f_max (f_mul (f_mul SOLITON_C l) (libm_sqrt P (f_of_nat k))) f_one"
  define spike where "spike = f_to_usize (f_min (libm_ceil P (f_div (f_of_nat k) r)) (f_of_nat k))"
  have "\<forall>d \<in> set [1..<k + 1]. 1 \<le> d \<and> d \<le> length (replicate k f_zero)" by auto
  from cdf_loop_total [OF this, of k r spike f_zero] obtain t cdf where
    loop: "cdf_loop k r spike [1..<k + 1] f_zero (replicate k f_zero) = Some (t, cdf)" "length cdf = k"
    by auto
  have "soliton_cdf P k = set_at (map (\<lambda>x. f_div x t) cdf) (k - 1) f_one"
    using False l loop by (simp add: soliton_cdf_def Let_def r_def spike_def del: upt_Suc f_lits)
  with loop(2) False show ?thesis by (simp add: set_at_in)
qed

definition degree_cdf_ok :: "degree_cdf \<Rightarrow> bool" where
  "degree_cdf_ok dc \<longleftrightarrow> length (dc_quant dc) = QUANT + 1 \<and>
     (dc_cdf dc \<noteq> [] \<longrightarrow> (\<forall>i \<le> QUANT.
        lower_bound (dc_cdf dc) (f_div (f_of_nat i) (f_of_nat QUANT)) = Some (unat (dc_quant dc ! i))))"

lemma those_map_Some: "\<forall>x \<in> set xs. f x = Some (g x) \<Longrightarrow> those (map f xs) = Some (map g xs)"
  by (induction xs) simp_all

lemma degree_cdf_new_ok:
  assumes "k < 2 ^ 32"
  shows "\<exists>dc. degree_cdf_new P k = Some dc \<and> degree_cdf_ok dc \<and> soliton_cdf P k = Some (dc_cdf dc) \<and>
     degree_cdf_k dc = k"
proof -
  obtain cdf where cdf: "soliton_cdf P k = Some cdf" "length cdf = k"
    using soliton_cdf_total by blast
  show ?thesis
  proof (cases "cdf = []")
    case True
    then show ?thesis using cdf by (simp add: degree_cdf_new_def degree_cdf_ok_def degree_cdf_k_def)
  next
    case False
    define lb where "lb i = the (lower_bound cdf (f_div (f_of_nat i) (f_of_nat QUANT)))" for i
    have lb: "lower_bound cdf (f_div (f_of_nat i) (f_of_nat QUANT)) = Some (lb i)" "lb i < 2 ^ 32" for i
      using lower_bound_range [OF False, of "f_div (f_of_nat i) (f_of_nat QUANT)"] cdf(2) assms
      by (auto simp: lb_def)
    have "those (map (quant_entry cdf) [0..<QUANT + 1]) = Some (map (\<lambda>i. word_of_nat (lb i)) [0..<QUANT + 1])"
      by (rule those_map_Some) (simp add: quant_entry_def lb(1))
    moreover have "unat (map (\<lambda>i. word_of_nat (lb i) :: u32) [0..<QUANT + 1] ! i) = lb i" if "i \<le> QUANT" for i
    proof -
      have "i < length [0..<QUANT + 1]" using that by simp
      then have "map (\<lambda>i. word_of_nat (lb i) :: u32) [0..<QUANT + 1] ! i = word_of_nat (lb i)"
        by (simp del: upt_Suc)
      then show ?thesis using lb(2) [of i] by (simp add: unat_of_nat)
    qed
    ultimately show ?thesis
      using cdf False lb(1)
      by (simp add: degree_cdf_new_def degree_cdf_ok_def degree_cdf_k_def del: upt_Suc)
  qed
qed

section \<open>The sampler\<close>

lemma f_of_nat_exact: "n < 2 ^ 53 \<Longrightarrow> f_of_nat n = (if n = 0 then Zero False else Num (of_nat n))"
proof -
  assume n: "n < 2 ^ 53"
  then have "\<bar>int n\<bar> < 2 ^ 53" by (simp add: nat_less_iff flip: of_nat_less_iff)
  then show ?thesis
    using f_lit_dyadic [of "int n" 0] by (simp add: f_of_nat_def f_of_int_def f_lit_def round64_def)
qed

lemma f_of_nat_QUANT: "f_of_nat QUANT = Num 1024"
  by (simp add: f_of_nat_exact QUANT_def)

lemma quant_point: "i \<le> QUANT \<Longrightarrow>
    f_div (f_of_nat i) (f_of_nat QUANT) = (if i = 0 then Zero False else Num (of_nat i / 1024))"
proof -
  assume i: "i \<le> QUANT"
  then have "\<bar>int i\<bar> < 2 ^ 53" by (simp add: QUANT_def)
  then have "round64 False (of_nat i / 1024) = Num (of_nat i / 1024)" if "i \<noteq> 0"
    using f_lit_dyadic [of "int i" 10] that by (simp add: f_lit_def)
  moreover have "round64 False 0 = Zero False" by (simp add: round64_def)
  ultimately show ?thesis using i by (simp add: f_of_nat_exact QUANT_def)
qed

lemma rep_scale:
  assumes "rep q" and "0 < q" and "q < 1"
  shows "rep (q * 1024)"
proof -
  obtain m e where me: "\<bar>m\<bar> < 2 ^ 53" "-1074 \<le> e" "q = of_int m * 2 powi e"
    using assms(1) unfolding rep_def by blast
  have "\<bar>q * 1024\<bar> < 1024" using assms by simp
  also have "(1024 :: rat) \<le> 2 ^ 1024" by simp
  finally show ?thesis using me by (intro repI [of _ m "e + 10"]) (simp_all add: powi_add)
qed

lemma unit_floatE:
  assumes "f_valid u" and "\<not> (f_is_nan u \<or> f_le u f_zero)" and "\<not> f_le f_one u"
  obtains q where "u = Num q" "0 < q" "q < 1" "rep q"
  using assms by (cases u) (auto simp: f_is_nan_def f_le_def split: if_splits)

lemma bucket:
  assumes "rep q" and "0 < q" and "q < 1"
  shows "f_to_usize (f_mul (Num q) (f_of_nat QUANT)) = nat \<lfloor>q * 1024\<rfloor>"
    and "nat \<lfloor>q * 1024\<rfloor> < QUANT"
    and "f_le (f_div (f_of_nat (nat \<lfloor>q * 1024\<rfloor>)) (f_of_nat QUANT)) (Num q)"
    and "f_le (Num q) (f_div (f_of_nat (nat \<lfloor>q * 1024\<rfloor> + 1)) (f_of_nat QUANT))"
proof -
  let ?i = "nat \<lfloor>q * 1024\<rfloor>"
  have fl: "0 \<le> \<lfloor>q * 1024\<rfloor>" "\<lfloor>q * 1024\<rfloor> < 1024" using assms by (simp_all add: floor_less_iff)
  then show i: "?i < QUANT" by (simp add: QUANT_def nat_less_iff)
  have "f_mul (Num q) (Num 1024) = Num (q * 1024)"
    using rep_scale [OF assms] assms(2) by (simp add: round64_rep)
  moreover have "?i \<le> usize_max" using i by (simp add: usize_max_def QUANT_def)
  ultimately show "f_to_usize (f_mul (Num q) (f_of_nat QUANT)) = ?i" by (simp add: f_of_nat_QUANT)
  have of_i: "(of_nat ?i :: rat) = of_int \<lfloor>q * 1024\<rfloor>" using fl by simp
  have "of_int \<lfloor>q * 1024\<rfloor> \<le> q * 1024" by simp
  then have "(of_nat ?i :: rat) / 1024 \<le> q" unfolding of_i by simp
  then show "f_le (f_div (f_of_nat ?i) (f_of_nat QUANT)) (Num q)"
    using i assms(2) by (subst quant_point) (simp_all add: f_le_def)
  have "q * 1024 < of_int \<lfloor>q * 1024\<rfloor> + 1" by (rule floor_correct [THEN conjunct2, unfolded of_int_add of_int_1])
  then have "q \<le> (of_nat ?i + 1) / 1024" unfolding of_i by simp
  then show "f_le (Num q) (f_div (f_of_nat (?i + 1)) (f_of_nat QUANT))"
    using i by (subst quant_point) (simp_all add: f_le_def add.commute)
qed

definition cdf_sorted :: "f64 list \<Rightarrow> bool" where
  "cdf_sorted cdf \<longleftrightarrow> sorted_wrt f_le cdf \<and> NaN \<notin> set cdf"

lemma cdf_sorted_reach: "cdf_sorted cdf \<Longrightarrow> mono_reach cdf x"
proof -
  assume c: "cdf_sorted cdf"
  have "f_le (cdf ! i) (cdf ! j)" if "i \<le> j" "j < length cdf" for i j
  proof (cases "i = j")
    case True
    have "cdf ! j \<noteq> NaN" using c nth_mem [OF that(2)] unfolding cdf_sorted_def by metis
    with True show ?thesis by (simp add: f_le_refl)
  next
    case False
    with c that show ?thesis by (auto simp: cdf_sorted_def sorted_wrt_iff_nth_less)
  qed
  then show ?thesis by (auto simp: mono_reach_def intro: f_le_trans)
qed

lemma sample_bounds:
  assumes ok: "degree_cdf_ok dc" and u: "f_valid u"
  shows "\<exists>d. sample dc u = Some d \<and> d \<le> degree_cdf_k dc \<and> (0 < degree_cdf_k dc \<longrightarrow> 1 \<le> d)"
proof (cases "dc_cdf dc = [] \<or> f_is_nan u \<or> f_le u f_zero \<or> f_le f_one u")
  case True
  then show ?thesis by (auto simp: sample_def degree_cdf_k_def Suc_le_eq)
next
  case False
  then obtain q where q: "u = Num q" "0 < q" "q < 1" "rep q" using u by (auto elim: unit_floatE)
  let ?c = "dc_cdf dc" and ?i = "nat \<lfloor>q * 1024\<rfloor>"
  note b = bucket [OF q(4,2,3)]
  have lb: "lower_bound ?c (f_div (f_of_nat i) (f_of_nat QUANT)) = Some (unat (dc_quant dc ! i))"
    if "i \<le> QUANT" for i using ok False that by (auto simp: degree_cdf_ok_def)
  have lim: "unat (dc_quant dc ! i) < length ?c" if "i \<le> QUANT" for i
    using lower_bound_range [of ?c "f_div (f_of_nat i) (f_of_nat QUANT)"] lb [OF that] False by auto
  let ?lo = "unat (dc_quant dc ! ?i)" and ?hi = "unat (dc_quant dc ! (?i + 1))"
  have l: "?lo < length ?c" "?hi < length ?c" using lim b(2) by simp_all
  have "\<exists>r. search_loop ?c u ?lo ?hi = Some r \<and> r < length ?c"
  proof (cases "?lo \<le> ?hi")
    case True
    with l show ?thesis using search_loop_range [of ?lo ?hi ?c u] by auto
  next
    case False
    then have "search_loop ?c u ?lo ?hi = Some ?lo" by (subst search_loop.simps) simp
    with l show ?thesis by simp
  qed
  moreover have "length (dc_quant dc) = QUANT + 1" using ok by (simp add: degree_cdf_ok_def)
  ultimately show ?thesis
    using False q b(1,2)
    by (auto simp: sample_def degree_cdf_k_def get_at_in Let_def simp del: f_mul.simps)
qed

end
