(* ===== verification/Sampler.thy ===== *)
theory Sampler
  imports Soliton
begin

text \<open>
  The shape of the robust-soliton distribution that \<open>soliton_cdf\<close> computes
  (\<open>src/soliton.rs\<close>) and what it gives the sampler. The partial sums never decrease in binary64
  arithmetic, whatever the library's square root returned; so the normalised distribution is either
  sorted or, when the total overflowed or vanished, has no entry but the last that reaches a
  positive target. In both cases the two-level sampler agrees with the plain binary search.
\<close>

section \<open>Partial sums\<close>

text \<open>\<open>above a b\<close>: \<open>b\<close> is at least \<open>a\<close>, or not a number.\<close>

definition above :: "f64 \<Rightarrow> f64 \<Rightarrow> bool" where
  "above a b \<longleftrightarrow> b = NaN \<or> f_le a b"

definition nn :: "f64 \<Rightarrow> bool" where
  "nn a \<longleftrightarrow> f_valid a \<and> above (Zero False) a"

lemma above_refl [simp]: "above a a"
  by (cases "a = NaN") (auto simp: above_def f_le_refl)

lemma above_trans: "above a b \<Longrightarrow> above b c \<Longrightarrow> above a c"
  by (auto simp: above_def f_le_def)

lemma above_zero: "above (Zero s) a \<longleftrightarrow> (\<forall>q. a = Num q \<longrightarrow> 0 \<le> q) \<and> a \<noteq> Inf True"
  by (cases a) (auto simp: above_def f_le_def)

lemma nn_round: "0 \<le> q \<Longrightarrow> nn (round64 s q)"
proof -
  assume "0 \<le> q"
  then have "f_le (round64 False 0) (round64 s q)" by (rule round64_mono)
  moreover have "round64 False 0 = Zero False" by (simp add: round64_def)
  ultimately show ?thesis by (simp add: nn_def above_def)
qed

lemma nn_cases [consumes 1, case_names nan inf zero num]:
  assumes "nn a"
  obtains "a = NaN" | "a = Inf False" | s where "a = Zero s" | q where "a = Num q" "0 < q" "rep q"
  using assms by (cases a) (auto simp: nn_def above_zero less_le)

lemma nn_of_nat: "nn (f_of_nat n)"
  by (simp add: f_of_nat_def f_of_int_def nn_round)

lemma nn_zero [simp]: "nn (Zero s)"
  by (simp add: nn_def above_zero)

text \<open>A numerator that is not negative over a converted integer is not negative; the sign of a
  zero denominator is the only way down, and a converted integer is never a negative zero.\<close>

lemma f_of_nat_not_neg_zero: "f_of_nat n \<noteq> Zero True"
  by (auto simp: f_of_nat_def f_of_int_def round64_def Let_def)

lemma nn_div: "nn a \<Longrightarrow> nn (f_div a (f_of_nat n))"
proof -
  assume a: "nn a"
  have n: "nn (f_of_nat n)" "f_of_nat n \<noteq> Zero True" using nn_of_nat f_of_nat_not_neg_zero by auto
  have special: "nn NaN" "nn (Inf False)" by (simp_all add: nn_def above_zero)
  from a show ?thesis
    by (cases rule: nn_cases; cases rule: nn_cases [OF n(1)])
      (use n(2) in \<open>auto simp: nn_round special\<close>)
qed

lemma nn_mul: "nn a \<Longrightarrow> nn b \<Longrightarrow> nn (f_mul a b)"
proof -
  assume a: "nn a" and b: "nn b"
  have special: "nn NaN" "nn (Inf False)" by (simp_all add: nn_def above_zero)
  from a show ?thesis
    by (cases rule: nn_cases; cases rule: nn_cases [OF b]) (auto simp: nn_round special)
qed

lemma nn_add: "nn a \<Longrightarrow> nn b \<Longrightarrow> nn (f_add a b)"
proof -
  assume a: "nn a" and b: "nn b"
  have special: "nn NaN" "nn (Inf False)" by (simp_all add: nn_def above_zero)
  from a show ?thesis
    by (cases rule: nn_cases; cases rule: nn_cases [OF b]) (auto simp: nn_round special)
qed

lemma nn_max: "f_valid a \<Longrightarrow> nn b \<Longrightarrow> b \<noteq> NaN \<Longrightarrow> nn (f_max a b)"
  by (cases a) (auto simp: f_max_def nn_def above_def f_lt_def f_le_def split: if_splits)

text \<open>Adding a term that is not negative never goes down.\<close>

lemma add_above: "nn a \<Longrightarrow> nn b \<Longrightarrow> above a (f_add a b)"
proof -
  assume a: "nn a" and b: "nn b"
  have up: "above (Num q) (round64 s (q + p))" if "0 < q" "rep q" "0 \<le> p" for q p s
    using round64_mono [of q "q + p" s s] that by (simp add: above_def round64_rep)
  have "above (Zero s) (round64 t q)" if "0 \<le> q" for s t q
    using nn_round [OF that, of t] by (simp add: nn_def above_zero)
  with a up show ?thesis
    by (cases rule: nn_cases; cases rule: nn_cases [OF b]) (auto simp: above_def f_le_refl f_le_def round64_rep)
qed

lemma term_nn:
  assumes "cdf_term k r spike d = Some (rho, tau)" and "nn r"
  shows "nn (f_add rho tau)"
proof -
  have "nn f_one" using nn_round [of 1 False] by (simp add: f_lit_def)
  then have rho: "nn rho" using assms(1)
    by (auto simp: cdf_term_def Let_def nn_div split: if_splits bind_splits)
  have "nn (f_max l f_zero)" if "f_valid l" for l
    using that by (intro nn_max) simp_all
  moreover have "f_valid l" if "dlog (f_div a b) = Some l" for a b l
    using that dlog_returns [OF f_div_valid, of a b] by auto
  ultimately have "nn tau" using assms
    by (auto simp: cdf_term_def Let_def nn_div nn_mul split: if_splits bind_splits)
  with rho show ?thesis by (rule nn_add)
qed

lemma loop_above:
  assumes "cdf_loop k r spike [a + 1..<n + 1] tot cdf = Some (t, cdf')" "a \<le> n" "length cdf = n"
    "nn tot" "nn r"
  shows "length cdf' = n \<and> take a cdf' = take a cdf \<and> nn t \<and> above tot t \<and>
    (\<forall>i. a \<le> i \<and> i < n \<longrightarrow> nn (cdf' ! i) \<and> above tot (cdf' ! i) \<and> above (cdf' ! i) t) \<and>
    (\<forall>i j. a \<le> i \<and> i \<le> j \<and> j < n \<longrightarrow> above (cdf' ! i) (cdf' ! j))"
  using assms
proof (induction "n - a" arbitrary: a tot cdf)
  case 0
  then show ?case by auto
next
  case (Suc m)
  then have an: "a < n" by simp
  obtain rho tau where t: "cdf_term k r spike (a + 1) = Some (rho, tau)" using cdf_term_total by blast
  let ?t = "f_add tot (f_add rho tau)"
  have inc: "nn (f_add rho tau)" using term_nn [OF t] Suc.prems by simp
  have "[a + 1..<n + 1] = (a + 1) # [(a + 1) + 1..<n + 1]" using an by (simp add: upt_conv_Cons)
  then have run: "cdf_loop k r spike [(a + 1) + 1..<n + 1] ?t (cdf[a := ?t]) = Some (t, cdf')"
    using Suc.prems(1) t an Suc.prems(3) by (simp add: set_at_in Let_def del: upt_Suc)
  have up: "above tot ?t" using add_above Suc.prems(4) inc by simp
  have ih: "length cdf' = n \<and> take (a + 1) cdf' = take (a + 1) (cdf[a := ?t]) \<and> nn t \<and> above ?t t \<and>
    (\<forall>i. a + 1 \<le> i \<and> i < n \<longrightarrow> nn (cdf' ! i) \<and> above ?t (cdf' ! i) \<and> above (cdf' ! i) t) \<and>
    (\<forall>i j. a + 1 \<le> i \<and> i \<le> j \<and> j < n \<longrightarrow> above (cdf' ! i) (cdf' ! j))"
    by (rule Suc.hyps(1)) (use run an Suc.hyps Suc.prems inc in \<open>auto intro: nn_add\<close>)
  then have pre: "take (a + 1) cdf' = take (a + 1) (cdf[a := ?t])" by blast
  then have "take (a + 1) cdf' ! a = take (a + 1) (cdf[a := ?t]) ! a" by simp
  then have at_a: "cdf' ! a = ?t" using an Suc.prems(3) by simp
  have "take a (take (a + 1) cdf') = take a (take (a + 1) (cdf[a := ?t]))" using pre by simp
  then have "take a cdf' = take a cdf" by (simp add: min_def)
  moreover have nt: "nn ?t" using Suc.prems(4) inc by (rule nn_add)
  moreover have entry: "nn (cdf' ! i) \<and> above tot (cdf' ! i) \<and> above (cdf' ! i) t" if "a \<le> i" "i < n" for i
  proof (cases "i = a")
    case True
    then show ?thesis using at_a nt up ih by simp
  next
    case False
    then have "nn (cdf' ! i) \<and> above ?t (cdf' ! i) \<and> above (cdf' ! i) t" using ih that by simp
    then show ?thesis using above_trans [OF up] by blast
  qed
  moreover have "above (cdf' ! i) (cdf' ! j)" if "a \<le> i" "i \<le> j" "j < n" for i j
  proof (cases "i = a")
    case True
    then show ?thesis using at_a ih that by (cases "j = a") simp_all
  next
    case False
    then show ?thesis using ih that by simp
  qed
  moreover have "above tot t" using ih above_trans [OF up] by blast
  ultimately show ?case using ih by blast
qed

section \<open>The normalised distribution\<close>

definition cdf_good :: "f64 list \<Rightarrow> bool" where
  "cdf_good cdf \<longleftrightarrow> cdf_sorted cdf \<or>
     (\<forall>x. f_lt (Zero False) x \<longrightarrow> (\<forall>j < length cdf - 1. \<not> f_le x (cdf ! j)))"

lemma degenerate_total:
  assumes "nn x" and "nn t" and "above x t" and "\<nexists>q. t = Num q"
  shows "f_div x t = NaN \<or> (\<exists>s. f_div x t = Zero s)"
  using assms(1)
  by (cases rule: nn_cases; cases rule: nn_cases [OF assms(2)])
    (use assms(3,4) in \<open>auto simp: above_def f_le_def\<close>)

lemma below_total:
  assumes "nn x" and "above x (Num q)" and "0 < q"
  shows "\<exists>s. f_div x (Num q) = round64 s (f_val x / q)" and "x \<noteq> NaN" and "f_rank x = 0" and "f_val x \<le> q"
  using assms by (cases rule: nn_cases; auto simp: above_def f_le_def)+

lemma normalised_good:
  assumes len: "length raw = k" "1 \<le> k" and t: "nn t"
    and raw: "\<And>i. i < k \<Longrightarrow> nn (raw ! i) \<and> above (raw ! i) t"
    and mono: "\<And>i j. i \<le> j \<Longrightarrow> j < k \<Longrightarrow> above (raw ! i) (raw ! j)"
  shows "cdf_good ((map (\<lambda>x. f_div x t) raw)[k - 1 := Num 1])" (is "cdf_good ?c")
proof (cases "\<exists>q. t = Num q")
  case True
  then obtain q where q: "t = Num q" "0 < q" using t by (auto elim: nn_cases)
  note below = below_total [OF _ _ q(2)]
  have b: "\<exists>s. f_div (raw ! i) t = round64 s (f_val (raw ! i) / q)" "raw ! i \<noteq> NaN"
    "f_rank (raw ! i) = 0" "f_val (raw ! i) \<le> q" if "i < k" for i
    using below [of "raw ! i"] raw [OF that] q(1) by auto
  have one: "round64 s 1 = Num 1" for s using round64_rep [of 1 s] repI [of 1 1 0] by simp
  have step: "f_le (?c ! i) (?c ! j)" if ij: "i < j" "j < k" for i j
  proof -
    have ci: "?c ! i = f_div (raw ! i) t" using ij len by simp
    obtain s where s: "?c ! i = round64 s (f_val (raw ! i) / q)" using b(1) [of i] ij ci by auto
    show ?thesis
    proof (cases "j = k - 1")
      case True
      have "f_val (raw ! i) / q \<le> 1" using b(4) [of i] ij q(2) by simp
      from round64_mono [OF this, of s False] show ?thesis using True len s by (simp add: one)
    next
      case False
      then have cj: "?c ! j = f_div (raw ! j) t" using ij len by simp
      obtain s' where s': "?c ! j = round64 s' (f_val (raw ! j) / q)" using b(1) [of j] ij cj by auto
      have "f_val (raw ! i) \<le> f_val (raw ! j)"
        using mono [of i j] ij b(2,3) [of i] b(2,3) [of j] by (simp add: above_def f_le_def)
      then have "f_val (raw ! i) / q \<le> f_val (raw ! j) / q" using q(2) by (simp add: divide_right_mono)
      from round64_mono [OF this, of s s'] show ?thesis using s s' by simp
    qed
  qed
  have "?c ! i \<noteq> NaN" if "i < k" for i
  proof (cases "i = k - 1")
    case False
    then have "?c ! i = f_div (raw ! i) t" using that len by simp
    with b(1) [OF that] show ?thesis using round64_not_nan by metis
  qed (use that len in simp)
  then have "cdf_sorted ?c" using step len by (auto simp: cdf_sorted_def sorted_wrt_iff_nth_less in_set_conv_nth)
  then show ?thesis by (simp add: cdf_good_def)
next
  case False
  have "\<not> f_le x (?c ! j)" if "f_lt (Zero False) x" "j < k - 1" for x j
  proof -
    have "?c ! j = f_div (raw ! j) t" using that len by simp
    moreover have "f_div (raw ! j) t = NaN \<or> (\<exists>s. f_div (raw ! j) t = Zero s)"
      using raw [of j] that by (intro degenerate_total [OF _ t _ False]) auto
    ultimately show ?thesis using that(1) by (auto simp: f_le_def f_lt_def)
  qed
  then show ?thesis using len by (simp add: cdf_good_def)
qed

lemma soliton_cdf_good:
  assumes "soliton_cdf P k = Some cdf"
  shows "cdf_good cdf"
proof (cases "k \<le> 1")
  case True
  then have "cdf = [] \<or> cdf = [f_one]" using assms by (auto simp: soliton_cdf_def split: if_splits)
  then show ?thesis by (auto simp: cdf_good_def cdf_sorted_def)
next
  case False
  obtain l where l: "dlog (f_div (f_of_nat k) SOLITON_DELTA) = Some l"
    using dlog_returns [OF f_div_valid] by blast
  define r where "r = f_max (f_mul (f_mul SOLITON_C l) (libm_sqrt P (f_of_nat k))) f_one"
  define spike where "spike = f_to_usize (f_min (libm_ceil P (f_div (f_of_nat k) r)) (f_of_nat k))"
  have r: "nn r" unfolding r_def using nn_round [of 1 False] by (intro nn_max) (simp_all add: f_lit_def)
  have "\<forall>d \<in> set [1..<k + 1]. 1 \<le> d \<and> d \<le> length (replicate k f_zero)" by auto
  from cdf_loop_total [OF this, of k r spike f_zero] obtain t raw where
    loop: "cdf_loop k r spike [1..<k + 1] f_zero (replicate k f_zero) = Some (t, raw)" by auto
  note la = loop_above [of k r spike 0 k, unfolded add_0, OF loop _ _ _ r, simplified]
  have "soliton_cdf P k = set_at (map (\<lambda>x. f_div x t) raw) (k - 1) f_one"
    using False l loop by (simp add: soliton_cdf_def Let_def r_def spike_def del: upt_Suc f_lits)
  with assms la False have "cdf = (map (\<lambda>x. f_div x t) raw)[k - 1 := Num 1]" by (simp add: set_at_in)
  moreover have "cdf_good ((map (\<lambda>x. f_div x t) raw)[k - 1 := Num 1])"
    by (rule normalised_good) (use la False in auto)
  ultimately show ?thesis by simp
qed

section \<open>The two samplers agree\<close>

lemma cdf_good_reach: "cdf_good cdf \<Longrightarrow> f_lt (Zero False) x \<Longrightarrow> mono_reach cdf x"
proof -
  assume good: "cdf_good cdf" and x: "f_lt (Zero False) x"
  show ?thesis
  proof (cases "cdf_sorted cdf")
    case True
    then show ?thesis by (rule cdf_sorted_reach)
  next
    case False
    then have none: "\<forall>j < length cdf - 1. \<not> f_le x (cdf ! j)" using good x by (auto simp: cdf_good_def)
    have "i = j" if "i \<le> j" "j < length cdf" "f_le x (cdf ! i)" for i j
    proof (rule ccontr)
      assume "i \<noteq> j"
      then have "i < length cdf - 1" using that by linarith
      with none that(3) show False by simp
    qed
    then show ?thesis by (auto simp: mono_reach_def)
  qed
qed

text \<open>Below the lower bound of a smaller point, no entry reaches a positive target.\<close>

lemma good_below:
  assumes "cdf_good cdf" and "f_lt (Zero False) u" and lb: "lower_bound cdf x = Some r"
    and "f_le x u" and "r \<le> length cdf - 1"
  shows "\<forall>j < r. \<not> f_le u (cdf ! j)"
proof (cases "cdf_sorted cdf")
  case True
  from lower_bound_first [OF cdf_sorted_reach [OF True] lb] assms(4) show ?thesis
    by (auto dest: f_le_trans)
next
  case False
  then have "\<forall>j < length cdf - 1. \<not> f_le u (cdf ! j)" using assms(1,2) by (auto simp: cdf_good_def)
  then show ?thesis using assms(5) by auto
qed

lemma first_unique:
  assumes "\<forall>j < r. \<not> P j" "r < n \<longrightarrow> P r" "\<forall>j < s. \<not> P j" "s < n \<longrightarrow> P s" "r \<le> n" "s \<le> n"
  shows "r = (s :: nat)"
  using assms by (metis le_less_trans linorder_neqE_nat order.strict_trans2)

lemma sample_eq_binary:
  assumes ok: "degree_cdf_ok dc" and good: "cdf_good (dc_cdf dc)" and u: "f_valid u"
  shows "sample dc u = degree_binary (dc_cdf dc) u"
proof (cases "dc_cdf dc = [] \<or> f_is_nan u \<or> f_le u f_zero \<or> f_le f_one u")
  case True
  then show ?thesis by (auto simp: sample_def degree_binary_def)
next
  case False
  then obtain q where q: "u = Num q" "0 < q" "q < 1" "rep q" using u by (auto elim: unit_floatE)
  let ?c = "dc_cdf dc" and ?i = "nat \<lfloor>q * 1024\<rfloor>"
  let ?lo = "unat (dc_quant dc ! ?i)" and ?hi = "unat (dc_quant dc ! (?i + 1))"
  let ?at = "\<lambda>i. f_div (f_of_nat i) (f_of_nat QUANT)" and ?n = "length ?c - 1"
  note b = bucket [OF q(4,2,3)]
  have at_pos: "f_lt (Zero False) (?at (i + 1))" if "i < QUANT" for i
    using that by (subst quant_point) (simp_all add: f_lt_def)
  have upos: "f_lt (Zero False) u" using q by (simp add: f_lt_def)
  have reach: "mono_reach ?c x" if "f_lt (Zero False) x" for x
    using cdf_good_reach [OF good that] .
  have lb: "lower_bound ?c (?at i) = Some (unat (dc_quant dc ! i))"
    if "i \<le> QUANT" for i using ok False that by (auto simp: degree_cdf_ok_def)
  have ne: "?c \<noteq> []" using False by simp
  have lim: "unat (dc_quant dc ! i) \<le> ?n" if "i \<le> QUANT" for i
    using lower_bound_range [OF ne, of "?at i"] lb [OF that] by auto
  have lo: "?lo \<le> ?n" "\<forall>j < ?lo. \<not> f_le u (?c ! j)"
    using good_below [OF good upos lb [of ?i]] lim b(2,3) q(1) by auto
  have hi: "?hi \<le> ?n" "?hi < ?n \<longrightarrow> f_le u (?c ! ?hi)"
    using lower_bound_first [OF reach [OF at_pos [OF b(2)]] lb [of "?i + 1"]] lim b(2,4) q(1) by (auto dest: f_le_trans)
  have le: "?lo \<le> ?hi"
  proof (rule ccontr)
    assume "\<not> ?lo \<le> ?hi"
    with lo hi show False by auto
  qed
  have len: "?hi \<le> length ?c" using hi by simp
  obtain r where r: "search_loop ?c u ?lo ?hi = Some r" "?lo \<le> r" "r \<le> ?hi"
    using search_loop_range [OF le len] by blast
  note first = search_loop_first [OF reach [OF upos] le len r(1)]
  obtain s where s: "lower_bound ?c u = Some s" "s < length ?c" using lower_bound_range [OF ne] by blast
  note sfirst = lower_bound_first [OF reach [OF upos] s(1)]
  have "r = s"
  proof (rule first_unique [of r "\<lambda>j. f_le u (?c ! j)" ?n s])
    show "\<forall>j < r. \<not> f_le u (?c ! j)" using first lo(2) by (meson not_le)
    show "r < ?n \<longrightarrow> f_le u (?c ! r)" using first hi r(3) by (cases "r = ?hi") auto
  qed (use sfirst s hi r(3) in auto)
  moreover have "length (dc_quant dc) = QUANT + 1" using ok by (simp add: degree_cdf_ok_def)
  ultimately show ?thesis
    using False q(1) b(1,2) r(1) s
    by (simp add: sample_def degree_binary_def get_at_in Let_def del: f_mul.simps f_lits)
qed

section \<open>Properties\<close>

text \<open>A platform for concrete instances: a baseline x86-64 CPU, the integer square root and the exact
  ceiling.\<close>

definition isqrt :: "nat \<Rightarrow> nat" where
  "isqrt n = length (filter (\<lambda>m. m * m \<le> n) [1..<n + 1])"

definition plain_platform :: math_platform where
  "plain_platform =
     \<lparr>arch = X86_64, cpu_regs = \<lparr>cpuid1_ecx = 0, xcr0 = 0, cpuid7_ebx = 0\<rparr>, avx2_state = 0,
      libm_sqrt = (\<lambda>x. f_of_nat (isqrt (nat \<lfloor>f_val x\<rfloor>))), libm_ceil = (\<lambda>x. f_of_int \<lceil>f_val x\<rceil>)\<rparr>"

lemma half_valid: "f_valid (Num (1 / 2))"
  using round64_valid [of False "1 / 2"] unfolding f_lits(1) [unfolded f_lit_def] .

text \<open>For every block count on the wire and every binary64 draw, building the sampler and sampling
  never panic, and the sampled degree lies between 1 and the block count.\<close>

theorem sampler_in_range:
  assumes "k < 2 ^ 32" and "f_valid u"
  shows "\<exists>dc d. degree_cdf_new P k = Some dc \<and> degree_cdf_k dc = k \<and> sample dc u = Some d \<and> d \<le> k \<and>
    (0 < k \<longrightarrow> 1 \<le> d)"
proof -
  obtain dc where "degree_cdf_new P k = Some dc" "degree_cdf_ok dc" "degree_cdf_k dc = k"
    using degree_cdf_new_ok [OF assms(1), of P] by blast
  with sample_bounds [OF _ assms(2), of dc] show ?thesis by auto
qed

theorem sampler_in_range_witness:
  "\<exists>dc d. degree_cdf_new plain_platform 1000 = Some dc \<and> degree_cdf_k dc = 1000 \<and>
     sample dc (Num (1 / 2)) = Some d \<and> d \<le> 1000 \<and> (0 < (1000 :: nat) \<longrightarrow> 1 \<le> d)"
  by (rule sampler_in_range [OF _ half_valid]) simp

text \<open>C36: the two-level quantized sampler returns the degree of the plain binary search, for every
  block count, every draw and whatever the platform's square root and ceiling return.\<close>

theorem sampler_matches_binary_search:
  assumes "k < 2 ^ 32" and "f_valid u" and "degree_cdf_new P k = Some dc"
  shows "soliton_cdf P k = Some (dc_cdf dc) \<and> sample dc u = degree_binary (dc_cdf dc) u"
proof -
  have "degree_cdf_ok dc" "soliton_cdf P k = Some (dc_cdf dc)"
    using degree_cdf_new_ok [OF assms(1), of P] assms(3) by auto
  then show ?thesis using sample_eq_binary soliton_cdf_good assms(2) by blast
qed

theorem sampler_matches_binary_search_witness:
  "\<exists>dc. degree_cdf_new plain_platform 2 = Some dc \<and>
     sample dc (Num (1 / 2)) = degree_binary (dc_cdf dc) (Num (1 / 2))"
proof -
  obtain dc where dc: "degree_cdf_new plain_platform 2 = Some dc"
    using degree_cdf_new_ok [of 2 plain_platform] by auto
  with sampler_matches_binary_search [OF _ half_valid dc] show ?thesis by simp
qed

end
