(* ===== verification/Frame.thy ===== *)
theory Frame
  imports Sampler
begin

text \<open>
  The protocol-v3 frame format (\<open>src/frame.rs\<close>): header, stream identity, packing, parsing
  with its integrity check, and the tags.

  The header codec (\<open>rustbinary\<close> with the configuration \<open>CFG\<close>) and \<open>blake3\<close> are
  third-party crates: they are the fields \<open>cfg_serialize\<close>, \<open>cfg_deserialize\<close> and
  \<open>blake3\<close> of the record \<open>wire_platform\<close>. What the code relies on is \<open>codec_ok\<close>:
  a header always serializes, in the 23 bytes of its fixed-width fields, and exactly those bytes
  read back as that header. Nothing is assumed of the hash. The theory gives one codec of that
  kind, the little-endian layout that the module's documentation tabulates, to show that
  \<open>codec_ok\<close> can hold.
\<close>

unbundle bit_operations_syntax

section \<open>Constants and headers\<close>

definition HEADER_LEN :: usize where "HEADER_LEN = 25"
definition MAGIC0 :: u8 where "MAGIC0 = 0xd1"
definition MAGIC1 :: u8 where "MAGIC1 = 0x0f"
definition FLAG_SYSTEMATIC :: u8 where "FLAG_SYSTEMATIC = 1"
definition FLAG_CAUSAL :: u8 where "FLAG_CAUSAL = 2"
definition FLAG_MASK :: u8 where "FLAG_MASK = FLAG_SYSTEMATIC OR FLAG_CAUSAL"
definition MAX_FILE_BYTES :: nat where "MAX_FILE_BYTES = 64 * 1024 * 1024"
definition MAX_STREAM_BYTES :: nat where "MAX_STREAM_BYTES = MAX_FILE_BYTES + 2 * 0xffff + 128"

record frame_header =
  fh_flags :: u8
  fh_session_id :: u16
  fh_seq :: u32
  fh_k :: u16
  fh_block_len :: u16
  fh_total_len :: u32
  fh_stream_tag :: u32
  fh_frame_tag :: u32

record stream_id =
  si_flags :: u8
  si_session_id :: u16
  si_k :: u16
  si_block_len :: u16
  si_total_len :: u32
  si_stream_tag :: u32

record wire_platform = math_platform +
  cfg_serialize :: "frame_header \<Rightarrow> u8 list option"
  cfg_deserialize :: "u8 list \<Rightarrow> frame_header option"
  blake3 :: "u8 list \<Rightarrow> u8 list"

definition codec_ok :: "'m wire_platform_scheme \<Rightarrow> bool" where
  "codec_ok P \<longleftrightarrow>
     (\<forall>h. \<exists>bs. cfg_serialize P h = Some bs \<and> length bs = 23 \<and> cfg_deserialize P bs = Some h) \<and>
     (\<forall>bs h. cfg_deserialize P bs = Some h \<longrightarrow> cfg_serialize P h = Some bs)"

definition stream_identity :: "frame_header \<Rightarrow> stream_id" where
  "stream_identity h =
     \<lparr>si_flags = fh_flags h, si_session_id = fh_session_id h, si_k = fh_k h,
      si_block_len = fh_block_len h, si_total_len = fh_total_len h,
      si_stream_tag = fh_stream_tag h\<rparr>"

section \<open>Tags\<close>

definition first_le32 :: "u8 list \<Rightarrow> u32" where
  "first_le32 b = of_le32 (b ! 0) (b ! 1) (b ! 2) (b ! 3)"

definition checksum32 :: "'m wire_platform_scheme \<Rightarrow> u8 list \<Rightarrow> u32" where
  "checksum32 P bytes = first_le32 (blake3 P bytes)"

text \<open>The hasher absorbs the fields one \<open>update\<close> at a time; its digest is the hash of what it
  absorbed.\<close>

definition hash_update :: "u8 list \<Rightarrow> u8 list \<Rightarrow> u8 list" where
  "hash_update absorbed bytes = absorbed @ bytes"

definition frame_checksum :: "'m wire_platform_scheme \<Rightarrow> frame_header \<Rightarrow> u8 list \<Rightarrow> u32" where
  "frame_checksum P h block =
     (let hasher = [];
          hasher = hash_update hasher [fh_flags h];
          hasher = hash_update hasher (le_bytes16 (fh_session_id h));
          hasher = hash_update hasher (le_bytes32 (fh_seq h));
          hasher = hash_update hasher (le_bytes16 (fh_k h));
          hasher = hash_update hasher (le_bytes16 (fh_block_len h));
          hasher = hash_update hasher (le_bytes32 (fh_total_len h));
          hasher = hash_update hasher (le_bytes32 (fh_stream_tag h));
          hasher = hash_update hasher block
      in first_le32 (blake3 P hasher))"

definition fnv1a :: "u8 list \<Rightarrow> u32" where
  "fnv1a bytes = foldl (\<lambda>h b. (h XOR ucast b) * 0x01000193) 0x811c9dc5 bytes"

section \<open>Packing and parsing\<close>

definition pack_frame :: "'m wire_platform_scheme \<Rightarrow> frame_header \<Rightarrow> u8 list \<Rightarrow> u8 list option" where
  "pack_frame P h block = do {
     hdr \<leftarrow> cfg_serialize P h;
     Some ([MAGIC0, MAGIC1] @ hdr @ block) }"

definition parse_frame :: "'m wire_platform_scheme \<Rightarrow> u8 list \<Rightarrow> (frame_header \<times> u8 list) option" where
  "parse_frame P bytes =
     (if length bytes \<le> HEADER_LEN \<or> bytes ! 0 \<noteq> MAGIC0 \<or> bytes ! 1 \<noteq> MAGIC1 then None
      else case cfg_deserialize P (take (HEADER_LEN - 2) (drop 2 bytes)) of
        None \<Rightarrow> None
      | Some h \<Rightarrow>
          if fh_flags h AND NOT FLAG_MASK \<noteq> 0 \<or> fh_flags h AND FLAG_MASK = FLAG_MASK \<or>
             fh_k h = 0 \<or> fh_block_len h = 0 \<or> fh_total_len h = 0
          then None
          else if length bytes \<noteq> HEADER_LEN + unat (fh_block_len h) then None
          else let block = drop HEADER_LEN bytes
               in if frame_checksum P h block \<noteq> fh_frame_tag h then None
                  else Some (h, block))"

section \<open>A codec with the documented layout\<close>

definition le_header :: "frame_header \<Rightarrow> u8 list option" where
  "le_header h = Some ([fh_flags h] @ le_bytes16 (fh_session_id h) @ le_bytes32 (fh_seq h) @
     le_bytes16 (fh_k h) @ le_bytes16 (fh_block_len h) @ le_bytes32 (fh_total_len h) @
     le_bytes32 (fh_stream_tag h) @ le_bytes32 (fh_frame_tag h))"

fun le_parse :: "u8 list \<Rightarrow> frame_header option" where
  "le_parse [f, s0, s1, q0, q1, q2, q3, k0, k1, b0, b1, t0, t1, t2, t3, g0, g1, g2, g3, c0, c1, c2, c3] =
     Some \<lparr>fh_flags = f, fh_session_id = of_le16 s0 s1, fh_seq = of_le32 q0 q1 q2 q3,
       fh_k = of_le16 k0 k1, fh_block_len = of_le16 b0 b1, fh_total_len = of_le32 t0 t1 t2 t3,
       fh_stream_tag = of_le32 g0 g1 g2 g3, fh_frame_tag = of_le32 c0 c1 c2 c3\<rparr>"
| "le_parse _ = None"

lemma bytes_of_le16: "le_bytes16 (of_le16 a b) = [a, b]"
proof -
  have "ucast (of_le16 a b) = a" by (rule bit_word_eqI) (auto simp: of_le16_def bit_simps)
  moreover have "ucast (drop_bit 8 (of_le16 a b)) = b"
    by (rule bit_word_eqI) (auto simp: of_le16_def bit_simps dest: bit_imp_le_length)
  ultimately show ?thesis by (simp add: le_bytes16_def)
qed

lemma le_parse_header: "le_header h = Some bs \<Longrightarrow> length bs = 23 \<and> le_parse bs = Some h"
  by (auto simp: le_header_def le_bytes16_def le_bytes32_def)

lemma le_header_parse: "le_parse bs = Some h \<Longrightarrow> le_header h = Some bs"
  by (cases bs rule: le_parse.cases) (auto simp: le_header_def bytes_of_le16 bytes_of_le32)

lemma le_codec_ok: "cfg_serialize P = le_header \<Longrightarrow> cfg_deserialize P = le_parse \<Longrightarrow> codec_ok P"
  using le_parse_header le_header_parse by (fastforce simp: codec_ok_def le_header_def)

section \<open>What parsing accepts\<close>

definition header_ok :: "frame_header \<Rightarrow> bool" where
  "header_ok h \<longleftrightarrow> fh_flags h \<in> {0, FLAG_SYSTEMATIC, FLAG_CAUSAL} \<and> fh_k h \<noteq> 0 \<and>
     fh_block_len h \<noteq> 0 \<and> fh_total_len h \<noteq> 0"

lemma low_bits_cases: "f AND 3 \<in> {0, 1, 2, 3 :: u8}"
proof -
  have "f AND 3 \<le> 3" by (rule word_and_le1)
  then have "unat (f AND 3) \<le> unat (3 :: u8)" unfolding word_le_nat_alt .
  then have "unat (f AND 3) = unat (0 :: u8) \<or> unat (f AND 3) = unat (1 :: u8) \<or>
      unat (f AND 3) = unat (2 :: u8) \<or> unat (f AND 3) = unat (3 :: u8)"
    by (simp del: unat_eq_0, linarith)
  then show ?thesis unfolding word_unat_eq_iff insert_iff by blast
qed

lemma split_at: "f = (f AND NOT m) OR (f AND m)" for f m :: u8
  by (rule bit_word_eqI) (auto simp: bit_simps)

lemma flags_ok:
  "\<not> (f AND NOT FLAG_MASK \<noteq> 0 \<or> f AND FLAG_MASK = FLAG_MASK) \<longleftrightarrow>
     f \<in> {0, FLAG_SYSTEMATIC, FLAG_CAUSAL}"
proof -
  have three: "FLAG_MASK = 3" by (simp add: FLAG_MASK_def FLAG_SYSTEMATIC_def FLAG_CAUSAL_def)
  show ?thesis
  proof
    assume "\<not> (f AND NOT FLAG_MASK \<noteq> 0 \<or> f AND FLAG_MASK = FLAG_MASK)"
    then have no: "f AND NOT 3 = 0" "f AND 3 \<noteq> 3" unfolding three by blast+
    with split_at [of f 3] have "f = f AND 3" by (simp only: or.left_neutral)
    with low_bits_cases [of f] no(2) have "f \<in> {0, 1, 2}" by auto
    then show "f \<in> {0, FLAG_SYSTEMATIC, FLAG_CAUSAL}"
      by (simp add: FLAG_SYSTEMATIC_def FLAG_CAUSAL_def)
  next
    assume "f \<in> {0, FLAG_SYSTEMATIC, FLAG_CAUSAL}"
    then show "\<not> (f AND NOT FLAG_MASK \<noteq> 0 \<or> f AND FLAG_MASK = FLAG_MASK)"
      by (auto simp: three FLAG_SYSTEMATIC_def FLAG_CAUSAL_def)
  qed
qed

lemma pack_parse:
  assumes "codec_ok P" and "header_ok h" and "length block = unat (fh_block_len h)"
    and "fh_frame_tag h = frame_checksum P h block"
  shows "\<exists>bytes. pack_frame P h block = Some bytes \<and> length bytes = HEADER_LEN + length block \<and>
    parse_frame P bytes = Some (h, block)"
proof -
  obtain hdr where hdr: "cfg_serialize P h = Some hdr" "length hdr = 23" "cfg_deserialize P hdr = Some h"
    using assms(1) unfolding codec_ok_def by blast
  have "0 < length block" using assms(2,3) by (simp add: header_ok_def unat_gt_0)
  then show ?thesis
    using assms(2-4) hdr flags_ok [of "fh_flags h"]
    by (simp add: pack_frame_def parse_frame_def HEADER_LEN_def header_ok_def Let_def)
qed

lemma parse_pack:
  assumes "codec_ok P" and "parse_frame P bytes = Some (h, block)"
  shows "pack_frame P h block = Some bytes \<and> header_ok h \<and> length block = unat (fh_block_len h) \<and>
    fh_frame_tag h = frame_checksum P h block"
proof -
  have p: "HEADER_LEN < length bytes" "bytes ! 0 = MAGIC0" "bytes ! 1 = MAGIC1"
    "cfg_deserialize P (take (HEADER_LEN - 2) (drop 2 bytes)) = Some h"
    "\<not> (fh_flags h AND NOT FLAG_MASK \<noteq> 0 \<or> fh_flags h AND FLAG_MASK = FLAG_MASK)"
    "fh_k h \<noteq> 0" "fh_block_len h \<noteq> 0" "fh_total_len h \<noteq> 0"
    "length bytes = HEADER_LEN + unat (fh_block_len h)" "block = drop HEADER_LEN bytes"
    "frame_checksum P h block = fh_frame_tag h"
    using assms(2) by (auto simp: parse_frame_def Let_def split: if_splits option.splits)
  have "header_ok h" using p(5-8) flags_ok by (simp add: header_ok_def)
  moreover have "[MAGIC0, MAGIC1] @ take (HEADER_LEN - 2) (drop 2 bytes) @ drop HEADER_LEN bytes = bytes"
  proof -
    have "2 \<le> length bytes" using p(1) by (simp add: HEADER_LEN_def)
    then obtain b0 b1 rest where b: "bytes = b0 # b1 # rest"
      by (metis Suc_le_length_iff numeral_2_eq_2)
    then show ?thesis using p(2,3) by (simp add: HEADER_LEN_def)
  qed
  ultimately show ?thesis
    using assms(1) p by (simp add: codec_ok_def pack_frame_def)
qed

text \<open>A wire platform and a frame for concrete instances. The platform's digest stands for BLAKE3,
  which no theorem inspects.\<close>

definition plain_wire :: wire_platform where
  "plain_wire = math_platform.extend plain_platform
     \<lparr>cfg_serialize = le_header, cfg_deserialize = le_parse, blake3 = (\<lambda>bs. take 32 (bs @ replicate 32 0))\<rparr>"

lemma plain_wire_codec: "codec_ok plain_wire"
  by (rule le_codec_ok) (simp_all add: plain_wire_def math_platform.defs)

definition plain_header :: frame_header where
  "plain_header =
     \<lparr>fh_flags = 2, fh_session_id = 7, fh_seq = 0, fh_k = 1, fh_block_len = 3, fh_total_len = 3,
      fh_stream_tag = 9, fh_frame_tag = 0\<rparr>"

definition plain_frame :: frame_header where
  "plain_frame = plain_header\<lparr>fh_frame_tag := frame_checksum plain_wire plain_header [1, 2, 3]\<rparr>"

lemma frame_checksum_tag [simp]:
  "frame_checksum P (h\<lparr>fh_frame_tag := t\<rparr>) block = frame_checksum P h block"
  by (simp add: frame_checksum_def)

lemma plain_frame_ok:
  "header_ok plain_frame" "length [1, 2, 3 :: u8] = unat (fh_block_len plain_frame)"
  "fh_frame_tag plain_frame = frame_checksum plain_wire plain_frame [1, 2, 3]"
  by (simp_all only: plain_frame_def frame_checksum_tag)
    (simp_all add: plain_header_def header_ok_def FLAG_CAUSAL_def)

text \<open>C34: with a codec that keeps its contract, a byte string parses to a header and block exactly
  when it is that pair packed, the header's flags and sizes are admissible, the block has the
  announced length and the frame tag is the checksum of header and block.\<close>

theorem parse_frame_iff_packed:
  assumes "codec_ok P"
  shows "parse_frame P bytes = Some (h, block) \<longleftrightarrow>
    pack_frame P h block = Some bytes \<and> header_ok h \<and> length block = unat (fh_block_len h) \<and>
    fh_frame_tag h = frame_checksum P h block"
  using pack_parse [OF assms, of h block] parse_pack [OF assms, of bytes h block] by auto

theorem parse_frame_iff_packed_witness:
  "parse_frame plain_wire (the (pack_frame plain_wire plain_frame [1, 2, 3])) = Some (plain_frame, [1, 2, 3])"
  unfolding parse_frame_iff_packed [OF plain_wire_codec]
  using plain_frame_ok by (simp add: pack_frame_def plain_wire_def math_platform.defs le_header_def)

text \<open>A genuine frame packs to its header and block and reads back unchanged.\<close>

theorem frame_roundtrip:
  assumes "codec_ok P" and "header_ok h" and "length block = unat (fh_block_len h)"
    and "fh_frame_tag h = frame_checksum P h block"
  shows "\<exists>bytes. pack_frame P h block = Some bytes \<and> length bytes = HEADER_LEN + length block \<and>
    parse_frame P bytes = Some (h, block)"
  using assms by (rule pack_parse)

theorem frame_roundtrip_witness:
  "\<exists>bytes. pack_frame plain_wire plain_frame [1, 2, 3] = Some bytes \<and> length bytes = 28 \<and>
     parse_frame plain_wire bytes = Some (plain_frame, [1, 2, 3])"
  using frame_roundtrip [OF plain_wire_codec plain_frame_ok] by (simp add: HEADER_LEN_def)

end
