(* ===== verification/Crypto.thy ===== *)
theory Crypto
  imports Errors Frame
begin

text \<open>
  The authenticated-encryption primitives (\<open>src/crypto.rs\<close>): keys, key derivation, nonces,
  sealing and opening. XChaCha20-Poly1305 and Argon2id are third-party crates, fields of
  \<open>crypto_platform\<close>; bytes drawn from the operating system are an argument, \<open>None\<close> when the
  draw fails. \<open>aead_ok\<close> is what the callers rely on: a sealed message is 16 bytes longer and opens
  to itself under the same key, nonce and associated data.

  Not modelled: that key bytes are overwritten in memory when a key is dropped.
\<close>

record crypto_platform = wire_platform +
  feature_std :: bool
  feature_encryption :: bool
  aead_encrypt :: "u8 list \<Rightarrow> u8 list \<Rightarrow> u8 list \<Rightarrow> u8 list \<Rightarrow> u8 list option"
  aead_decrypt :: "u8 list \<Rightarrow> u8 list \<Rightarrow> u8 list \<Rightarrow> u8 list \<Rightarrow> u8 list option"
  argon2_params :: "nat \<Rightarrow> nat \<Rightarrow> nat \<Rightarrow> nat \<Rightarrow> bool"
  argon2id :: "nat \<Rightarrow> nat \<Rightarrow> nat \<Rightarrow> nat \<Rightarrow> u8 list \<Rightarrow> u8 list \<Rightarrow> u8 list option"

definition NONCE_LEN :: usize where "NONCE_LEN = 24"
definition TAG_LEN :: usize where "TAG_LEN = 16"

datatype encryption_key = EncryptionKey "u8 list"

definition key_new :: "u8 list \<Rightarrow> encryption_key" where
  "key_new bytes = EncryptionKey bytes"

fun key_bytes :: "encryption_key \<Rightarrow> u8 list" where
  "key_bytes (EncryptionKey bytes) = bytes"

definition key_from_password ::
  "'m crypto_platform_scheme \<Rightarrow> u8 list \<Rightarrow> u8 list \<Rightarrow> encryption_key result" where
  "key_from_password P password salt =
     (let memory_kib = 19 * 1024; iterations = 2
      in if \<not> argon2_params P memory_kib iterations 1 32 then Inl error.Crypto
         else case argon2id P memory_kib iterations 1 32 password salt of
           None \<Rightarrow> Inl error.Crypto
         | Some key \<Rightarrow> Inr (EncryptionKey key))"

definition key_clone :: "encryption_key \<Rightarrow> encryption_key" where
  "key_clone key = EncryptionKey (key_bytes key)"

definition key_debug :: "encryption_key \<Rightarrow> string" where
  "key_debug key = ''EncryptionKey([redacted])''"

definition random_nonce :: "u8 list option \<Rightarrow> u8 list result" where
  "random_nonce drawn = (case drawn of None \<Rightarrow> Inl error.Crypto | Some n \<Rightarrow> Inr n)"

definition encrypt ::
  "'m crypto_platform_scheme \<Rightarrow> u8 list \<Rightarrow> u8 list \<Rightarrow> u8 list \<Rightarrow> u8 list \<Rightarrow> u8 list result" where
  "encrypt P key nonce plaintext aad =
     (case aead_encrypt P key nonce plaintext aad of None \<Rightarrow> Inl error.Crypto | Some ct \<Rightarrow> Inr ct)"

definition decrypt ::
  "'m crypto_platform_scheme \<Rightarrow> u8 list \<Rightarrow> u8 list \<Rightarrow> u8 list \<Rightarrow> u8 list \<Rightarrow> u8 list result" where
  "decrypt P key nonce ciphertext aad =
     (case aead_decrypt P key nonce ciphertext aad of None \<Rightarrow> Inl error.Crypto | Some m \<Rightarrow> Inr m)"

definition aead_ok :: "'m crypto_platform_scheme \<Rightarrow> bool" where
  "aead_ok P \<longleftrightarrow> (\<forall>key nonce m aad ct. aead_encrypt P key nonce m aad = Some ct \<longrightarrow>
     length ct = length m + TAG_LEN \<and> aead_decrypt P key nonce ct aad = Some m)"

lemma encrypt_decrypt:
  assumes "aead_ok P" and "encrypt P key nonce m aad = Inr ct"
  shows "decrypt P key nonce ct aad = Inr m" and "length ct = length m + TAG_LEN"
proof -
  have "aead_encrypt P key nonce m aad = Some ct" using assms(2) by (simp add: encrypt_def split: option.splits)
  then have "length ct = length m + TAG_LEN \<and> aead_decrypt P key nonce ct aad = Some m"
    using assms(1) unfolding aead_ok_def by blast
  then show "decrypt P key nonce ct aad = Inr m" "length ct = length m + TAG_LEN" by (simp_all add: decrypt_def)
qed

end
