(* ===== verification/Container.thy ===== *)
theory Container
  imports Names Crypto
begin

text \<open>
  The DCF3 file container (\<open>src/container.rs\<close>): packing a file, plain or encrypted, and
  unpacking it with every check. The header codec (\<open>rustbinary\<close>) and gzip (\<open>flate2\<close>) are
  third-party crates, fields of \<open>container_platform\<close>: \<open>gz_read P c i\<close> is what the \<open>i\<close>-th
  call of \<open>read\<close> returns on a decoder over \<open>c\<close>, an empty list at the end of the stream. The
  crate's features \<open>std\<close> and \<open>encryption\<close> are fields too, so the model covers every build.

  The model of an operation that slices returns an \<open>option\<close>, whose \<open>None\<close> is a panic; the
  error that a call reports is the left side of its \<open>result\<close>.
\<close>

section \<open>Types and constants\<close>

definition FILE_HEADER_LEN :: usize where "FILE_HEADER_LEN = 73"
definition FILE_MAGIC :: "u8 list" where "FILE_MAGIC = [0x44, 0x43, 0x46, 0x33]"
definition FLAG_GZIP :: u8 where "FLAG_GZIP = 1"
definition FLAG_CRYPT :: u8 where "FLAG_CRYPT = 2"
definition GZIP_MIN :: usize where "GZIP_MIN = 768"
definition GZIP_ROOM :: usize where "GZIP_ROOM = 64"
definition GZIP_MIN_LEN :: usize where "GZIP_MIN_LEN = 18"

datatype compression = Plain | Gzip

record packed_optical_file =
  po_container :: "u8 list"
  po_compression :: compression
  po_encrypted :: bool
  po_original_size :: usize
  po_transmitted_size :: usize

record optical_file =
  of_name :: str
  of_mime_type :: str
  of_bytes :: "u8 list"
  of_digest :: "u8 list"
  of_compression :: compression
  of_encrypted :: bool
  of_transmitted_size :: usize

record dcf_header =
  dh_magic :: "u8 list"
  dh_flags :: u8
  dh_name_len :: u16
  dh_type_len :: u16
  dh_file_len :: u32
  dh_xmit_len :: u32
  dh_digest :: "u8 list"
  dh_nonce :: "u8 list"

record container_platform = crypto_platform +
  dcf_serialize :: "dcf_header \<Rightarrow> string + u8 list"
  dcf_deserialize :: "u8 list \<Rightarrow> string + dcf_header"
  gz_write_all :: "u8 list \<Rightarrow> string + u8 list"
  gz_finish :: "u8 list \<Rightarrow> string + u8 list"
  gz_read :: "u8 list \<Rightarrow> nat \<Rightarrow> string + u8 list"

section \<open>Compression\<close>

definition gzip :: "'m container_platform_scheme \<Rightarrow> u8 list \<Rightarrow> u8 list result" where
  "gzip P bytes =
     (case gz_write_all P bytes of
        Inl e \<Rightarrow> Inl (Inflate (''compress: '' @ e))
      | Inr encoder \<Rightarrow> (case gz_finish P encoder of
          Inl e \<Rightarrow> Inl (Inflate (''compress: '' @ e))
        | Inr c \<Rightarrow> Inr c))"

function gunzip_loop ::
  "'m container_platform_scheme \<Rightarrow> u8 list \<Rightarrow> usize \<Rightarrow> nat \<Rightarrow> u8 list \<Rightarrow> u8 list result" where
  "gunzip_loop P bytes max_bytes i out =
     (case gz_read P bytes i of
        Inl e \<Rightarrow> Inl (Inflate e)
      | Inr chunk \<Rightarrow>
          if chunk = [] then Inr out
          else if length out + length chunk > max_bytes then Inl (Inflate ''expands past declared length'')
          else gunzip_loop P bytes max_bytes (Suc i) (out @ chunk))"
  by pat_completeness auto
termination
proof (relation "measure (\<lambda>(_, _, max_bytes, _, out). max_bytes - length out)")
  show "wf (measure (\<lambda>(_, _, max_bytes, _, out). max_bytes - length out))" by simp
next
  fix P :: "'m container_platform_scheme" and bytes :: "u8 list" and max_bytes i :: nat and out chunk :: "u8 list"
  assume "chunk \<noteq> []" and "\<not> max_bytes < length out + length chunk"
  moreover from this have "0 < length chunk" by simp
  ultimately show "((P, bytes, max_bytes, Suc i, out @ chunk), (P, bytes, max_bytes, i, out))
      \<in> measure (\<lambda>(_, _, max_bytes, _, out). max_bytes - length out)"
    by (simp, linarith)
qed

declare gunzip_loop.simps [simp del]

definition gunzip :: "'m container_platform_scheme \<Rightarrow> u8 list \<Rightarrow> usize \<Rightarrow> u8 list result" where
  "gunzip P bytes max_bytes = gunzip_loop P bytes max_bytes 0 []"

section \<open>Packing\<close>

definition prepare :: "'m container_platform_scheme \<Rightarrow> str \<Rightarrow> str \<Rightarrow> u8 list \<Rightarrow>
    (u8 list \<times> u8 list \<times> u8 list \<times> compression \<times> u8 list) result" where
  "prepare P name mime_type bytes =
     (if bytes = [] then Inl Empty
      else if length bytes > MAX_FILE_BYTES then Inl (TooLarge (length bytes) MAX_FILE_BYTES)
      else let name_bytes = utf8_bytes (safe_file_name name)
        in case normalize_mime_type mime_type of
          Inl e \<Rightarrow> Inl e
        | Inr mime \<Rightarrow>
            let type_bytes = utf8_bytes mime
            in if length name_bytes > 0xffff \<or> length type_bytes > 0xffff then Inl Meta
               else let digest = blake3 P bytes
                 in case (if feature_std P \<and> GZIP_MIN \<le> length bytes \<and> \<not> is_precompressed_type mime_type
                          then case gzip P bytes of
                              Inl e \<Rightarrow> Inl e
                            | Inr c \<Rightarrow> Inr (if length c + GZIP_ROOM < length bytes then Some c else None)
                          else Inr None) of
                     Inl e \<Rightarrow> Inl e
                   | Inr compressed \<Rightarrow>
                       let compression = (if compressed \<noteq> None then Gzip else Plain);
                           plain = (case compressed of Some c \<Rightarrow> c | None \<Rightarrow> bytes)
                       in Inr (name_bytes, type_bytes, plain, compression, digest))"

definition assemble_container :: "'m container_platform_scheme \<Rightarrow> u8 \<Rightarrow> u8 list \<Rightarrow> u8 list \<Rightarrow> u8 list \<Rightarrow> usize \<Rightarrow>
    u8 list \<Rightarrow> u8 list \<Rightarrow> u8 list result" where
  "assemble_container P flags name_bytes type_bytes transmitted file_len digest nonce =
     (let header = \<lparr>dh_magic = FILE_MAGIC, dh_flags = flags, dh_name_len = word_of_nat (length name_bytes),
        dh_type_len = word_of_nat (length type_bytes), dh_file_len = word_of_nat file_len,
        dh_xmit_len = word_of_nat (length transmitted), dh_digest = digest, dh_nonce = nonce\<rparr>
      in case dcf_serialize P header of
           Inl e \<Rightarrow> Inl (Codec e)
         | Inr container \<Rightarrow> Inr (container @ name_bytes @ type_bytes @ transmitted))"

definition aad :: "u8 \<Rightarrow> u8 list \<Rightarrow> u8 list \<Rightarrow> usize \<Rightarrow> usize \<Rightarrow> u8 list \<Rightarrow> u8 list" where
  "aad flags name_bytes type_bytes file_len xmit_len digest =
     [flags] @ le_bytes16 (word_of_nat (length name_bytes)) @ le_bytes16 (word_of_nat (length type_bytes)) @
     le_bytes32 (word_of_nat file_len) @ le_bytes32 (word_of_nat xmit_len) @ digest @ name_bytes @ type_bytes"

definition pack_file :: "'m container_platform_scheme \<Rightarrow> str \<Rightarrow> str \<Rightarrow> u8 list \<Rightarrow> packed_optical_file result" where
  "pack_file P name mime_type bytes =
     (case prepare P name mime_type bytes of
        Inl e \<Rightarrow> Inl e
      | Inr (name_bytes, type_bytes, plain, compression, digest) \<Rightarrow>
          let flags = (if compression = Gzip then FLAG_GZIP else 0)
          in case assemble_container P flags name_bytes type_bytes plain (length bytes) digest
                   (replicate NONCE_LEN 0) of
               Inl e \<Rightarrow> Inl e
             | Inr container \<Rightarrow> Inr \<lparr>po_container = container, po_compression = compression, po_encrypted = False,
                 po_original_size = length bytes, po_transmitted_size = length plain\<rparr>)"

definition pack_file_encrypted :: "'m container_platform_scheme \<Rightarrow> str \<Rightarrow> str \<Rightarrow> u8 list \<Rightarrow> encryption_key \<Rightarrow>
    u8 list \<Rightarrow> packed_optical_file result" where
  "pack_file_encrypted P name mime_type bytes key nonce =
     (case prepare P name mime_type bytes of
        Inl e \<Rightarrow> Inl e
      | Inr (name_bytes, type_bytes, plain, compression, digest) \<Rightarrow>
          let flags = (if compression = Gzip then FLAG_GZIP else 0) OR FLAG_CRYPT;
              ad = aad flags name_bytes type_bytes (length bytes) (length plain + TAG_LEN) digest
          in case encrypt P (key_bytes key) nonce plain ad of
               Inl e \<Rightarrow> Inl e
             | Inr ciphertext \<Rightarrow>
                 (case assemble_container P flags name_bytes type_bytes ciphertext (length bytes) digest nonce of
                    Inl e \<Rightarrow> Inl e
                  | Inr container \<Rightarrow> Inr \<lparr>po_container = container, po_compression = compression,
                      po_encrypted = True, po_original_size = length bytes,
                      po_transmitted_size = length ciphertext\<rparr>))"

definition pack_file_encrypted_with_password :: "'m container_platform_scheme \<Rightarrow> str \<Rightarrow> str \<Rightarrow> u8 list \<Rightarrow> u8 list \<Rightarrow>
    u8 list \<Rightarrow> packed_optical_file result" where
  "pack_file_encrypted_with_password P name mime_type bytes password nonce =
     (case key_from_password P password nonce of
        Inl e \<Rightarrow> Inl e
      | Inr key \<Rightarrow> pack_file_encrypted P name mime_type bytes key nonce)"

section \<open>Unpacking\<close>

definition read_header :: "'m container_platform_scheme \<Rightarrow> u8 list \<Rightarrow> dcf_header result" where
  "read_header P container =
     (if length container < FILE_HEADER_LEN then Inl Truncated
      else case dcf_deserialize P (take FILE_HEADER_LEN container) of
        Inl e \<Rightarrow> Inl (Codec e)
      | Inr header \<Rightarrow>
          if dh_magic header \<noteq> FILE_MAGIC \<or> dh_flags header AND NOT (FLAG_GZIP OR FLAG_CRYPT) \<noteq> 0
          then Inl BadMagic else Inr header)"

definition validate_layout :: "dcf_header \<Rightarrow> usize \<Rightarrow> unit result" where
  "validate_layout header container_len =
     (let encrypted = (dh_flags header AND FLAG_CRYPT \<noteq> 0);
          data_offset = FILE_HEADER_LEN + unat (dh_name_len header) + unat (dh_type_len header);
          max_xmit_len = MAX_FILE_BYTES + (if encrypted then TAG_LEN else 0)
      in if dh_file_len header = 0 \<or> unat (dh_file_len header) > MAX_FILE_BYTES \<or> dh_xmit_len header = 0 \<or>
            unat (dh_xmit_len header) > max_xmit_len \<or> data_offset + unat (dh_xmit_len header) \<noteq> container_len
         then Inl Lengths else Inr ())"

definition expand :: "'m container_platform_scheme \<Rightarrow> u8 list \<Rightarrow> u32 \<Rightarrow> u8 list result option" where
  "expand P plain file_len =
     (if \<not> feature_std P then Some (Inl NoCompression)
      else if length plain < GZIP_MIN_LEN then Some (Inl GzipIncomplete)
      else do {
        t \<leftarrow> slice plain (length plain - 4) (length plain);
        t0 \<leftarrow> get_at t 0;
        t1 \<leftarrow> get_at t 1;
        t2 \<leftarrow> get_at t 2;
        t3 \<leftarrow> get_at t 3;
        Some (if of_le32 t0 t1 t2 t3 \<noteq> file_len then Inl GzipSize
              else case gunzip P plain (unat file_len) of
                Inl e \<Rightarrow> Inl e
              | Inr out \<Rightarrow> if length out \<noteq> unat file_len then Inl (Inflate ''recovered length mismatch'')
                  else Inr out) })"

definition checked_file :: "'m container_platform_scheme \<Rightarrow> dcf_header \<Rightarrow> u8 list \<Rightarrow> u8 list \<Rightarrow> u8 list \<Rightarrow>
    optical_file result" where
  "checked_file P h name_bytes type_bytes bytes =
     (if length bytes \<noteq> unat (dh_file_len h) then Inl Lengths
      else if blake3 P bytes \<noteq> dh_digest h then Inl error.Crypto
      else case from_utf8 type_bytes of
        None \<Rightarrow> Inl Meta
      | Some mime \<Rightarrow> (case normalize_mime_type mime of
          Inl e \<Rightarrow> Inl e
        | Inr mime_type \<Rightarrow> Inr
            \<lparr>of_name = safe_file_name (from_utf8_lossy name_bytes), of_mime_type = mime_type, of_bytes = bytes,
             of_digest = dh_digest h,
             of_compression = (if dh_flags h AND FLAG_GZIP \<noteq> 0 then Gzip else Plain),
             of_encrypted = (dh_flags h AND FLAG_CRYPT \<noteq> 0), of_transmitted_size = unat (dh_xmit_len h)\<rparr>))"

definition unpack_impl :: "'m container_platform_scheme \<Rightarrow> u8 list \<Rightarrow> u8 list option \<Rightarrow> optical_file result option" where
  "unpack_impl P container key =
     (case read_header P container of
        Inl e \<Rightarrow> Some (Inl e)
      | Inr h \<Rightarrow>
          let compressed = (dh_flags h AND FLAG_GZIP \<noteq> 0);
              encrypted = (dh_flags h AND FLAG_CRYPT \<noteq> 0)
          in case validate_layout h (length container) of
               Inl e \<Rightarrow> Some (Inl e)
             | Inr _ \<Rightarrow> do {
                 let data_offset = FILE_HEADER_LEN + unat (dh_name_len h) + unat (dh_type_len h);
                 name_bytes \<leftarrow> slice container FILE_HEADER_LEN (FILE_HEADER_LEN + unat (dh_name_len h));
                 type_bytes \<leftarrow> slice container (FILE_HEADER_LEN + unat (dh_name_len h)) data_offset;
                 transmitted \<leftarrow> slice container data_offset (length container);
                 if encrypted \<and> \<not> feature_encryption P then Some (Inl NoEncryption)
                 else case (if encrypted
                            then case key of
                                None \<Rightarrow> Inl NoEncryption
                              | Some key \<Rightarrow> decrypt P key (dh_nonce h) transmitted
                                  (aad (dh_flags h) name_bytes type_bytes (unat (dh_file_len h))
                                    (unat (dh_xmit_len h)) (dh_digest h))
                            else Inr transmitted) of
                       Inl e \<Rightarrow> Some (Inl e)
                     | Inr plain \<Rightarrow> do {
                         expanded \<leftarrow> (if compressed then expand P plain (dh_file_len h) else Some (Inr plain));
                         Some (case expanded of
                             Inl e \<Rightarrow> Inl e
                           | Inr bytes \<Rightarrow> checked_file P h name_bytes type_bytes bytes) } })"

definition unpack_file :: "'m container_platform_scheme \<Rightarrow> u8 list \<Rightarrow> optical_file result option" where
  "unpack_file P container = unpack_impl P container None"

definition unpack_file_with_key ::
  "'m container_platform_scheme \<Rightarrow> u8 list \<Rightarrow> encryption_key \<Rightarrow> optical_file result option" where
  "unpack_file_with_key P container key = unpack_impl P container (Some (key_bytes key))"

definition unpack_file_with_password ::
  "'m container_platform_scheme \<Rightarrow> u8 list \<Rightarrow> u8 list \<Rightarrow> optical_file result option" where
  "unpack_file_with_password P container password =
     (case read_header P container of
        Inl e \<Rightarrow> Some (Inl e)
      | Inr header \<Rightarrow>
          if dh_flags header AND FLAG_CRYPT = 0 then Some (Inl NoEncryption)
          else case validate_layout header (length container) of
            Inl e \<Rightarrow> Some (Inl e)
          | Inr _ \<Rightarrow> (case key_from_password P password (dh_nonce header) of
              Inl e \<Rightarrow> Some (Inl e)
            | Inr key \<Rightarrow> unpack_impl P container (Some (key_bytes key))))"

definition verify_file :: "'m container_platform_scheme \<Rightarrow> optical_file \<Rightarrow> bool" where
  "verify_file P file \<longleftrightarrow> blake3 P (of_bytes file) = of_digest file"

section \<open>Contracts of the crates\<close>

definition header_sized :: "dcf_header \<Rightarrow> bool" where
  "header_sized h \<longleftrightarrow> length (dh_magic h) = 4 \<and> length (dh_digest h) = 32 \<and> length (dh_nonce h) = NONCE_LEN"

definition dcf_codec_ok :: "'m container_platform_scheme \<Rightarrow> bool" where
  "dcf_codec_ok P \<longleftrightarrow> (\<forall>h. header_sized h \<longrightarrow>
     (\<exists>bs. dcf_serialize P h = Inr bs \<and> length bs = FILE_HEADER_LEN \<and> dcf_deserialize P bs = Inr h))"

definition digest_ok :: "'m wire_platform_scheme \<Rightarrow> bool" where
  "digest_ok P \<longleftrightarrow> (\<forall>bs. length (blake3 P bs) = 32)"

text \<open>A gzip stream is at least 18 bytes long and ends in the length of what it holds; reading it
  yields its contents piece by piece and then the end of the stream.\<close>

definition gz_yields :: "'m container_platform_scheme \<Rightarrow> u8 list \<Rightarrow> u8 list \<Rightarrow> bool" where
  "gz_yields P c bytes \<longleftrightarrow> (\<exists>chunks. concat chunks = bytes \<and> gz_read P c (length chunks) = Inr [] \<and>
     (\<forall>i < length chunks. chunks ! i \<noteq> [] \<and> gz_read P c i = Inr (chunks ! i)))"

definition gzip_ok :: "'m container_platform_scheme \<Rightarrow> bool" where
  "gzip_ok P \<longleftrightarrow> (\<forall>bytes c. gzip P bytes = Inr c \<longrightarrow> GZIP_MIN_LEN \<le> length c \<and>
     drop (length c - 4) c = le_bytes32 (word_of_nat (length bytes)) \<and> gz_yields P c bytes)"

section \<open>Decompression\<close>

lemma gunzip_loop_run:
  assumes "gz_read P c (length chunks) = Inr []"
    and "\<forall>i < length chunks. chunks ! i \<noteq> [] \<and> gz_read P c i = Inr (chunks ! i)"
    and "length (concat chunks) \<le> max_bytes" and "i \<le> length chunks"
  shows "gunzip_loop P c max_bytes i (concat (take i chunks)) = Inr (concat chunks)"
  using assms(4)
proof (induction "length chunks - i" arbitrary: i)
  case 0
  then show ?case using assms(1) by (subst gunzip_loop.simps) simp
next
  case (Suc n)
  then have i: "i < length chunks" by simp
  have c: "chunks ! i \<noteq> []" "gz_read P c i = Inr (chunks ! i)" using assms(2) i by blast+
  have next_take: "concat (take (Suc i) chunks) = concat (take i chunks) @ chunks ! i"
    using i by (simp add: take_Suc_conv_app_nth)
  have "concat chunks = concat (take (Suc i) chunks) @ concat (drop (Suc i) chunks)"
    by (metis append_take_drop_id concat_append)
  then have "length (concat (take i chunks)) + length (chunks ! i) \<le> max_bytes"
    using assms(3) by (simp add: next_take)
  then have "gunzip_loop P c max_bytes i (concat (take i chunks)) =
      gunzip_loop P c max_bytes (Suc i) (concat (take (Suc i) chunks))"
    using c by (subst gunzip_loop.simps) (simp add: next_take)
  also have "\<dots> = Inr (concat chunks)" by (rule Suc.hyps(1)) (use Suc.hyps(2) i in simp_all)
  finally show ?case .
qed

lemma gunzip_bounded:
  "gunzip_loop P c max_bytes i out = Inr res \<Longrightarrow> length out \<le> max_bytes \<Longrightarrow> length res \<le> max_bytes"
proof (induction P c max_bytes i out rule: gunzip_loop.induct)
  case (1 P c max_bytes i out)
  show ?case
  proof (cases "gz_read P c i")
    case (Inr chunk)
    then show ?thesis using 1 by (auto simp: gunzip_loop.simps [of P c max_bytes i out] split: if_splits)
  qed (use 1 in \<open>simp add: gunzip_loop.simps\<close>)
qed

lemma gunzip_gzip:
  assumes "gzip_ok P" and "gzip P bytes = Inr c"
  shows "gunzip P c (length bytes) = Inr bytes"
proof -
  obtain chunks where "concat chunks = bytes" "gz_read P c (length chunks) = Inr []"
    "\<forall>i < length chunks. chunks ! i \<noteq> [] \<and> gz_read P c i = Inr (chunks ! i)"
    using assms unfolding gzip_ok_def gz_yields_def by blast
  from gunzip_loop_run [OF this(2,3), of "length bytes" 0] this(1) show ?thesis by (simp add: gunzip_def)
qed

lemma max_file_small: "n \<le> MAX_FILE_BYTES \<Longrightarrow> n < 2 ^ 32"
  by (simp add: MAX_FILE_BYTES_def)

lemma expand_gzip:
  assumes "gzip_ok P" and "feature_std P" and "gzip P bytes = Inr c" and "length bytes \<le> MAX_FILE_BYTES"
  shows "expand P c (word_of_nat (length bytes)) = Some (Inr bytes)"
proof -
  let ?n = "word_of_nat (length bytes) :: u32"
  have g: "GZIP_MIN_LEN \<le> length c" "drop (length c - 4) c = le_bytes32 ?n"
    using assms(1,3) unfolding gzip_ok_def by blast+
  have n: "unat ?n = length bytes" using max_file_small [OF assms(4)] by (simp add: unat_of_nat)
  have "slice c (length c - 4) (length c) = Some (le_bytes32 ?n)"
    using g by (simp add: slice_def GZIP_MIN_LEN_def)
  moreover have "le_bytes32 ?n \<noteq> []" by (simp add: le_bytes32_def)
  ultimately show ?thesis
    using g(1) assms(2) gunzip_gzip [OF assms(1,3)] n of_le32_nth [of ?n]
    by (simp add: expand_def get_at_def)
qed

section \<open>What packing prepares\<close>

lemma prepare_ok:
  assumes "prepare P name mime_type bytes = Inr (name_bytes, type_bytes, plain, compression, digest)"
  shows "bytes \<noteq> []" and "length bytes \<le> MAX_FILE_BYTES" and "name_bytes = utf8_bytes (safe_file_name name)"
    and "\<exists>mime. normalize_mime_type mime_type = Inr mime \<and> type_bytes = utf8_bytes mime"
    and "length name_bytes \<le> 0xffff" and "length type_bytes \<le> 0xffff" and "digest = blake3 P bytes"
    and "compression = Gzip \<and> feature_std P \<and> gzip P bytes = Inr plain \<and> length plain + GZIP_ROOM < length bytes \<or>
      compression = Plain \<and> plain = bytes"
proof -
  note u = assms [unfolded prepare_def Let_def]
  show a: "bytes \<noteq> []" "length bytes \<le> MAX_FILE_BYTES" using u by (auto split: if_splits)
  obtain mime where m: "normalize_mime_type mime_type = Inr mime" using u a by (auto split: sum.splits)
  have len: "length (utf8_bytes (safe_file_name name)) \<le> 0xffff \<and> length (utf8_bytes mime) \<le> 0xffff"
    using u a m by (simp split: if_splits)
  obtain compressed where c: "(if feature_std P \<and> GZIP_MIN \<le> length bytes \<and> \<not> is_precompressed_type mime_type
      then case gzip P bytes of Inl e \<Rightarrow> Inl e
        | Inr c \<Rightarrow> Inr (if length c + GZIP_ROOM < length bytes then Some c else None)
      else Inr None) = Inr compressed"
    using u a m len by (auto split: sum.splits)
  have parts: "name_bytes = utf8_bytes (safe_file_name name)" "type_bytes = utf8_bytes mime" "digest = blake3 P bytes"
    "compression = (if compressed \<noteq> None then Gzip else Plain)"
    "plain = (case compressed of Some c \<Rightarrow> c | None \<Rightarrow> bytes)"
    using u a m len unfolding c by simp_all
  show "name_bytes = utf8_bytes (safe_file_name name)" "digest = blake3 P bytes" using parts by simp_all
  show "\<exists>mime. normalize_mime_type mime_type = Inr mime \<and> type_bytes = utf8_bytes mime" using m parts by blast
  show "length name_bytes \<le> 0xffff" "length type_bytes \<le> 0xffff" using len parts by simp_all
  show "compression = Gzip \<and> feature_std P \<and> gzip P bytes = Inr plain \<and> length plain + GZIP_ROOM < length bytes \<or>
      compression = Plain \<and> plain = bytes"
    using c parts(4,5) by (auto split: if_splits sum.splits)
qed

lemma prepared_size:
  assumes "gzip_ok P" and "prepare P name mime_type bytes = Inr (name_bytes, type_bytes, plain, compression, digest)"
  shows "plain \<noteq> []" and "length plain \<le> MAX_FILE_BYTES"
proof -
  note p = prepare_ok [OF assms(2)]
  have "GZIP_MIN_LEN \<le> length plain" if "gzip P bytes = Inr plain" using assms(1) that unfolding gzip_ok_def by blast
  then show "plain \<noteq> []" using p(1,8) by (auto simp: GZIP_MIN_LEN_def)
  show "length plain \<le> MAX_FILE_BYTES" using p(2,8) by auto
qed

section \<open>Which inputs are packed\<close>

text \<open>What packing accepts, and the error it answers otherwise.\<close>

definition packable :: "str \<Rightarrow> str \<Rightarrow> u8 list \<Rightarrow> bool" where
  "packable name mime_type bytes \<longleftrightarrow> bytes \<noteq> [] \<and> length bytes \<le> MAX_FILE_BYTES \<and>
     length (utf8_bytes (safe_file_name name)) \<le> 0xffff \<and>
     (\<exists>mime. normalize_mime_type mime_type = Inr mime \<and> length (utf8_bytes mime) \<le> 0xffff)"

definition pack_error :: "u8 list \<Rightarrow> error" where
  "pack_error bytes = (if bytes = [] then Empty
     else if MAX_FILE_BYTES < length bytes then TooLarge (length bytes) MAX_FILE_BYTES else Meta)"

definition gzip_writes :: "'m container_platform_scheme \<Rightarrow> bool" where
  "gzip_writes P \<longleftrightarrow> (\<forall>bytes. \<exists>c. gzip P bytes = Inr c)"

lemma normalize_error: "normalize_mime_type mime_type = Inl e \<Longrightarrow> e = Meta"
  by (auto simp: normalize_mime_type_def Let_def split: if_splits option.splits)

lemma prepare_rejects:
  assumes "\<not> packable name mime_type bytes"
  shows "prepare P name mime_type bytes = Inl (pack_error bytes)"
proof (cases "bytes = [] \<or> MAX_FILE_BYTES < length bytes")
  case True
  then show ?thesis by (auto simp: prepare_def pack_error_def)
next
  case False
  show ?thesis
  proof (cases "normalize_mime_type mime_type")
    case (Inl e)
    then show ?thesis using False normalize_error [OF Inl] by (simp add: prepare_def pack_error_def Let_def)
  next
    case (Inr mime)
    then have "0xffff < length (utf8_bytes (safe_file_name name)) \<or> 0xffff < length (utf8_bytes mime)"
      using False assms by (auto simp: packable_def)
    then show ?thesis using False Inr by (simp add: prepare_def pack_error_def Let_def)
  qed
qed

lemma prepare_accepts:
  assumes "gzip_writes P" and "packable name mime_type bytes"
  shows "\<exists>r. prepare P name mime_type bytes = Inr r"
proof -
  obtain mime where m: "normalize_mime_type mime_type = Inr mime" "length (utf8_bytes mime) \<le> 0xffff"
    using assms(2) by (auto simp: packable_def)
  obtain c where c: "gzip P bytes = Inr c" using assms(1) unfolding gzip_writes_def by blast
  show ?thesis using assms(2) m c by (simp add: prepare_def packable_def Let_def)
qed

lemma assemble_container_total:
  assumes "dcf_codec_ok P" and "length digest = 32" and "length nonce = NONCE_LEN"
  shows "\<exists>hdr. assemble_container P flags name_bytes type_bytes transmitted file_len digest nonce =
    Inr (hdr @ name_bytes @ type_bytes @ transmitted)"
proof -
  let ?h = "\<lparr>dh_magic = FILE_MAGIC, dh_flags = flags, dh_name_len = word_of_nat (length name_bytes),
    dh_type_len = word_of_nat (length type_bytes), dh_file_len = word_of_nat file_len,
    dh_xmit_len = word_of_nat (length transmitted), dh_digest = digest, dh_nonce = nonce\<rparr>"
  have "header_sized ?h" using assms(2,3) by (simp add: header_sized_def FILE_MAGIC_def)
  then obtain hdr where "dcf_serialize P ?h = Inr hdr" using assms(1) unfolding dcf_codec_ok_def by blast
  then show ?thesis by (simp add: assemble_container_def)
qed

section \<open>Reading a container back\<close>

lemma assemble_container_ok:
  assumes "dcf_codec_ok P" and "length digest = 32" and "length nonce = NONCE_LEN"
    and "length name_bytes \<le> 0xffff" and "length type_bytes \<le> 0xffff"
    and "0 < file_len" and "file_len \<le> MAX_FILE_BYTES" and "transmitted \<noteq> []"
    and "length transmitted \<le> MAX_FILE_BYTES + (if flags AND FLAG_CRYPT \<noteq> 0 then TAG_LEN else 0)"
    and "flags AND NOT (FLAG_GZIP OR FLAG_CRYPT) = 0"
    and "assemble_container P flags name_bytes type_bytes transmitted file_len digest nonce = Inr container"
  shows "\<exists>h hdr. container = hdr @ name_bytes @ type_bytes @ transmitted \<and> length hdr = FILE_HEADER_LEN \<and>
    read_header P container = Inr h \<and> validate_layout h (length container) = Inr () \<and>
    dh_flags h = flags \<and> unat (dh_name_len h) = length name_bytes \<and> unat (dh_type_len h) = length type_bytes \<and>
    dh_file_len h = word_of_nat file_len \<and> unat (dh_file_len h) = file_len \<and>
    unat (dh_xmit_len h) = length transmitted \<and> dh_digest h = digest \<and> dh_nonce h = nonce"
proof -
  define h where "h = \<lparr>dh_magic = FILE_MAGIC, dh_flags = flags, dh_name_len = word_of_nat (length name_bytes),
    dh_type_len = word_of_nat (length type_bytes), dh_file_len = word_of_nat file_len,
    dh_xmit_len = word_of_nat (length transmitted), dh_digest = digest, dh_nonce = nonce\<rparr>"
  have "header_sized h" using assms(2,3) by (simp add: h_def header_sized_def FILE_MAGIC_def)
  then obtain hdr where hdr: "dcf_serialize P h = Inr hdr" "length hdr = FILE_HEADER_LEN" "dcf_deserialize P hdr = Inr h"
    using assms(1) unfolding dcf_codec_ok_def by blast
  have c: "container = hdr @ name_bytes @ type_bytes @ transmitted"
    using assms(11) hdr(1) by (simp add: assemble_container_def h_def [symmetric])
  have small: "length transmitted < 2 ^ 32"
    using assms(9) by (auto simp: MAX_FILE_BYTES_def TAG_LEN_def split: if_splits)
  have w: "unat (dh_name_len h) = length name_bytes" "unat (dh_type_len h) = length type_bytes"
    "unat (dh_file_len h) = file_len" "unat (dh_xmit_len h) = length transmitted"
    using assms(4,5) small max_file_small [OF assms(7)] by (simp_all add: h_def unat_of_nat)
  then have nz: "dh_file_len h \<noteq> 0" "dh_xmit_len h \<noteq> 0" using assms(6,8) by auto
  have f: "dh_magic h = FILE_MAGIC" "dh_flags h = flags" "dh_file_len h = word_of_nat file_len" "dh_digest h = digest"
    "dh_nonce h = nonce" by (simp_all add: h_def)
  have "read_header P container = Inr h"
    using hdr(2,3) f assms(10) by (simp add: read_header_def c)
  moreover have "validate_layout h (length container) = Inr ()"
    using nz w f assms(7,9) hdr(2) by (simp add: validate_layout_def c Let_def)
  ultimately show ?thesis using c hdr(2) w f by blast
qed

lemma unpack_assembled:
  assumes "container = hdr @ name_bytes @ type_bytes @ transmitted" and "length hdr = FILE_HEADER_LEN"
    and "read_header P container = Inr h" and "validate_layout h (length container) = Inr ()"
    and "unat (dh_name_len h) = length name_bytes" and "unat (dh_type_len h) = length type_bytes"
  shows "unpack_impl P container key =
    (if dh_flags h AND FLAG_CRYPT \<noteq> 0 \<and> \<not> feature_encryption P then Some (Inl NoEncryption)
     else case (if dh_flags h AND FLAG_CRYPT \<noteq> 0
                then case key of None \<Rightarrow> Inl NoEncryption
                  | Some key \<Rightarrow> decrypt P key (dh_nonce h) transmitted
                      (aad (dh_flags h) name_bytes type_bytes (unat (dh_file_len h)) (unat (dh_xmit_len h)) (dh_digest h))
                else Inr transmitted) of
            Inl e \<Rightarrow> Some (Inl e)
          | Inr plain \<Rightarrow> do {
              expanded \<leftarrow> (if dh_flags h AND FLAG_GZIP \<noteq> 0 then expand P plain (dh_file_len h) else Some (Inr plain));
              Some (case expanded of Inl e \<Rightarrow> Inl e | Inr bytes \<Rightarrow> checked_file P h name_bytes type_bytes bytes) })"
proof -
  let ?o = "FILE_HEADER_LEN + length name_bytes" and ?d = "FILE_HEADER_LEN + length name_bytes + length type_bytes"
  have "slice container FILE_HEADER_LEN ?o = Some name_bytes" "slice container ?o ?d = Some type_bytes"
    "slice container ?d (length container) = Some transmitted"
    using assms(2) by (simp_all add: slice_def assms(1))
  then show ?thesis by (simp add: unpack_impl_def assms(3-6) Let_def)
qed

lemma safe_file_name_scalar:
  assumes "list_all scalar name"
  shows "list_all scalar (safe_file_name name)"
proof -
  have "set (cleaned_name name) \<subseteq> safe_char ` set name"
    unfolding cleaned_name_def using trim_end_set trim_set
    by (fastforce simp: last_split_def dest: set_takeWhileD)
  moreover have "scalar (safe_char c)" if "c \<in> set name" for c
    using assms that by (auto simp: safe_char_def scalar_def list_all_iff)
  ultimately have "list_all scalar (cleaned_name name)" unfolding list_all_iff by blast
  moreover have "scalar 95" "list_all scalar DEFAULT_NAME" by (simp_all add: scalar_def ascii_simps)
  ultimately show ?thesis by (simp add: safe_file_name_eq)
qed

lemma checked_file_packed:
  assumes "list_all scalar name" and "normalize_mime_type mime_type = Inr mime"
    and "unat (dh_file_len h) = length bytes" and "dh_digest h = blake3 P bytes"
  shows "checked_file P h (utf8_bytes (safe_file_name name)) (utf8_bytes mime) bytes = Inr
    \<lparr>of_name = safe_file_name (safe_file_name name), of_mime_type = mime, of_bytes = bytes, of_digest = blake3 P bytes,
     of_compression = (if dh_flags h AND FLAG_GZIP \<noteq> 0 then Gzip else Plain),
     of_encrypted = (dh_flags h AND FLAG_CRYPT \<noteq> 0), of_transmitted_size = unat (dh_xmit_len h)\<rparr>"
proof -
  have "list_all scalar mime" using normalize_ascii(2) [OF assms(2)] by (auto simp: list_all_iff scalar_def)
  then have "from_utf8 (utf8_bytes mime) = Some mime" by (rule from_utf8_bytes)
  moreover have "normalize_mime_type mime = Inr mime" using normalize_value [OF assms(2)] by simp
  moreover have "from_utf8_lossy (utf8_bytes (safe_file_name name)) = safe_file_name name"
    by (rule from_utf8_lossy_bytes [OF safe_file_name_scalar [OF assms(1)]])
  ultimately show ?thesis using assms(3,4) by (simp add: checked_file_def)
qed

text \<open>The flags that packing writes.\<close>

definition pack_flags :: "compression \<Rightarrow> bool \<Rightarrow> u8" where
  "pack_flags compression encrypted =
     (if compression = Gzip then FLAG_GZIP else 0) OR (if encrypted then FLAG_CRYPT else 0)"

lemma pack_flags_bits [simp]:
  "pack_flags compression encrypted AND NOT (FLAG_GZIP OR FLAG_CRYPT) = 0"
  "(pack_flags compression encrypted AND FLAG_CRYPT \<noteq> 0) = encrypted"
  "(pack_flags compression encrypted AND FLAG_GZIP \<noteq> 0) = (compression = Gzip)"
  by (simp_all add: pack_flags_def FLAG_GZIP_def FLAG_CRYPT_def)

lemma pack_flags_zero [simp]:
  "(pack_flags compression encrypted AND FLAG_CRYPT = 0) = (\<not> encrypted)"
  "(pack_flags compression encrypted AND FLAG_GZIP = 0) = (compression \<noteq> Gzip)"
  using pack_flags_bits by metis+

definition unpacked :: "'m container_platform_scheme \<Rightarrow> str \<Rightarrow> str \<Rightarrow> u8 list \<Rightarrow> packed_optical_file \<Rightarrow> optical_file" where
  "unpacked P name mime bytes packed =
    \<lparr>of_name = safe_file_name (safe_file_name name), of_mime_type = mime, of_bytes = bytes, of_digest = blake3 P bytes,
     of_compression = po_compression packed, of_encrypted = po_encrypted packed,
     of_transmitted_size = po_transmitted_size packed\<rparr>"

definition fits_stream :: "packed_optical_file \<Rightarrow> bool" where
  "fits_stream packed \<longleftrightarrow> po_container packed \<noteq> [] \<and> length (po_container packed) \<le> MAX_STREAM_BYTES"

lemma unpack_plain:
  assumes ok: "dcf_codec_ok P" "gzip_ok P" "digest_ok P" and name: "list_all scalar name"
    and packed: "pack_file P name mime_type bytes = Inr packed"
  shows "\<exists>mime. normalize_mime_type mime_type = Inr mime \<and>
    unpack_impl P (po_container packed) key = Some (Inr (unpacked P name mime bytes packed)) \<and> fits_stream packed"
proof -
  obtain name_bytes type_bytes plain compression digest where
    prep: "prepare P name mime_type bytes = Inr (name_bytes, type_bytes, plain, compression, digest)"
    using packed by (auto simp: pack_file_def split: sum.splits)
  note p = prepare_ok [OF prep]
  obtain mime where m: "normalize_mime_type mime_type = Inr mime" "type_bytes = utf8_bytes mime" using p(4) by blast
  have fl: "(if compression = Gzip then FLAG_GZIP else 0) = pack_flags compression False" by (simp add: pack_flags_def)
  obtain container where c: "assemble_container P (pack_flags compression False) name_bytes type_bytes plain (length bytes)
      digest (replicate NONCE_LEN 0) = Inr container"
    "packed = \<lparr>po_container = container, po_compression = compression, po_encrypted = False,
       po_original_size = length bytes, po_transmitted_size = length plain\<rparr>"
    using packed prep by (auto simp: pack_file_def fl split: sum.splits)
  note plain = prepared_size [OF ok(2) prep]
  have bytes: "0 < length bytes" and dig: "length digest = 32" using p(1,7) ok(3) by (simp_all add: digest_ok_def)
  have room: "length plain \<le> MAX_FILE_BYTES + (if pack_flags compression False AND FLAG_CRYPT \<noteq> 0 then TAG_LEN else 0)"
    and zero: "length (replicate NONCE_LEN (0 :: u8)) = NONCE_LEN" using plain(2) by simp_all
  from assemble_container_ok [OF ok(1) dig zero p(5,6) bytes p(2) plain(1) room pack_flags_bits(1) c(1)] obtain h hdr where h:
    "container = hdr @ name_bytes @ type_bytes @ plain" "length hdr = FILE_HEADER_LEN" "read_header P container = Inr h"
    "validate_layout h (length container) = Inr ()" "dh_flags h = pack_flags compression False"
    "unat (dh_name_len h) = length name_bytes" "unat (dh_type_len h) = length type_bytes"
    "dh_file_len h = word_of_nat (length bytes)" "unat (dh_file_len h) = length bytes"
    "unat (dh_xmit_len h) = length plain" "dh_digest h = digest" by blast
  have out: "(if compression = Gzip then expand P plain (dh_file_len h) else Some (Inr plain)) = Some (Inr bytes)"
    using p(8) expand_gzip [OF ok(2) _ _ p(2), of plain] h(8) by auto
  have whole: "checked_file P h name_bytes type_bytes bytes = Inr (unpacked P name mime bytes packed)"
    using checked_file_packed [OF name m(1) h(9), of P] h(5,10,11) p(3,7) m(2)
    by (simp add: unpacked_def c(2)) (cases compression; simp)
  have "unpack_impl P container key = Some (Inr (unpacked P name mime bytes packed))"
    unfolding unpack_assembled [OF h(1-4,6,7)] h(5) using out whole by simp
  moreover have "fits_stream packed"
    using h(1,2) p(5,6) plain(2) by (auto simp: fits_stream_def c(2) MAX_STREAM_BYTES_def FILE_HEADER_LEN_def)
  ultimately show ?thesis using m(1) by (simp add: c(2))
qed

lemma unpack_sealed:
  assumes ok: "dcf_codec_ok P" "gzip_ok P" "digest_ok P" "aead_ok P" and feature: "feature_encryption P"
    and name: "list_all scalar name" and nonce: "length nonce = NONCE_LEN"
    and packed: "pack_file_encrypted P name mime_type bytes key nonce = Inr packed"
  shows "\<exists>mime. normalize_mime_type mime_type = Inr mime \<and>
    unpack_impl P (po_container packed) (Some (key_bytes key)) = Some (Inr (unpacked P name mime bytes packed)) \<and>
    unpack_impl P (po_container packed) None = Some (Inl NoEncryption) \<and> fits_stream packed \<and>
    (\<exists>h. read_header P (po_container packed) = Inr h \<and> dh_nonce h = nonce \<and> dh_flags h AND FLAG_CRYPT \<noteq> 0 \<and>
       validate_layout h (length (po_container packed)) = Inr ())"
proof -
  obtain name_bytes type_bytes plain compression digest where
    prep: "prepare P name mime_type bytes = Inr (name_bytes, type_bytes, plain, compression, digest)"
    using packed by (auto simp: pack_file_encrypted_def split: sum.splits)
  note p = prepare_ok [OF prep] and plain = prepared_size [OF ok(2) prep]
  obtain mime where m: "normalize_mime_type mime_type = Inr mime" "type_bytes = utf8_bytes mime" using p(4) by blast
  have fl: "(if compression = Gzip then FLAG_GZIP else 0) OR FLAG_CRYPT = pack_flags compression True"
    by (simp add: pack_flags_def)
  let ?aad = "aad (pack_flags compression True) name_bytes type_bytes (length bytes) (length plain + TAG_LEN) digest"
  obtain ct container where ct: "encrypt P (key_bytes key) nonce plain ?aad = Inr ct"
    and c: "assemble_container P (pack_flags compression True) name_bytes type_bytes ct (length bytes) digest nonce = Inr container"
    "packed = \<lparr>po_container = container, po_compression = compression, po_encrypted = True,
       po_original_size = length bytes, po_transmitted_size = length ct\<rparr>"
    using packed prep by (auto simp: pack_file_encrypted_def fl Let_def split: sum.splits)
  note seal = encrypt_decrypt [OF ok(4) ct]
  have ctlen: "ct \<noteq> []" "length ct \<le> MAX_FILE_BYTES + TAG_LEN" using plain seal(2) by (auto simp: TAG_LEN_def)
  have bytes: "0 < length bytes" and dig: "length digest = 32" using p(1,7) ok(3) by (simp_all add: digest_ok_def)
  have room: "length ct \<le> MAX_FILE_BYTES + (if pack_flags compression True AND FLAG_CRYPT \<noteq> 0 then TAG_LEN else 0)"
    using ctlen(2) by simp
  from assemble_container_ok [OF ok(1) dig nonce p(5,6) bytes p(2) ctlen(1) room pack_flags_bits(1) c(1)] obtain h hdr where h:
    "container = hdr @ name_bytes @ type_bytes @ ct" "length hdr = FILE_HEADER_LEN" "read_header P container = Inr h"
    "validate_layout h (length container) = Inr ()" "dh_flags h = pack_flags compression True"
    "unat (dh_name_len h) = length name_bytes" "unat (dh_type_len h) = length type_bytes"
    "dh_file_len h = word_of_nat (length bytes)" "unat (dh_file_len h) = length bytes"
    "unat (dh_xmit_len h) = length ct" "dh_digest h = digest" "dh_nonce h = nonce" by blast
  have out: "(if compression = Gzip then expand P plain (dh_file_len h) else Some (Inr plain)) = Some (Inr bytes)"
    using p(8) expand_gzip [OF ok(2) _ _ p(2), of plain] h(8) by auto
  have whole: "checked_file P h name_bytes type_bytes bytes = Inr (unpacked P name mime bytes packed)"
    using checked_file_packed [OF name m(1) h(9), of P] h(5,10,11) p(3,7) m(2)
    by (simp add: unpacked_def c(2)) (cases compression; simp)
  have "unpack_impl P container (Some (key_bytes key)) = Some (Inr (unpacked P name mime bytes packed))"
    unfolding unpack_assembled [OF h(1-4,6,7)] h(5) h(12) h(11) h(10) h(9) seal(2)
    using out whole seal(1) feature by (simp add: h(8))
  moreover have "unpack_impl P container None = Some (Inl NoEncryption)"
    unfolding unpack_assembled [OF h(1-4,6,7)] h(5) by simp
  moreover have "fits_stream packed"
    using h(1,2) p(5,6) ctlen(2) by (auto simp: fits_stream_def c(2) MAX_STREAM_BYTES_def FILE_HEADER_LEN_def TAG_LEN_def)
  moreover have "dh_flags h AND FLAG_CRYPT \<noteq> 0" using h(5) by simp
  ultimately show ?thesis using m(1) h(3,4,12) by (intro exI [of _ mime]) (auto simp: c(2))
qed

section \<open>Errors of unpacking\<close>

definition unpack_errors :: "error set" where
  "unpack_errors = {Truncated, BadMagic, Lengths, NoEncryption, NoCompression, error.Crypto, GzipIncomplete, GzipSize, Meta}
     \<union> range Codec \<union> range Inflate"

lemma gunzip_errors: "gunzip_loop P c max_bytes i out = Inl e \<Longrightarrow> e \<in> unpack_errors"
proof (induction P c max_bytes i out rule: gunzip_loop.induct)
  case (1 P c max_bytes i out)
  then show ?case
    by (cases "gz_read P c i") (auto simp: gunzip_loop.simps [of P c max_bytes i out] unpack_errors_def split: if_splits)
qed

lemma expand_total:
  "\<exists>r. expand P plain file_len = Some r \<and> (case r of Inl e \<Rightarrow> e \<in> unpack_errors | Inr _ \<Rightarrow> True)"
proof (cases "feature_std P \<and> GZIP_MIN_LEN \<le> length plain")
  case True
  then have "18 \<le> length plain" by (simp add: GZIP_MIN_LEN_def)
  then have "slice plain (length plain - 4) (length plain) = Some (drop (length plain - 4) plain)"
    and t: "length (drop (length plain - 4) plain) = 4" by (simp_all add: slice_def)
  then show ?thesis using True gunzip_errors [of P plain "unat file_len" 0 "[]"]
    by (auto simp: expand_def get_at_def gunzip_def unpack_errors_def split: sum.splits)
qed (auto simp: expand_def unpack_errors_def)

lemma split_four: "xs = take a xs @ take n (drop a xs) @ take t (drop (a + n) xs) @ drop (a + n + t) xs"
proof -
  have "take t (drop (a + n) xs) @ drop (a + n + t) xs = drop (a + n) xs"
    using append_take_drop_id [of t "drop (a + n) xs"] by (simp add: ac_simps)
  moreover have "take n (drop a xs) @ drop (a + n) xs = drop a xs"
    using append_take_drop_id [of n "drop a xs"] by (simp add: ac_simps)
  ultimately show ?thesis by simp
qed

lemma checked_file_checks:
  assumes "dh_file_len h \<noteq> 0" and "unat (dh_file_len h) \<le> MAX_FILE_BYTES"
  shows "case checked_file P h name_bytes type_bytes bytes of Inl e \<Rightarrow> e \<in> unpack_errors
    | Inr f \<Rightarrow> verify_file P f \<and> 0 < length (of_bytes f) \<and> length (of_bytes f) \<le> MAX_FILE_BYTES \<and>
        (\<exists>name. of_name f = safe_file_name name) \<and> normalize_mime_type (of_mime_type f) = Inr (of_mime_type f)"
proof -
  have pos: "0 < unat (dh_file_len h)" using assms(1) by (simp add: unat_gt_0)
  have meta: "e = Meta" if "normalize_mime_type m = Inl e" for m e
    using that by (auto simp: normalize_mime_type_def Let_def split: if_splits option.splits)
  show ?thesis
  proof (cases "length bytes = unat (dh_file_len h) \<and> blake3 P bytes = dh_digest h")
    case True
    then show ?thesis using pos assms(2) meta normalize_value
      by (auto simp: checked_file_def unpack_errors_def verify_file_def split: option.splits sum.splits)
  qed (auto simp: checked_file_def unpack_errors_def)
qed

section \<open>A platform for concrete instances\<close>

text \<open>The documented header layout, a cipher that only appends its tag and a gzip that only frames its
  input: they show that the contracts can hold.\<close>

definition dcf_layout :: "dcf_header \<Rightarrow> string + u8 list" where
  "dcf_layout h = Inr (dh_magic h @ [dh_flags h] @ le_bytes16 (dh_name_len h) @ le_bytes16 (dh_type_len h) @
     le_bytes32 (dh_file_len h) @ le_bytes32 (dh_xmit_len h) @ dh_digest h @ dh_nonce h)"

definition dcf_parse :: "u8 list \<Rightarrow> string + dcf_header" where
  "dcf_parse bs = Inr \<lparr>dh_magic = take 4 bs, dh_flags = bs ! 4, dh_name_len = of_le16 (bs ! 5) (bs ! 6),
     dh_type_len = of_le16 (bs ! 7) (bs ! 8), dh_file_len = of_le32 (bs ! 9) (bs ! 10) (bs ! 11) (bs ! 12),
     dh_xmit_len = of_le32 (bs ! 13) (bs ! 14) (bs ! 15) (bs ! 16), dh_digest = take 32 (drop 17 bs),
     dh_nonce = drop 49 bs\<rparr>"

definition plain_crypto :: crypto_platform where
  "plain_crypto = wire_platform.extend plain_wire \<lparr>feature_std = True, feature_encryption = True,
     aead_encrypt = (\<lambda>key nonce m ad. Some (m @ replicate 16 0)),
     aead_decrypt = (\<lambda>key nonce c ad. Some (take (length c - 16) c)),
     argon2_params = (\<lambda>m t p n. True), argon2id = (\<lambda>m t p n password salt. Some (take 32 (password @ replicate 32 0)))\<rparr>"

definition plain_container :: container_platform where
  "plain_container = crypto_platform.extend plain_crypto \<lparr>dcf_serialize = dcf_layout, dcf_deserialize = dcf_parse,
     gz_write_all = Inr, gz_finish = (\<lambda>enc. Inr (replicate 14 0 @ enc @ le_bytes32 (word_of_nat (length enc)))),
     gz_read = (\<lambda>c i. Inr (if i = 0 then take (length c - 18) (drop 14 c) else []))\<rparr>"

lemmas plain_container_defs = plain_container_def plain_crypto_def plain_wire_def
  crypto_platform.defs wire_platform.defs math_platform.defs

lemma plain_codec: "dcf_codec_ok plain_container"
proof -
  have "dcf_parse (the (case dcf_layout h of Inr bs \<Rightarrow> Some bs)) = Inr h \<and>
      (\<exists>bs. dcf_layout h = Inr bs \<and> length bs = FILE_HEADER_LEN)" if sized: "header_sized h" for h
  proof -
    obtain a b c d where "dh_magic h = [a, b, c, d]"
      using sized by (auto simp: header_sized_def length_Suc_conv numeral_eq_Suc)
    then show ?thesis using sized
      by (cases h) (simp add: dcf_layout_def dcf_parse_def header_sized_def NONCE_LEN_def FILE_HEADER_LEN_def
          le_bytes16_def le_bytes32_def)
  qed
  then show ?thesis by (fastforce simp: dcf_codec_ok_def plain_container_defs)
qed

lemma plain_gzip: "gzip_ok plain_container"
proof -
  have "gz_yields plain_container (replicate 14 0 @ bytes @ le_bytes32 (word_of_nat (length bytes))) bytes" for bytes
    unfolding gz_yields_def
    by (rule exI [of _ "if bytes = [] then [] else [bytes]"]) (simp add: plain_container_defs)
  then show ?thesis by (auto simp: gzip_ok_def gzip_def plain_container_defs GZIP_MIN_LEN_def)
qed

lemma plain_digest: "digest_ok plain_container"
  by (auto simp: digest_ok_def plain_container_defs)

lemma plain_aead: "aead_ok plain_container"
  by (simp add: aead_ok_def plain_container_defs TAG_LEN_def)

lemma plain_prepare: "prepare plain_container [97] [] [1, 2, 3] =
    Inr ([97], utf8_bytes DEFAULT_MIME, [1, 2, 3], Plain, blake3 plain_container [1, 2, 3])"
proof -
  have "safe_file_name [97] = [97]" using safe_name_fix [of "[97]"]
    by (simp add: safe_name_def allowed_char_def is_control_def is_bidi_control_def ascii_def is_whitespace_def
        first_split_def is_windows_device_name_def to_upper_def starts_with_def Let_def)
  then have name: "utf8_bytes (safe_file_name [97]) = [97]" by (simp add: utf8_bytes_def utf8_char_def)
  have mime: "normalize_mime_type [] = Inr DEFAULT_MIME" by (simp add: normalize_mime_type_def trim_def trim_end_matches_def)
  have len: "length (utf8_bytes DEFAULT_MIME) \<le> 0xffff"
    by (simp add: DEFAULT_MIME_def ascii_def utf8_bytes_def utf8_char_def)
  have "\<not> GZIP_MIN \<le> length [1, 2, 3 :: u8]" "length [1, 2, 3 :: u8] \<le> MAX_FILE_BYTES"
    by (simp_all add: GZIP_MIN_def MAX_FILE_BYTES_def)
  then show ?thesis using len by (simp only: prepare_def name mime Let_def sum.case) (simp add: len not_less)
qed

lemma plain_fields: "dcf_serialize plain_container = dcf_layout"
  "aead_encrypt plain_container = (\<lambda>key nonce m ad. Some (m @ replicate 16 0))"
  by (simp_all add: plain_container_defs)

lemma plain_pack: "\<exists>packed. pack_file plain_container [97] [] [1, 2, 3] = Inr packed"
  by (simp add: pack_file_def plain_prepare assemble_container_def plain_fields dcf_layout_def)

lemma plain_seal: "\<exists>packed. pack_file_encrypted plain_container [97] [] [1, 2, 3] (EncryptionKey key) nonce = Inr packed"
  by (simp add: pack_file_encrypted_def plain_prepare assemble_container_def encrypt_def plain_fields
      dcf_layout_def Let_def)

section \<open>Properties\<close>

text \<open>C11: a packed file unpacks to its bytes, digest and media type, with the sanitised name; its
  container is never empty and always fits one stream, whatever the name, the media type and the
  success of compression.\<close>

theorem container_roundtrip:
  assumes "dcf_codec_ok P" and "gzip_ok P" and "digest_ok P" and "list_all scalar name"
    and "pack_file P name mime_type bytes = Inr packed"
  shows "\<exists>f. unpack_file P (po_container packed) = Some (Inr f) \<and> of_bytes f = bytes \<and> of_digest f = blake3 P bytes \<and>
    of_name f = safe_file_name (safe_file_name name) \<and> normalize_mime_type mime_type = Inr (of_mime_type f) \<and>
    of_compression f = po_compression packed \<and> \<not> of_encrypted f \<and> of_transmitted_size f = po_transmitted_size packed \<and>
    0 < length (po_container packed) \<and> length (po_container packed) \<le> MAX_STREAM_BYTES"
proof -
  have "po_encrypted packed = False" using assms(5) by (auto simp: pack_file_def Let_def split: sum.splits)
  with unpack_plain [OF assms, of None] show ?thesis
    by (auto simp: unpack_file_def unpacked_def fits_stream_def)
qed

theorem container_roundtrip_witness:
  "\<exists>packed f. pack_file plain_container [97] [] [1, 2, 3] = Inr packed \<and>
     unpack_file plain_container (po_container packed) = Some (Inr f) \<and> of_bytes f = [1, 2, 3]"
proof -
  obtain packed where p: "pack_file plain_container [97] [] [1, 2, 3] = Inr packed" using plain_pack by blast
  have "list_all scalar [97]" by (simp add: scalar_def)
  from container_roundtrip [OF plain_codec plain_gzip plain_digest this p] p show ?thesis by blast
qed

text \<open>C12: an encrypted file unpacks with its key to the same bytes, digest and media type; without a
  key the container is refused, and the password that derived the key for its nonce opens it.\<close>

theorem encrypted_container_roundtrip:
  assumes "dcf_codec_ok P" and "gzip_ok P" and "digest_ok P" and "aead_ok P" and "feature_encryption P"
    and "list_all scalar name" and "length nonce = NONCE_LEN"
    and "pack_file_encrypted P name mime_type bytes key nonce = Inr packed"
  shows "\<exists>f. unpack_file_with_key P (po_container packed) key = Some (Inr f) \<and> of_bytes f = bytes \<and>
    of_digest f = blake3 P bytes \<and> normalize_mime_type mime_type = Inr (of_mime_type f) \<and> of_encrypted f \<and>
    unpack_file P (po_container packed) = Some (Inl NoEncryption) \<and>
    (\<forall>password. key_from_password P password nonce = Inr key \<longrightarrow>
       unpack_file_with_password P (po_container packed) password = Some (Inr f)) \<and>
    length (po_container packed) \<le> MAX_STREAM_BYTES"
proof -
  have enc: "po_encrypted packed" using assms(8) by (auto simp: pack_file_encrypted_def Let_def split: sum.splits)
  from unpack_sealed [OF assms] obtain mime h where u: "normalize_mime_type mime_type = Inr mime"
    "unpack_impl P (po_container packed) (Some (key_bytes key)) = Some (Inr (unpacked P name mime bytes packed))"
    "unpack_impl P (po_container packed) None = Some (Inl NoEncryption)" "fits_stream packed"
    "read_header P (po_container packed) = Inr h" "dh_nonce h = nonce" "dh_flags h AND FLAG_CRYPT \<noteq> 0"
    "validate_layout h (length (po_container packed)) = Inr ()" by blast
  then show ?thesis using enc
    by (intro exI [of _ "unpacked P name mime bytes packed"])
      (simp add: unpack_file_def unpack_file_with_key_def unpack_file_with_password_def unpacked_def fits_stream_def)
qed

theorem encrypted_container_roundtrip_witness:
  "\<exists>packed f. pack_file_encrypted plain_container [97] [] [1, 2, 3] (EncryptionKey [9]) (replicate 24 7) = Inr packed \<and>
     unpack_file_with_key plain_container (po_container packed) (EncryptionKey [9]) = Some (Inr f) \<and> of_bytes f = [1, 2, 3] \<and>
     unpack_file plain_container (po_container packed) = Some (Inl NoEncryption)"
proof -
  obtain packed where p: "pack_file_encrypted plain_container [97] [] [1, 2, 3] (EncryptionKey [9]) (replicate 24 7) = Inr packed"
    using plain_seal by blast
  have s: "list_all scalar [97]" "length (replicate 24 (7 :: u8)) = NONCE_LEN" "feature_encryption plain_container"
    by (simp_all add: scalar_def NONCE_LEN_def plain_container_defs)
  from encrypted_container_roundtrip [OF plain_codec plain_gzip plain_digest plain_aead s(3,1,2) p] p show ?thesis by blast
qed

text \<open>C13: packing is decided by its input alone: it succeeds exactly for non-empty files within the size
  limit whose sanitised name and accepted media type fit their length fields, and names the first
  violation otherwise. Compression is used only where it saves more than 64 bytes, and sealing can fail
  for no other reason than the cipher.\<close>

theorem packing_decided:
  assumes "dcf_codec_ok P" and "digest_ok P" and "gzip_writes P" and "length nonce = NONCE_LEN"
  shows "if packable name mime_type bytes
    then (\<exists>packed. pack_file P name mime_type bytes = Inr packed \<and> po_original_size packed = length bytes \<and>
        (if po_compression packed = Gzip then po_transmitted_size packed + 64 < length bytes
         else po_transmitted_size packed = length bytes)) \<and>
      (pack_file_encrypted P name mime_type bytes key nonce = Inl error.Crypto \<or>
       (\<exists>sealed. pack_file_encrypted P name mime_type bytes key nonce = Inr sealed))
    else pack_file P name mime_type bytes = Inl (pack_error bytes) \<and>
      pack_file_encrypted P name mime_type bytes key nonce = Inl (pack_error bytes)"
proof (cases "packable name mime_type bytes")
  case True
  from prepare_accepts [OF assms(3) True] obtain name_bytes type_bytes plain compression digest where
    prep: "prepare P name mime_type bytes = Inr (name_bytes, type_bytes, plain, compression, digest)" by (metis prod_cases5)
  note p = prepare_ok [OF prep]
  have dig: "length digest = 32" using p(7) assms(2) by (simp add: digest_ok_def)
  have zero: "length (replicate NONCE_LEN (0 :: u8)) = NONCE_LEN" by simp
  note total = assemble_container_total [OF assms(1) dig]
  obtain container where "assemble_container P (if compression = Gzip then FLAG_GZIP else 0) name_bytes type_bytes plain
      (length bytes) digest (replicate NONCE_LEN 0) = Inr container" using total [OF zero] by blast
  then have "pack_file P name mime_type bytes = Inr \<lparr>po_container = container, po_compression = compression,
      po_encrypted = False, po_original_size = length bytes, po_transmitted_size = length plain\<rparr>"
    using prep by (simp add: pack_file_def Let_def)
  moreover have "if compression = Gzip then length plain + 64 < length bytes else length plain = length bytes"
    using p(8) by (auto simp: GZIP_ROOM_def)
  moreover have "pack_file_encrypted P name mime_type bytes key nonce = Inl error.Crypto \<or>
      (\<exists>sealed. pack_file_encrypted P name mime_type bytes key nonce = Inr sealed)"
  proof (cases "encrypt P (key_bytes key) nonce plain (aad ((if compression = Gzip then FLAG_GZIP else 0) OR FLAG_CRYPT)
      name_bytes type_bytes (length bytes) (length plain + TAG_LEN) digest)")
    case (Inl e)
    then have "e = error.Crypto" by (simp add: encrypt_def split: option.splits)
    then show ?thesis using prep Inl by (simp add: pack_file_encrypted_def Let_def)
  next
    case (Inr ct)
    then show ?thesis
      using prep total [OF assms(4), of "(if compression = Gzip then FLAG_GZIP else 0) OR FLAG_CRYPT" name_bytes type_bytes
          ct "length bytes"]
      by (auto simp: pack_file_encrypted_def Let_def)
  qed
  ultimately show ?thesis using True by simp
next
  case False
  then show ?thesis by (simp add: pack_file_def pack_file_encrypted_def prepare_rejects)
qed

theorem packing_decided_witness:
  "\<exists>packed. pack_file plain_container [97] [] [1, 2, 3] = Inr packed \<and> po_original_size packed = 3"
proof -
  have packable: "packable [97] [] [1, 2, 3]"
    by (rule ccontr) (use prepare_rejects [of "[97]" "[]" "[1, 2, 3]" plain_container] plain_prepare in simp)
  have gz: "gzip_writes plain_container" by (simp add: gzip_writes_def gzip_def plain_container_defs)
  have len: "length (replicate NONCE_LEN (0 :: u8)) = NONCE_LEN" by simp
  from packing_decided [OF plain_codec plain_digest gz len, of "[97]" "[]" "[1, 2, 3]" "EncryptionKey []"]
  obtain packed where "pack_file plain_container [97] [] [1, 2, 3] = Inr packed" "po_original_size packed = length [1, 2, 3 :: u8]"
    unfolding if_P [OF packable] by blast
  then show ?thesis by auto
qed

text \<open>C10: unpacking never panics, whatever the bytes and the key: it answers with one of the errors
  of the format, or with a file that has been checked: its bytes hash to the digest, are not empty and
  not over the size limit, its name is a sanitised one and its media type an accepted one.\<close>

theorem unpack_returns_checked_files:
  "\<exists>res. unpack_impl P container key = Some res \<and>
    (case res of Inl e \<Rightarrow> e \<in> unpack_errors
     | Inr f \<Rightarrow> verify_file P f \<and> 0 < length (of_bytes f) \<and> length (of_bytes f) \<le> MAX_FILE_BYTES \<and>
         (\<exists>name. of_name f = safe_file_name name) \<and> normalize_mime_type (of_mime_type f) = Inr (of_mime_type f))"
proof (cases "read_header P container")
  case (Inl e)
  then show ?thesis by (auto simp: unpack_impl_def read_header_def unpack_errors_def split: if_splits sum.splits)
next
  case (Inr h)
  show ?thesis
  proof (cases "validate_layout h (length container)")
    case (Inl e)
    then have "e = Lengths" by (auto simp: validate_layout_def Let_def split: if_splits)
    then show ?thesis using \<open>read_header P container = Inr h\<close> Inl by (simp add: unpack_impl_def unpack_errors_def)
  next
    case layout: (Inr u)
    let ?o = "FILE_HEADER_LEN + unat (dh_name_len h)" and ?d = "FILE_HEADER_LEN + unat (dh_name_len h) + unat (dh_type_len h)"
    have v: "dh_file_len h \<noteq> 0" "unat (dh_file_len h) \<le> MAX_FILE_BYTES" "?d + unat (dh_xmit_len h) = length container"
      using layout by (auto simp: validate_layout_def Let_def split: if_splits)
    define hdr name_bytes type_bytes transmitted where "hdr = take FILE_HEADER_LEN container"
      and "name_bytes = take (unat (dh_name_len h)) (drop FILE_HEADER_LEN container)"
      and "type_bytes = take (unat (dh_type_len h)) (drop ?o container)" and "transmitted = drop ?d container"
    have len: "length hdr = FILE_HEADER_LEN" "unat (dh_name_len h) = length name_bytes" "unat (dh_type_len h) = length type_bytes"
      using v(3) by (simp_all add: hdr_def name_bytes_def type_bytes_def)
    have "container = hdr @ name_bytes @ type_bytes @ transmitted"
      unfolding hdr_def name_bytes_def type_bytes_def transmitted_def
      by (rule split_four)
    note run = unpack_assembled [OF this len(1) \<open>read_header P container = Inr h\<close> _ len(2,3), of key]
    let ?opened = "if dh_flags h AND FLAG_CRYPT \<noteq> 0
        then case key of None \<Rightarrow> Inl NoEncryption
          | Some key \<Rightarrow> decrypt P key (dh_nonce h) transmitted
              (aad (dh_flags h) name_bytes type_bytes (unat (dh_file_len h)) (unat (dh_xmit_len h)) (dh_digest h))
        else Inr transmitted"
    have opened: "case ?opened of Inl e \<Rightarrow> e \<in> unpack_errors | Inr _ \<Rightarrow> True"
      by (auto simp: decrypt_def unpack_errors_def split: option.splits)
    have grown: "\<exists>r. (if dh_flags h AND FLAG_GZIP \<noteq> 0 then expand P plain (dh_file_len h) else Some (Inr plain)) = Some r \<and>
        (case r of Inl e \<Rightarrow> e \<in> unpack_errors | Inr _ \<Rightarrow> True)" for plain
      using expand_total [of P plain "dh_file_len h"] by auto
    have checked: "case checked_file P h name_bytes type_bytes bytes of Inl e \<Rightarrow> e \<in> unpack_errors
      | Inr f \<Rightarrow> verify_file P f \<and> 0 < length (of_bytes f) \<and> length (of_bytes f) \<le> MAX_FILE_BYTES \<and>
          (\<exists>name. of_name f = safe_file_name name) \<and> normalize_mime_type (of_mime_type f) = Inr (of_mime_type f)" for bytes
      by (rule checked_file_checks [OF v(1,2)])
    show ?thesis
    proof (cases "dh_flags h AND FLAG_CRYPT \<noteq> 0 \<and> \<not> feature_encryption P")
      case True
      then show ?thesis using run layout by (simp add: unpack_errors_def)
    next
      case False
      show ?thesis
      proof (cases ?opened)
        case (Inl e)
        have "unpack_impl P container key = Some (Inl e)" using run layout False unfolding Inl by simp
        moreover have "e \<in> unpack_errors" using opened unfolding Inl by simp
        ultimately show ?thesis by simp
      next
        case plain: (Inr plain)
        from grown [of plain] obtain r where r:
          "(if dh_flags h AND FLAG_GZIP \<noteq> 0 then expand P plain (dh_file_len h) else Some (Inr plain)) = Some r"
          "case r of Inl e \<Rightarrow> e \<in> unpack_errors | Inr _ \<Rightarrow> True" by blast
        have "unpack_impl P container key =
            Some (case r of Inl e \<Rightarrow> Inl e | Inr bytes \<Rightarrow> checked_file P h name_bytes type_bytes bytes)"
          using run layout False r(1) unfolding plain by simp
        then show ?thesis using r(2) checked by (cases r; simp)
      qed
    qed
  qed
qed

end
