(* ===== verification/Formats.thy ===== *)
theory Formats
  imports Errors
begin

text \<open>
  The interface of a wire format: how a transcript is written as bytes and how bytes are read back.
  \<open>src/jrc.rs\<close> and \<open>src/jrp.rs\<close> each provide one; what their users need of either is proved
  here once. Reading returns an \<open>option\<close> whose \<open>None\<close> would be a panic.
\<close>

locale wire_format =
  fixes unparse :: "'a \<Rightarrow> u8 list"
    and parse :: "u8 list \<Rightarrow> 'a result option"
    and valid :: "'a \<Rightarrow> bool"
  assumes parse_unparse: "valid x \<Longrightarrow> parse (unparse x) = Some (Inr x)"
    and parse_sound: "parse bs = Some (Inr x) \<Longrightarrow> valid x \<and> unparse x = bs"
    and parse_returns: "parse bs \<noteq> None"
begin

lemma parse_iff: "parse bs = Some (Inr x) \<longleftrightarrow> valid x \<and> unparse x = bs"
proof
  assume "parse bs = Some (Inr x)"
  then show "valid x \<and> unparse x = bs" by (rule parse_sound)
next
  assume "valid x \<and> unparse x = bs"
  then show "parse bs = Some (Inr x)" using parse_unparse [of x] by simp
qed

text \<open>The format is unambiguous.\<close>

lemma unparse_inj: "valid x \<Longrightarrow> valid y \<Longrightarrow> unparse x = unparse y \<Longrightarrow> x = y"
proof -
  assume x: "valid x" and y: "valid y" and same: "unparse x = unparse y"
  have "Some (Inr x) = parse (unparse x)" by (rule parse_unparse [OF x, symmetric])
  also have "\<dots> = parse (unparse y)" by (rule arg_cong [OF same])
  also have "\<dots> = Some (Inr y)" by (rule parse_unparse [OF y])
  finally show "x = y" by simp
qed

lemma parse_cases:
  obtains e where "parse bs = Some (Inl e)" | x where "parse bs = Some (Inr x)" "valid x" "unparse x = bs"
proof -
  obtain res where res: "parse bs = Some res" using parse_returns by blast
  show thesis
  proof (cases res)
    case (Inl e)
    then show thesis using res by (simp add: that(1))
  next
    case (Inr x)
    then have "parse bs = Some (Inr x)" using res by simp
    then show thesis using that(2) [of x] parse_sound [of bs x] by simp
  qed
qed

lemma rejects: "(\<exists>e. parse bs = Some (Inl e)) \<longleftrightarrow> (\<nexists>x. valid x \<and> unparse x = bs)"
proof (cases rule: parse_cases [of bs])
  case (1 e)
  then have "parse bs \<noteq> Some (Inr x)" for x by simp
  then show ?thesis using 1 parse_iff [of bs] by simp
next
  case (2 x)
  then show ?thesis by auto
qed

end

end
