(* ===== verification/Jrc.thy ===== *)
theory Jrc
  imports Container Formats
begin

text \<open>
  The judge-recoverable commitment (\<open>src/jrc.rs\<close>) and the files packed with it
  (\<open>pack_file_jrc\<close>, \<open>unpack_file_jrc\<close> of \<open>src/container.rs\<close>).

  X25519 and BLAKE3's keyed modes are third-party crates, fields of \<open>jrc_platform\<close>. A key of
  \<open>x25519-dalek\<close> is represented by its 32 bytes, which \<open>from\<close> and \<open>as_bytes\<close> convert without
  loss; \<open>x_public s\<close> is the public key of a secret, \<open>x_dh s p\<close> the shared secret of a secret and a
  public key, \<open>x_contributory\<close> its check. \<open>jrc_ok\<close> is what the construction relies on: both
  sides of a key agreement derive the same shared secret, keys and keyed hashes have 32 bytes, and
  the cipher opens what it seals. Bytes drawn from the operating system are an argument, \<open>None\<close>
  when the draw fails.

  Not modelled: that secrets are overwritten in memory after use, and the computational security
  statements of the module (no theorem about a fixed function can express them).
\<close>

section \<open>Constants and types\<close>

definition COMMIT_LEN :: usize where "COMMIT_LEN = 32"
definition EPHEMERAL_PK_LEN :: usize where "EPHEMERAL_PK_LEN = 32"
definition ENVELOPE_OVERHEAD :: usize where
  "ENVELOPE_OVERHEAD = 4 + COMMIT_LEN + EPHEMERAL_PK_LEN + NONCE_LEN + TAG_LEN"
definition MAX_MESSAGE_LEN :: usize where "MAX_MESSAGE_LEN = MAX_STREAM_BYTES - ENVELOPE_OVERHEAD"
definition ENVELOPE_MAGIC :: "u8 list" where "ENVELOPE_MAGIC = [0x4a, 0x52, 0x43, 1]"
definition KDF_ENC_CTX :: string where "KDF_ENC_CTX = ''deopti-transfer jrc enc v1''"
definition KDF_COM_CTX :: string where "KDF_COM_CTX = ''deopti-transfer jrc com v1''"

definition envelope_len :: "usize \<Rightarrow> usize option" where
  "envelope_len message_len = checked_add message_len ENVELOPE_OVERHEAD"

datatype judge_public_key = JudgePublicKey "u8 list"
datatype judge_secret_key = JudgeSecretKey "u8 list"

record judge_key_pair =
  kp_ek :: judge_public_key
  kp_dk :: judge_secret_key

record jrc_commitment =
  jc_commitment :: "u8 list"
  jc_aux :: "u8 list"

record jrc_prover_opening =
  jo_ephemeral_secret :: "u8 list"
  jo_nonce :: "u8 list"

record jrc_platform = container_platform +
  x_public :: "u8 list \<Rightarrow> u8 list"
  x_dh :: "u8 list \<Rightarrow> u8 list \<Rightarrow> u8 list"
  x_contributory :: "u8 list \<Rightarrow> bool"
  blake3_derive_key :: "string \<Rightarrow> u8 list \<Rightarrow> u8 list"
  blake3_keyed :: "u8 list \<Rightarrow> u8 list \<Rightarrow> u8 list"

section \<open>Keys\<close>

definition secret_from_bytes :: "u8 list \<Rightarrow> judge_secret_key" where
  "secret_from_bytes bytes = JudgeSecretKey bytes"

fun secret_to_bytes :: "judge_secret_key \<Rightarrow> u8 list" where
  "secret_to_bytes (JudgeSecretKey s) = s"

definition to_public :: "'m jrc_platform_scheme \<Rightarrow> judge_secret_key \<Rightarrow> judge_public_key" where
  "to_public P dk = JudgePublicKey (x_public P (secret_to_bytes dk))"

definition public_from_bytes :: "u8 list \<Rightarrow> judge_public_key" where
  "public_from_bytes bytes = JudgePublicKey bytes"

fun public_to_bytes :: "judge_public_key \<Rightarrow> u8 list" where
  "public_to_bytes (JudgePublicKey p) = p"

definition secret_debug :: "judge_secret_key \<Rightarrow> string" where
  "secret_debug dk = ''JudgeSecretKey([redacted])''"

text \<open>The text of \<open>debug_struct\<close> in the plain form; how the public key shows itself is the derived
  formatter of the X25519 crate, a parameter.\<close>

definition key_pair_debug :: "(judge_public_key \<Rightarrow> string) \<Rightarrow> judge_key_pair \<Rightarrow> string" where
  "key_pair_debug show_ek pair =
     ''JudgeKeyPair { ek: '' @ show_ek (kp_ek pair) @ '', dk: '' @ secret_debug (kp_dk pair) @ '' }''"

definition opening_ephemeral_secret :: "jrc_prover_opening \<Rightarrow> u8 list" where
  "opening_ephemeral_secret opening = jo_ephemeral_secret opening"

definition opening_nonce :: "jrc_prover_opening \<Rightarrow> u8 list" where
  "opening_nonce opening = jo_nonce opening"

definition opening_debug :: "jrc_prover_opening \<Rightarrow> string" where
  "opening_debug opening = ''JrcProverOpening([redacted])''"

definition keygen :: "'m jrc_platform_scheme \<Rightarrow> u8 list option \<Rightarrow> judge_key_pair result" where
  "keygen P drawn =
     (case drawn of
        None \<Rightarrow> Inl error.Crypto
      | Some raw \<Rightarrow>
          let dk = secret_from_bytes raw;
              ek = to_public P dk
          in Inr \<lparr>kp_ek = ek, kp_dk = dk\<rparr>)"

section \<open>Committing\<close>

definition check_message_len :: "usize \<Rightarrow> unit result" where
  "check_message_len message_len =
     (if message_len > MAX_MESSAGE_LEN then Inl (TooLarge message_len MAX_MESSAGE_LEN) else Inr ())"

definition derive_keys :: "'m jrc_platform_scheme \<Rightarrow> u8 list \<Rightarrow> u8 list \<Rightarrow> u8 list \<Rightarrow> u8 list \<Rightarrow>
    u8 list \<times> u8 list" where
  "derive_keys P shared e_pk ek r =
     (let input = shared @ e_pk @ ek @ r;
          k_enc = blake3_derive_key P KDF_ENC_CTX input;
          k_com = blake3_derive_key P KDF_COM_CTX input
      in (k_enc, k_com))"

definition commit_value :: "'m jrc_platform_scheme \<Rightarrow> u8 list \<Rightarrow> u8 list \<Rightarrow> u8 list" where
  "commit_value P k_com m = blake3_keyed P k_com m"

definition commit_with_ephemeral :: "'m jrc_platform_scheme \<Rightarrow> judge_public_key \<Rightarrow> u8 list \<Rightarrow> u8 list \<Rightarrow>
    u8 list \<Rightarrow> jrc_commitment result" where
  "commit_with_ephemeral P ek m r e_sk =
     (case check_message_len (length m) of
        Inl e \<Rightarrow> Inl e
      | Inr _ \<Rightarrow>
          let e_pk = x_public P e_sk;
              shared = x_dh P e_sk (public_to_bytes ek)
          in if \<not> x_contributory P shared then Inl InvalidKey
             else let (k_enc, k_com) = derive_keys P shared e_pk (public_to_bytes ek) r;
                      c = commit_value P k_com m
               in case encrypt P k_enc r m c of
                    Inl _ \<Rightarrow> Inl error.Crypto
                  | Inr ct \<Rightarrow> Inr \<lparr>jc_commitment = c, jc_aux = e_pk @ r @ ct\<rparr>)"

definition commit_with_prover_opening :: "'m jrc_platform_scheme \<Rightarrow> judge_public_key \<Rightarrow> u8 list \<Rightarrow> u8 list \<Rightarrow>
    u8 list option \<Rightarrow> (jrc_commitment \<times> jrc_prover_opening) result" where
  "commit_with_prover_opening P ek m r drawn =
     (case check_message_len (length m) of
        Inl e \<Rightarrow> Inl e
      | Inr _ \<Rightarrow> (case drawn of
          None \<Rightarrow> Inl error.Crypto
        | Some e_sk \<Rightarrow> (case commit_with_ephemeral P ek m r e_sk of
            Inr commitment \<Rightarrow> Inr (commitment, \<lparr>jo_ephemeral_secret = e_sk, jo_nonce = r\<rparr>)
          | Inl error \<Rightarrow> Inl error)))"

definition commit :: "'m jrc_platform_scheme \<Rightarrow> judge_public_key \<Rightarrow> u8 list \<Rightarrow> u8 list \<Rightarrow> u8 list option \<Rightarrow>
    jrc_commitment result" where
  "commit P ek m r drawn =
     (case commit_with_prover_opening P ek m r drawn of
        Inl e \<Rightarrow> Inl e
      | Inr (commitment, opening) \<Rightarrow> Inr commitment)"

section \<open>Recovering\<close>

text \<open>\<open>split_at\<close> panics past the end of the slice; \<open>try_into\<close> an array fails on another length.\<close>

definition split_at :: "'a list \<Rightarrow> usize \<Rightarrow> ('a list \<times> 'a list) option" where
  "split_at xs mid = (if mid \<le> length xs then Some (take mid xs, drop mid xs) else None)"

definition try_array :: "usize \<Rightarrow> 'a list \<Rightarrow> 'a list option" where
  "try_array n xs = (if length xs = n then Some xs else None)"

definition verify_ext :: "u8 list \<Rightarrow> u8 list \<Rightarrow> bool" where
  "verify_ext c aux \<longleftrightarrow> length aux \<ge> EPHEMERAL_PK_LEN + NONCE_LEN + TAG_LEN \<and>
     length aux \<le> MAX_STREAM_BYTES - 4 - COMMIT_LEN"

definition judge_recover :: "'m jrc_platform_scheme \<Rightarrow> judge_secret_key \<Rightarrow> u8 list \<Rightarrow> u8 list \<Rightarrow>
    u8 list result option" where
  "judge_recover P dk c aux =
     (if length aux < EPHEMERAL_PK_LEN + NONCE_LEN + TAG_LEN then Some (Inl Truncated)
      else do {
        (e_pk_bytes, rest) \<leftarrow> split_at aux EPHEMERAL_PK_LEN;
        (r, ct) \<leftarrow> split_at rest NONCE_LEN;
        Some (case try_array EPHEMERAL_PK_LEN e_pk_bytes of
            None \<Rightarrow> Inl error.Crypto
          | Some e_pk \<Rightarrow> (case try_array NONCE_LEN r of
              None \<Rightarrow> Inl error.Crypto
            | Some r \<Rightarrow>
                let ek = x_public P (secret_to_bytes dk);
                    shared = x_dh P (secret_to_bytes dk) e_pk
                in if \<not> x_contributory P shared then Inl InvalidKey
                   else let (k_enc, k_com) = derive_keys P shared e_pk ek r
                     in case decrypt P k_enc r ct c of
                          Inl e \<Rightarrow> Inl e
                        | Inr m \<Rightarrow> if commit_value P k_com m \<noteq> c then Inl error.Crypto else Inr m)) })"

section \<open>The envelope\<close>

definition jrc_transmitted_len :: "jrc_commitment \<Rightarrow> usize" where
  "jrc_transmitted_len jc = length ENVELOPE_MAGIC + COMMIT_LEN + length (jc_aux jc)"

definition jrc_to_bytes :: "jrc_commitment \<Rightarrow> u8 list" where
  "jrc_to_bytes jc = ENVELOPE_MAGIC @ jc_commitment jc @ jc_aux jc"

definition jrc_from_bytes :: "u8 list \<Rightarrow> jrc_commitment result option" where
  "jrc_from_bytes bytes =
     (if length bytes > MAX_STREAM_BYTES then Some (Inl (TooLarge (length bytes) MAX_STREAM_BYTES))
      else if length bytes < ENVELOPE_OVERHEAD then Some (Inl Truncated)
      else do {
        magic \<leftarrow> slice bytes 0 (length ENVELOPE_MAGIC);
        if magic \<noteq> ENVELOPE_MAGIC then Some (Inl BadMagic)
        else do {
          c \<leftarrow> slice bytes (length ENVELOPE_MAGIC) (length ENVELOPE_MAGIC + COMMIT_LEN);
          commitment \<leftarrow> copy_from_slice (replicate COMMIT_LEN 0) c;
          aux \<leftarrow> slice bytes (length ENVELOPE_MAGIC + COMMIT_LEN) (length bytes);
          Some (Inr \<lparr>jc_commitment = commitment, jc_aux = aux\<rparr>) } })"

section \<open>Files for a judge\<close>

record jrc_packed_file =
  jp_envelope :: "u8 list"
  jp_original_size :: usize
  jp_transmitted_size :: usize

definition pack_file_jrc :: "'m jrc_platform_scheme \<Rightarrow> str \<Rightarrow> str \<Rightarrow> u8 list \<Rightarrow> judge_public_key \<Rightarrow> u8 list \<Rightarrow>
    u8 list option \<Rightarrow> jrc_packed_file result" where
  "pack_file_jrc P name mime_type bytes judge_pk nonce drawn =
     (case pack_file P name mime_type bytes of
        Inl e \<Rightarrow> Inl e
      | Inr inner \<Rightarrow>
          if length (po_container inner) > MAX_MESSAGE_LEN
          then Inl (TooLarge (length (po_container inner)) MAX_MESSAGE_LEN)
          else case commit P judge_pk (po_container inner) nonce drawn of
            Inl e \<Rightarrow> Inl e
          | Inr committed \<Rightarrow>
              let envelope = jrc_to_bytes committed
              in if length envelope > MAX_STREAM_BYTES
                 then Inl (TooLarge (length envelope) MAX_STREAM_BYTES)
                 else Inr \<lparr>jp_envelope = envelope, jp_original_size = length bytes,
                   jp_transmitted_size = length envelope\<rparr>)"

definition unpack_file_jrc :: "'m jrc_platform_scheme \<Rightarrow> u8 list \<Rightarrow> judge_secret_key \<Rightarrow>
    optical_file result option" where
  "unpack_file_jrc P envelope dk = do {
     parsed \<leftarrow> jrc_from_bytes envelope;
     case parsed of
       Inl e \<Rightarrow> Some (Inl e)
     | Inr committed \<Rightarrow> do {
         recovered \<leftarrow> judge_recover P dk (jc_commitment committed) (jc_aux committed);
         case recovered of
           Inl e \<Rightarrow> Some (Inl e)
         | Inr container \<Rightarrow> unpack_file P container } }"

section \<open>What the construction relies on\<close>

definition jrc_ok :: "'m jrc_platform_scheme \<Rightarrow> bool" where
  "jrc_ok P \<longleftrightarrow> aead_ok P \<and>
     (\<forall>a b. length a = 32 \<longrightarrow> length b = 32 \<longrightarrow> x_dh P a (x_public P b) = x_dh P b (x_public P a)) \<and>
     (\<forall>s. length s = 32 \<longrightarrow> length (x_public P s) = EPHEMERAL_PK_LEN) \<and>
     (\<forall>k m. length (blake3_keyed P k m) = COMMIT_LEN)"

lemmas jrc_sizes = COMMIT_LEN_def EPHEMERAL_PK_LEN_def ENVELOPE_OVERHEAD_def NONCE_LEN_def TAG_LEN_def
  MAX_MESSAGE_LEN_def MAX_STREAM_BYTES_def MAX_FILE_BYTES_def

lemma magic_len [simp, len_simps]: "length ENVELOPE_MAGIC = 4"
  by (simp add: ENVELOPE_MAGIC_def)

section \<open>The envelope is exact\<close>

definition jrc_valid :: "jrc_commitment \<Rightarrow> bool" where
  "jrc_valid jc \<longleftrightarrow> length (jc_commitment jc) = COMMIT_LEN \<and> verify_ext (jc_commitment jc) (jc_aux jc)"

lemma jrc_from_bytes_eq: "jrc_from_bytes bs =
    Some (if length bs > MAX_STREAM_BYTES then Inl (TooLarge (length bs) MAX_STREAM_BYTES)
      else if length bs < ENVELOPE_OVERHEAD then Inl Truncated
      else if take 4 bs \<noteq> ENVELOPE_MAGIC then Inl BadMagic
      else Inr \<lparr>jc_commitment = take 32 (drop 4 bs), jc_aux = drop 36 bs\<rparr>)"
proof (cases "length bs < ENVELOPE_OVERHEAD")
  case False
  then have "108 \<le> length bs" by (simp add: jrc_sizes)
  then have "slice bs 0 4 = Some (take 4 bs)" "slice bs 4 36 = Some (take 32 (drop 4 bs))"
    "slice bs 36 (length bs) = Some (drop 36 bs)" "length (take 32 (drop 4 bs)) = 32"
    by (simp_all add: slice_def)
  then show ?thesis by (simp add: jrc_from_bytes_def COMMIT_LEN_def copy_from_slice_def)
qed (simp add: jrc_from_bytes_def)

lemma jrc_length: "length (jc_commitment jc) = COMMIT_LEN \<Longrightarrow> length (jrc_to_bytes jc) = jrc_transmitted_len jc"
  by (simp add: jrc_to_bytes_def jrc_transmitted_len_def)

lemma jrc_valid_bytes: "jrc_valid jc \<Longrightarrow> ENVELOPE_OVERHEAD \<le> length (jrc_to_bytes jc) \<and> length (jrc_to_bytes jc) \<le> MAX_STREAM_BYTES"
  by (simp add: jrc_valid_def verify_ext_def jrc_to_bytes_def jrc_sizes)

interpretation envelope: wire_format jrc_to_bytes jrc_from_bytes jrc_valid
proof unfold_locales
  fix jc assume jc: "jrc_valid jc"
  have "length (jc_commitment jc) = 32" using jc by (simp add: jrc_valid_def COMMIT_LEN_def)
  then have "take 4 (jrc_to_bytes jc) = ENVELOPE_MAGIC" "take 32 (drop 4 (jrc_to_bytes jc)) = jc_commitment jc"
    "drop 36 (jrc_to_bytes jc) = jc_aux jc" by (simp_all add: jrc_to_bytes_def)
  then show "jrc_from_bytes (jrc_to_bytes jc) = Some (Inr jc)"
    using jrc_valid_bytes [OF jc] by (simp add: jrc_from_bytes_eq)
next
  fix bs jc assume "jrc_from_bytes bs = Some (Inr jc)"
  then have parts: "\<not> length bs > MAX_STREAM_BYTES" "\<not> length bs < ENVELOPE_OVERHEAD" "take 4 bs = ENVELOPE_MAGIC"
    "jc = \<lparr>jc_commitment = take 32 (drop 4 bs), jc_aux = drop 36 bs\<rparr>"
    by (simp_all add: jrc_from_bytes_eq split: if_splits)
  have "bs = take 4 bs @ take 32 (drop 4 bs) @ drop 36 bs"
    using append_take_drop_id [of 32 "drop 4 bs"] by simp
  then have "jrc_to_bytes jc = bs" by (simp add: jrc_to_bytes_def parts(4) flip: parts(3))
  moreover have "jrc_valid jc" using parts(1,2)
    by (simp add: jrc_valid_def verify_ext_def parts(4) jrc_sizes) linarith
  ultimately show "jrc_valid jc \<and> jrc_to_bytes jc = bs" by simp
qed (simp add: jrc_from_bytes_eq)

section \<open>Recovery\<close>

text \<open>What the judge does with the parts of a long enough \<open>aux\<close>.\<close>

definition open_transcript :: "'m jrc_platform_scheme \<Rightarrow> judge_secret_key \<Rightarrow> u8 list \<Rightarrow> u8 list \<Rightarrow> u8 list \<Rightarrow> u8 list \<Rightarrow>
    u8 list result" where
  "open_transcript P dk c e_pk r ct =
     (let shared = x_dh P (secret_to_bytes dk) e_pk
      in if \<not> x_contributory P shared then Inl InvalidKey
         else let (k_enc, k_com) = derive_keys P shared e_pk (x_public P (secret_to_bytes dk)) r
           in case decrypt P k_enc r ct c of
                Inl e \<Rightarrow> Inl e
              | Inr m \<Rightarrow> if commit_value P k_com m \<noteq> c then Inl error.Crypto else Inr m)"

lemma judge_recover_eq: "judge_recover P dk c aux =
    Some (if length aux < 72 then Inl Truncated
      else open_transcript P dk c (take 32 aux) (take 24 (drop 32 aux)) (drop 56 aux))"
proof (cases "length aux < 72")
  case False
  then have "split_at aux 32 = Some (take 32 aux, drop 32 aux)"
    "split_at (drop 32 aux) 24 = Some (take 24 (drop 32 aux), drop 56 aux)"
    "try_array 32 (take 32 aux) = Some (take 32 aux)" "try_array 24 (take 24 (drop 32 aux)) = Some (take 24 (drop 32 aux))"
    by (simp_all add: split_at_def try_array_def)
  then show ?thesis using False
    by (simp add: judge_recover_def EPHEMERAL_PK_LEN_def NONCE_LEN_def TAG_LEN_def open_transcript_def Let_def)
qed (simp add: judge_recover_def EPHEMERAL_PK_LEN_def NONCE_LEN_def TAG_LEN_def)

definition transcript_key :: "'m jrc_platform_scheme \<Rightarrow> judge_secret_key \<Rightarrow> u8 list \<Rightarrow> u8 list" where
  "transcript_key P dk aux = snd (derive_keys P (x_dh P (secret_to_bytes dk) (take 32 aux)) (take 32 aux)
     (x_public P (secret_to_bytes dk)) (take 24 (drop 32 aux)))"

lemma judge_recover_binds:
  assumes "judge_recover P dk c aux = Some (Inr m)"
  shows "72 \<le> length aux" and "blake3_keyed P (transcript_key P dk aux) m = c"
  using assms
  by (simp_all add: judge_recover_eq open_transcript_def transcript_key_def Let_def commit_value_def
      split: if_splits prod.splits sum.splits)

lemma judge_recover_total: "\<exists>res. judge_recover P dk c aux = Some res \<and>
    (case res of Inl e \<Rightarrow> e \<in> {Truncated, InvalidKey, error.Crypto} | Inr m \<Rightarrow> True)"
  by (auto simp: judge_recover_eq open_transcript_def Let_def decrypt_def split: prod.splits sum.splits option.splits)

lemma commit_ephemeral_ok:
  assumes "jrc_ok P" and "length (secret_to_bytes dk) = 32" and "length e_sk = 32" and "length r = NONCE_LEN"
    and "commit_with_ephemeral P (to_public P dk) m r e_sk = Inr jc"
  shows "judge_recover P dk (jc_commitment jc) (jc_aux jc) = Some (Inr m)" and "jrc_valid jc"
    and "length (jc_aux jc) = 72 + length m" and "length m \<le> MAX_MESSAGE_LEN"
proof -
  let ?e = "x_public P e_sk" and ?s = "x_dh P e_sk (x_public P (secret_to_bytes dk))" and ?ek = "x_public P (secret_to_bytes dk)"
  have len: "\<not> length m > MAX_MESSAGE_LEN" and con: "x_contributory P ?s"
    using assms(5) by (auto simp: commit_with_ephemeral_def check_message_len_def to_public_def Let_def split: if_splits)
  obtain k_enc k_com where keys: "derive_keys P ?s ?e ?ek r = (k_enc, k_com)" by fastforce
  obtain ct where ct: "encrypt P k_enc r m (commit_value P k_com m) = Inr ct"
    and jc: "jc = \<lparr>jc_commitment = commit_value P k_com m, jc_aux = ?e @ r @ ct\<rparr>"
    using assms(5) len con keys
    by (auto simp: commit_with_ephemeral_def check_message_len_def to_public_def Let_def split: sum.splits)
  have ok: "aead_ok P" "x_dh P (secret_to_bytes dk) ?e = ?s" "length ?e = 32" "length (commit_value P k_com m) = COMMIT_LEN"
    using assms(1-3) by (simp_all add: jrc_ok_def EPHEMERAL_PK_LEN_def commit_value_def)
  note sealed = encrypt_decrypt [OF ok(1) ct]
  have r: "length r = 24" using assms(4) by (simp add: NONCE_LEN_def)
  show aux: "length (jc_aux jc) = 72 + length m" using sealed(2) ok(3) r by (simp add: jc TAG_LEN_def)
  have "take 32 (jc_aux jc) = ?e" "take 24 (drop 32 (jc_aux jc)) = r" "drop 56 (jc_aux jc) = ct"
    using ok(3) r by (simp_all add: jc)
  then show "judge_recover P dk (jc_commitment jc) (jc_aux jc) = Some (Inr m)"
    using aux con keys ok(2) sealed(1) by (simp add: judge_recover_eq open_transcript_def jc)
  show "length m \<le> MAX_MESSAGE_LEN" using len by simp
  then show "jrc_valid jc" using aux ok(4) by (simp add: jrc_valid_def verify_ext_def jc jrc_sizes)
qed

lemma commit_ok:
  assumes "commit P ek m r drawn = Inr jc"
  shows "\<exists>e_sk. drawn = Some e_sk \<and> commit_with_ephemeral P ek m r e_sk = Inr jc"
  using assms by (auto simp: commit_def commit_with_prover_opening_def split: sum.splits option.splits)

lemma unpack_judged:
  assumes "dcf_codec_ok P" and "gzip_ok P" and "digest_ok P" and "jrc_ok P" and "list_all scalar name"
    and "length (secret_to_bytes dk) = 32" and "length e_sk = 32" and "length nonce = NONCE_LEN"
    and "pack_file_jrc P name mime_type bytes (to_public P dk) nonce (Some e_sk) = Inr packed"
  shows "\<exists>f. unpack_file_jrc P (jp_envelope packed) dk = Some (Inr f) \<and> of_bytes f = bytes \<and>
    of_digest f = blake3 P bytes \<and> of_name f = safe_file_name (safe_file_name name) \<and>
    normalize_mime_type mime_type = Inr (of_mime_type f) \<and> \<not> of_encrypted f \<and>
    jp_original_size packed = length bytes \<and> jp_transmitted_size packed = length (jp_envelope packed) \<and>
    0 < length (jp_envelope packed) \<and> length (jp_envelope packed) \<le> MAX_STREAM_BYTES"
proof -
  obtain inner jc where inner: "pack_file P name mime_type bytes = Inr inner"
    and jc: "commit P (to_public P dk) (po_container inner) nonce (Some e_sk) = Inr jc"
    and packed: "packed = \<lparr>jp_envelope = jrc_to_bytes jc, jp_original_size = length bytes,
      jp_transmitted_size = length (jrc_to_bytes jc)\<rparr>"
    using assms(9) by (auto simp: pack_file_jrc_def Let_def split: sum.splits if_splits)
  from commit_ok [OF jc] have c: "commit_with_ephemeral P (to_public P dk) (po_container inner) nonce e_sk = Inr jc" by simp
  note opened = commit_ephemeral_ok [OF assms(4,6,7,8) c]
  have plain: "po_encrypted inner = False" using inner by (auto simp: pack_file_def Let_def split: sum.splits)
  from unpack_plain [OF assms(1,2,3,5) inner, of None] obtain mime where
    u: "normalize_mime_type mime_type = Inr mime"
    "unpack_impl P (po_container inner) None = Some (Inr (unpacked P name mime bytes inner))" by blast
  have "unpack_file_jrc P (jrc_to_bytes jc) dk = Some (Inr (unpacked P name mime bytes inner))"
    using envelope.parse_unparse [OF opened(2)] opened(1) u(2) by (simp add: unpack_file_jrc_def unpack_file_def)
  moreover have "0 < length (jrc_to_bytes jc)" by (simp add: jrc_to_bytes_def ENVELOPE_MAGIC_def)
  ultimately show ?thesis using jrc_valid_bytes [OF opened(2)] u(1) plain
    by (intro exI [of _ "unpacked P name mime bytes inner"]) (simp add: packed unpacked_def)
qed

section \<open>Instances\<close>

text \<open>A group in which both sides add their secrets, and a hash that keeps nothing of the message.\<close>

definition plain_jrc :: jrc_platform where
  "plain_jrc = container_platform.extend plain_container \<lparr>x_public = (\<lambda>s. s), x_dh = (\<lambda>s p. map2 (+) s p),
     x_contributory = (\<lambda>shared. True), blake3_derive_key = (\<lambda>ctx input. take 32 input),
     blake3_keyed = (\<lambda>k m. replicate 32 0)\<rparr>"

lemma plain_jrc_ok: "jrc_ok plain_jrc"
proof -
  have "map2 (+) a b = map2 (+) b (a :: u8 list)" for a b
    by (subst zip_commute) (simp add: comp_def split_def add.commute)
  then show ?thesis
    by (simp add: jrc_ok_def aead_ok_def plain_jrc_def plain_container_defs container_platform.defs TAG_LEN_def
        COMMIT_LEN_def EPHEMERAL_PK_LEN_def)
qed

lemma plain_jrc_fields:
  "feature_std plain_jrc = feature_std plain_container" "blake3 plain_jrc = blake3 plain_container"
  "dcf_serialize plain_jrc = dcf_serialize plain_container" "dcf_deserialize plain_jrc = dcf_deserialize plain_container"
  "gz_write_all plain_jrc = gz_write_all plain_container" "gz_finish plain_jrc = gz_finish plain_container"
  "gz_read plain_jrc = gz_read plain_container" "aead_encrypt plain_jrc = aead_encrypt plain_container"
  by (simp_all add: plain_jrc_def container_platform.defs)

lemma plain_jrc_contracts: "dcf_codec_ok plain_jrc" "gzip_ok plain_jrc" "digest_ok plain_jrc"
  using plain_codec plain_gzip plain_digest
  unfolding dcf_codec_ok_def gzip_ok_def gzip_def gz_yields_def digest_ok_def plain_jrc_fields .

lemma digest_len: "length (blake3 plain_container bs) = 32"
  using plain_digest by (simp add: digest_ok_def)

lemma mime_len: "length (utf8_bytes DEFAULT_MIME) = 24"
  by (simp add: DEFAULT_MIME_def ascii_def utf8_bytes_def utf8_char_def)

lemma plain_jrc_pack: "pack_file plain_jrc [97] [] [1, 2, 3] = pack_file plain_container [97] [] [1, 2, 3]"
  unfolding pack_file_def prepare_def gzip_def assemble_container_def plain_jrc_fields ..

lemma plain_pack_small: "\<exists>inner. pack_file plain_container [97] [] [1, 2, 3] = Inr inner \<and> length (po_container inner) \<le> 1000"
  by (simp add: pack_file_def plain_prepare assemble_container_def plain_fields dcf_layout_def digest_len
      FILE_MAGIC_def NONCE_LEN_def mime_len)

lemma plain_commit:
  assumes "length m \<le> MAX_MESSAGE_LEN"
  shows "\<exists>jc. commit_with_ephemeral plain_jrc ek m r e_sk = Inr jc"
proof -
  have "x_contributory plain_jrc s" for s by (simp add: plain_jrc_def container_platform.defs)
  then show ?thesis using assms
    by (simp add: commit_with_ephemeral_def check_message_len_def derive_keys_def encrypt_def
        plain_jrc_fields plain_fields Let_def)
qed

lemma plain_judged:
  "\<exists>packed. pack_file_jrc plain_jrc [97] [] [1, 2, 3] (to_public plain_jrc (JudgeSecretKey (replicate 32 5)))
       (replicate 24 7) (Some (replicate 32 6)) = Inr packed \<and>
     length (jp_envelope packed) \<le> 2000 \<and> jp_envelope packed \<noteq> []"
proof -
  let ?dk = "JudgeSecretKey (replicate 32 5)"
  obtain inner where inner: "pack_file plain_jrc [97] [] [1, 2, 3] = Inr inner" "length (po_container inner) \<le> 1000"
    using plain_pack_small unfolding plain_jrc_pack by blast
  then have small: "length (po_container inner) \<le> MAX_MESSAGE_LEN" by (simp add: jrc_sizes)
  obtain jc where c: "commit_with_ephemeral plain_jrc (to_public plain_jrc ?dk) (po_container inner) (replicate 24 7)
      (replicate 32 6) = Inr jc" using plain_commit [OF small] by blast
  have k: "length (secret_to_bytes ?dk) = 32" "length (replicate 32 (6 :: u8)) = 32" "length (replicate 24 (7 :: u8)) = NONCE_LEN"
    by (simp_all add: NONCE_LEN_def)
  note opened = commit_ephemeral_ok [OF plain_jrc_ok k c]
  have len: "length (jrc_to_bytes jc) = ENVELOPE_OVERHEAD + length (po_container inner)"
    using opened(2,3) by (simp add: jrc_to_bytes_def jrc_valid_def jrc_sizes)
  have "length (jrc_to_bytes jc) \<le> MAX_STREAM_BYTES" using jrc_valid_bytes [OF opened(2)] by simp
  moreover have "length (jrc_to_bytes jc) \<le> 2000" "jrc_to_bytes jc \<noteq> []"
    using len inner(2) by (simp_all add: jrc_sizes jrc_to_bytes_def ENVELOPE_MAGIC_def)
  ultimately show ?thesis using inner(1) small c
    by (simp add: pack_file_jrc_def commit_def commit_with_prover_opening_def check_message_len_def Let_def)
qed

section \<open>Properties\<close>

text \<open>C14: the judge recovers exactly the committed message from an honest transcript; the transcript
  passes the public format check, survives serialisation, has the announced length and fits one
  stream.\<close>

theorem judge_recovers_commitment:
  assumes "jrc_ok P" and "length raw = 32" and "keygen P (Some raw) = Inr pair"
    and "length e_sk = 32" and "length r = NONCE_LEN" and "commit P (kp_ek pair) m r (Some e_sk) = Inr jc"
  shows "judge_recover P (kp_dk pair) (jc_commitment jc) (jc_aux jc) = Some (Inr m) \<and>
    verify_ext (jc_commitment jc) (jc_aux jc) \<and> jrc_from_bytes (jrc_to_bytes jc) = Some (Inr jc) \<and>
    envelope_len (length m) = Some (length (jrc_to_bytes jc)) \<and>
    length (jrc_to_bytes jc) = jrc_transmitted_len jc \<and> length (jrc_to_bytes jc) \<le> MAX_STREAM_BYTES"
proof -
  have pair: "kp_ek pair = to_public P (kp_dk pair)" "length (secret_to_bytes (kp_dk pair)) = 32"
    using assms(2,3) by (auto simp: keygen_def secret_from_bytes_def Let_def)
  from commit_ok [OF assms(6)] have c: "commit_with_ephemeral P (to_public P (kp_dk pair)) m r e_sk = Inr jc"
    by (simp add: pair(1))
  note opened = commit_ephemeral_ok [OF assms(1) pair(2) assms(4,5) c]
  have v: "length (jc_commitment jc) = COMMIT_LEN" "verify_ext (jc_commitment jc) (jc_aux jc)"
    using opened(2) by (simp_all add: jrc_valid_def)
  have len: "length (jrc_to_bytes jc) = ENVELOPE_OVERHEAD + length m"
    using opened(3) by (simp add: jrc_length [OF v(1)] jrc_transmitted_len_def jrc_sizes)
  then have "envelope_len (length m) = Some (length (jrc_to_bytes jc))"
    using opened(4) by (simp add: envelope_len_def checked_add_def usize_max_def jrc_sizes)
  then show ?thesis
    using opened(1) v(2) envelope.parse_unparse [OF opened(2)] jrc_length [OF v(1)] jrc_valid_bytes [OF opened(2)] by blast
qed

theorem judge_recovers_commitment_witness:
  "\<exists>pair jc. keygen plain_jrc (Some (replicate 32 5)) = Inr pair \<and>
     commit plain_jrc (kp_ek pair) [1, 2, 3] (replicate 24 7) (Some (replicate 32 6)) = Inr jc \<and>
     judge_recover plain_jrc (kp_dk pair) (jc_commitment jc) (jc_aux jc) = Some (Inr [1, 2, 3])"
proof -
  obtain pair where p: "keygen plain_jrc (Some (replicate 32 5)) = Inr pair" by (simp add: keygen_def Let_def)
  have small: "length [1, 2, 3 :: u8] \<le> MAX_MESSAGE_LEN" by (simp add: jrc_sizes)
  obtain jc where c: "commit_with_ephemeral plain_jrc (kp_ek pair) [1, 2, 3] (replicate 24 7) (replicate 32 6) = Inr jc"
    using plain_commit [OF small] by blast
  then have "commit plain_jrc (kp_ek pair) [1, 2, 3] (replicate 24 7) (Some (replicate 32 6)) = Inr jc"
    using small by (simp add: commit_def commit_with_prover_opening_def check_message_len_def)
  moreover have "length (replicate 24 (7 :: u8)) = NONCE_LEN" by (simp add: NONCE_LEN_def)
  ultimately show ?thesis
    using judge_recovers_commitment [OF plain_jrc_ok _ p, of "replicate 32 6" "replicate 24 7" "[1, 2, 3]" jc] p by auto
qed

text \<open>C32: parsing an envelope never panics and accepts exactly the serialised transcripts: a
  commitment of 32 bytes with an \<open>aux\<close> that passes the format check. No other byte string is
  accepted, and no two transcripts share their bytes.\<close>

theorem jrc_envelope_exact:
  "(jrc_from_bytes bs = Some (Inr jc) \<longleftrightarrow>
      length (jc_commitment jc) = COMMIT_LEN \<and> verify_ext (jc_commitment jc) (jc_aux jc) \<and> jrc_to_bytes jc = bs) \<and>
   ((\<exists>e. jrc_from_bytes bs = Some (Inl e)) \<longleftrightarrow>
      (\<nexists>jc. length (jc_commitment jc) = COMMIT_LEN \<and> verify_ext (jc_commitment jc) (jc_aux jc) \<and> jrc_to_bytes jc = bs))"
  using envelope.parse_iff [of bs jc] envelope.rejects [of bs] unfolding jrc_valid_def by (simp only: conj_assoc)

text \<open>C15: recovery never panics; it answers with one of three errors or with a message that the
  commitment was checked against, under a contributory key agreement. So it binds up to hash
  collisions: if a second transcript with the same commitment opens to another message, for this
  judge or another, the keyed hash collides on the two messages under the keys of the transcripts.\<close>

theorem judge_recover_binding:
  "\<exists>res. judge_recover P dk c aux = Some res \<and>
     (case res of
        Inl e \<Rightarrow> e \<in> {Truncated, InvalidKey, error.Crypto}
      | Inr m \<Rightarrow> x_contributory P (x_dh P (secret_to_bytes dk) (take 32 aux)) \<and>
          commit_value P (transcript_key P dk aux) m = c \<and>
          (\<forall>dk' aux' m'. judge_recover P dk' c aux' = Some (Inr m') \<and> m' \<noteq> m \<longrightarrow>
             commit_value P (transcript_key P dk' aux') m' = commit_value P (transcript_key P dk aux) m))"
proof -
  obtain res where res: "judge_recover P dk c aux = Some res"
    "case res of Inl e \<Rightarrow> e \<in> {Truncated, InvalidKey, error.Crypto} | Inr m \<Rightarrow> True"
    using judge_recover_total by blast
  have "x_contributory P (x_dh P (secret_to_bytes dk) (take 32 aux))" if "res = Inr m" for m
    using res(1) that by (simp add: judge_recover_eq open_transcript_def Let_def split: if_splits)
  moreover have "commit_value P (transcript_key P dk aux) m = c" if "judge_recover P dk c aux = Some (Inr m)" for dk aux m
    using judge_recover_binds(2) [OF that] by (simp add: commit_value_def)
  ultimately show ?thesis using res by (cases res) auto
qed

theorem judge_recover_binding_witness:
  "\<exists>k k'. commit_value plain_jrc k [1] = commit_value plain_jrc k' [2]"
proof -
  let ?aux = "\<lambda>m. replicate 56 (0 :: u8) @ [m] @ replicate 16 0"
  have open_aux: "judge_recover plain_jrc dk (replicate 32 0) (?aux m) = Some (Inr [m])" for dk m
    by (simp add: judge_recover_eq open_transcript_def derive_keys_def decrypt_def commit_value_def
        plain_jrc_def plain_container_defs container_platform.defs Let_def)
  have first: "judge_recover plain_jrc (JudgeSecretKey []) (replicate 32 0) (?aux 1) = Some (Inr [1])" by (rule open_aux)
  obtain k where k: "commit_value plain_jrc k [1] = replicate 32 0"
    "\<forall>dk' aux' m'. judge_recover plain_jrc dk' (replicate 32 0) aux' = Some (Inr m') \<and> m' \<noteq> [1] \<longrightarrow>
       commit_value plain_jrc (transcript_key plain_jrc dk' aux') m' = commit_value plain_jrc k [1]"
  proof (rule that [of "transcript_key plain_jrc (JudgeSecretKey []) (?aux 1)"], goal_cases)
    case 1
    from judge_recover_binding [of plain_jrc "JudgeSecretKey []" "replicate 32 0" "?aux 1"] first show ?case by auto
  next
    case 2
    from judge_recover_binding [of plain_jrc "JudgeSecretKey []" "replicate 32 0" "?aux 1"] first show ?case by auto
  qed
  have "commit_value plain_jrc (transcript_key plain_jrc (JudgeSecretKey []) (?aux 2)) [2] = commit_value plain_jrc k [1]"
    by (rule k(2) [rule_format]) (use open_aux [of "JudgeSecretKey []" 2] in simp)
  then show ?thesis by (intro exI) (rule sym)
qed

text \<open>A file packed for a judge is recovered by the judge's secret key with its bytes, digest,
  media type and sanitised name, and its envelope fits one stream.\<close>

theorem jrc_file_roundtrip:
  assumes "dcf_codec_ok P" and "gzip_ok P" and "digest_ok P" and "jrc_ok P" and "list_all scalar name"
    and "length (secret_to_bytes dk) = 32" and "length e_sk = 32" and "length nonce = NONCE_LEN"
    and "pack_file_jrc P name mime_type bytes (to_public P dk) nonce (Some e_sk) = Inr packed"
  shows "\<exists>f. unpack_file_jrc P (jp_envelope packed) dk = Some (Inr f) \<and> of_bytes f = bytes \<and>
    of_digest f = blake3 P bytes \<and> of_name f = safe_file_name (safe_file_name name) \<and>
    normalize_mime_type mime_type = Inr (of_mime_type f) \<and> \<not> of_encrypted f \<and>
    jp_original_size packed = length bytes \<and> jp_transmitted_size packed = length (jp_envelope packed) \<and>
    0 < length (jp_envelope packed) \<and> length (jp_envelope packed) \<le> MAX_STREAM_BYTES"
  using assms by (rule unpack_judged)

theorem jrc_file_roundtrip_witness:
  "\<exists>packed f. pack_file_jrc plain_jrc [97] [] [1, 2, 3] (to_public plain_jrc (JudgeSecretKey (replicate 32 5)))
       (replicate 24 7) (Some (replicate 32 6)) = Inr packed \<and>
     unpack_file_jrc plain_jrc (jp_envelope packed) (JudgeSecretKey (replicate 32 5)) = Some (Inr f) \<and> of_bytes f = [1, 2, 3]"
proof -
  let ?dk = "JudgeSecretKey (replicate 32 5)"
  have k: "length (secret_to_bytes ?dk) = 32" "length (replicate 32 (6 :: u8)) = 32" "length (replicate 24 (7 :: u8)) = NONCE_LEN"
    "list_all scalar [97]" by (simp_all add: NONCE_LEN_def scalar_def)
  obtain packed where p: "pack_file_jrc plain_jrc [97] [] [1, 2, 3] (to_public plain_jrc ?dk) (replicate 24 7)
      (Some (replicate 32 6)) = Inr packed" using plain_judged by blast
  from jrc_file_roundtrip [OF plain_jrc_contracts plain_jrc_ok k(4,1,2,3) p] p show ?thesis by blast
qed

end
