(* ===== verification/Jrp.thy ===== *)
theory Jrp
  imports Jrc
begin

text \<open>
  The judge-recoverable proof (\<open>src/jrp.rs\<close>): a JRC transcript together with a proof made by a
  relation-proof backend that the application supplies. The backend is the trait
  \<open>RelationProofSystem\<close>; it is a record of its two methods, an argument of the operations, with
  the type of its private witness as a parameter. Nothing is assumed of it: the theorems hold for
  every backend, sound or not.

  Not modelled: the computational claims of the module, which are reductions to the security of the
  backend.
\<close>

section \<open>Constants and types\<close>

definition PROOF_MAGIC :: "u8 list" where "PROOF_MAGIC = [0x4a, 0x52, 0x50, 2]"
definition PROOF_OVERHEAD :: usize where "PROOF_OVERHEAD = 8"
definition MAX_RELATION_PROOF_LEN :: usize where
  "MAX_RELATION_PROOF_LEN = MAX_STREAM_BYTES - PROOF_OVERHEAD - ENVELOPE_OVERHEAD"

record jrp_public_input =
  pi_judge_key :: judge_public_key
  pi_statement :: "u8 list"
  pi_commitment :: jrc_commitment

record 'w relation_proof_system =
  rp_prove :: "jrp_public_input \<Rightarrow> 'w \<Rightarrow> u8 list \<Rightarrow> jrc_prover_opening \<Rightarrow> u8 list result"
  rp_verify :: "jrp_public_input \<Rightarrow> u8 list \<Rightarrow> bool"

record jrp_proof =
  jr_relation_proof :: "u8 list"
  jr_commitment :: jrc_commitment

definition jrp_relation_proof :: "jrp_proof \<Rightarrow> u8 list" where
  "jrp_relation_proof proof_data = jr_relation_proof proof_data"

definition jrp_commitment :: "jrp_proof \<Rightarrow> jrc_commitment" where
  "jrp_commitment proof_data = jr_commitment proof_data"

section \<open>The transcript\<close>

definition jrp_transmitted_len :: "jrp_proof \<Rightarrow> usize" where
  "jrp_transmitted_len p = PROOF_OVERHEAD + length (jr_relation_proof p) + jrc_transmitted_len (jr_commitment p)"

definition jrp_to_bytes :: "jrp_proof \<Rightarrow> u8 list" where
  "jrp_to_bytes p = PROOF_MAGIC @ le_bytes32 (word_of_nat (length (jr_relation_proof p))) @
     jr_relation_proof p @ jrc_to_bytes (jr_commitment p)"

definition proof_length :: "u8 list \<Rightarrow> usize result option" where
  "proof_length bytes = do {
     b \<leftarrow> slice bytes 4 8;
     Some (case try_array 4 b of
         None \<Rightarrow> Inl Truncated
       | Some a \<Rightarrow> Inr (unat (of_le32 (a ! 0) (a ! 1) (a ! 2) (a ! 3)))) }"

definition jrp_from_bytes :: "u8 list \<Rightarrow> jrp_proof result option" where
  "jrp_from_bytes bytes =
     (if length bytes > MAX_STREAM_BYTES then Some (Inl (TooLarge (length bytes) MAX_STREAM_BYTES))
      else if length bytes < PROOF_OVERHEAD + ENVELOPE_OVERHEAD then Some (Inl Truncated)
      else do {
        magic \<leftarrow> slice bytes 0 (length PROOF_MAGIC);
        if magic \<noteq> PROOF_MAGIC then Some (Inl BadMagic)
        else do {
          len \<leftarrow> proof_length bytes;
          case len of
            Inl e \<Rightarrow> Some (Inl e)
          | Inr proof_len \<Rightarrow>
              if proof_len > MAX_RELATION_PROOF_LEN then Some (Inl (TooLarge proof_len MAX_RELATION_PROOF_LEN))
              else case checked_add PROOF_OVERHEAD proof_len of
                None \<Rightarrow> Some (Inl Lengths)
              | Some proof_end \<Rightarrow>
                  if length bytes - proof_end < ENVELOPE_OVERHEAD then Some (Inl Truncated)
                  else do {
                    rest \<leftarrow> slice bytes proof_end (length bytes);
                    parsed \<leftarrow> jrc_from_bytes rest;
                    case parsed of
                      Inl e \<Rightarrow> Some (Inl e)
                    | Inr commitment \<Rightarrow> do {
                        relation_proof \<leftarrow> slice bytes PROOF_OVERHEAD proof_end;
                        Some (Inr \<lparr>jr_relation_proof = relation_proof, jr_commitment = commitment\<rparr>) } } } })"

section \<open>Proving, verifying, recovering\<close>

definition jrp_prove :: "'m jrc_platform_scheme \<Rightarrow> 'w relation_proof_system \<Rightarrow> judge_public_key \<Rightarrow> u8 list \<Rightarrow> 'w \<Rightarrow>
    u8 list \<Rightarrow> u8 list \<Rightarrow> u8 list option \<Rightarrow> jrp_proof result" where
  "jrp_prove P system ek statement witness output nonce drawn =
     (case commit_with_prover_opening P ek output nonce drawn of
        Inl e \<Rightarrow> Inl e
      | Inr (commitment, opening) \<Rightarrow>
          let public = \<lparr>pi_judge_key = ek, pi_statement = statement, pi_commitment = commitment\<rparr>
          in case rp_prove system public witness output opening of
               Inl e \<Rightarrow> Inl e
             | Inr relation_proof \<Rightarrow>
                 if length relation_proof > MAX_RELATION_PROOF_LEN
                 then Inl (TooLarge (length relation_proof) MAX_RELATION_PROOF_LEN)
                 else if \<not> rp_verify system public relation_proof then Inl InvalidProof
                 else let transcript = \<lparr>jr_relation_proof = relation_proof, jr_commitment = commitment\<rparr>
                   in if jrp_transmitted_len transcript > MAX_STREAM_BYTES
                      then Inl (TooLarge (jrp_transmitted_len transcript) MAX_STREAM_BYTES)
                      else Inr transcript)"

definition jrp_verify_ext :: "'w relation_proof_system \<Rightarrow> judge_public_key \<Rightarrow> u8 list \<Rightarrow> jrp_proof \<Rightarrow> bool" where
  "jrp_verify_ext system ek statement p \<longleftrightarrow>
     verify_ext (jc_commitment (jr_commitment p)) (jc_aux (jr_commitment p)) \<and>
     rp_verify system \<lparr>pi_judge_key = ek, pi_statement = statement, pi_commitment = jr_commitment p\<rparr>
       (jr_relation_proof p)"

definition jrp_judge_recover :: "'m jrc_platform_scheme \<Rightarrow> 'w relation_proof_system \<Rightarrow> judge_secret_key \<Rightarrow> u8 list \<Rightarrow>
    jrp_proof \<Rightarrow> u8 list result option" where
  "jrp_judge_recover P system dk statement p =
     (let ek = to_public P dk
      in if \<not> jrp_verify_ext system ek statement p then Some (Inl InvalidProof)
         else judge_recover P dk (jc_commitment (jr_commitment p)) (jc_aux (jr_commitment p)))"

section \<open>The transcript format is exact\<close>

definition jrp_valid :: "jrp_proof \<Rightarrow> bool" where
  "jrp_valid p \<longleftrightarrow> jrc_valid (jr_commitment p) \<and> jrp_transmitted_len p \<le> MAX_STREAM_BYTES"

lemma proof_magic_len [simp, len_simps]: "length PROOF_MAGIC = 4"
  by (simp add: PROOF_MAGIC_def)

lemma jrp_length: "jrc_valid (jr_commitment p) \<Longrightarrow> length (jrp_to_bytes p) = jrp_transmitted_len p"
  using jrc_length [of "jr_commitment p"]
  by (simp add: jrp_to_bytes_def jrp_transmitted_len_def jrc_valid_def PROOF_OVERHEAD_def)

lemma jrp_valid_bytes:
  assumes "jrp_valid p"
  shows "length (jrp_to_bytes p) \<le> MAX_STREAM_BYTES" and "length (jr_relation_proof p) \<le> MAX_RELATION_PROOF_LEN"
    and "length (jrp_to_bytes p) = PROOF_OVERHEAD + length (jr_relation_proof p) + length (jrc_to_bytes (jr_commitment p))"
    and "ENVELOPE_OVERHEAD \<le> length (jrc_to_bytes (jr_commitment p))"
proof -
  have v: "jrc_valid (jr_commitment p)" "jrp_transmitted_len p \<le> MAX_STREAM_BYTES" using assms by (simp_all add: jrp_valid_def)
  show len: "length (jrp_to_bytes p) \<le> MAX_STREAM_BYTES" using v(2) by (simp add: jrp_length [OF v(1)])
  show parts: "length (jrp_to_bytes p) = PROOF_OVERHEAD + length (jr_relation_proof p) + length (jrc_to_bytes (jr_commitment p))"
    by (simp add: jrp_to_bytes_def PROOF_OVERHEAD_def)
  show env: "ENVELOPE_OVERHEAD \<le> length (jrc_to_bytes (jr_commitment p))" using jrc_valid_bytes [OF v(1)] by blast
  show "length (jr_relation_proof p) \<le> MAX_RELATION_PROOF_LEN"
    unfolding MAX_RELATION_PROOF_LEN_def using len parts env by linarith
qed

text \<open>The announced length of the relation proof.\<close>

definition announced_len :: "u8 list \<Rightarrow> usize" where
  "announced_len bs = unat (of_le32 (bs ! 4) (bs ! 5) (bs ! 6) (bs ! 7))"

lemma proof_length_eq: "8 \<le> length bs \<Longrightarrow> proof_length bs = Some (Inr (announced_len bs))"
  by (simp add: proof_length_def slice_def try_array_def announced_len_def)

lemma jrp_from_bytes_eq: "jrp_from_bytes bs =
    (if length bs > MAX_STREAM_BYTES then Some (Inl (TooLarge (length bs) MAX_STREAM_BYTES))
     else if length bs < PROOF_OVERHEAD + ENVELOPE_OVERHEAD then Some (Inl Truncated)
     else if take 4 bs \<noteq> PROOF_MAGIC then Some (Inl BadMagic)
     else if announced_len bs > MAX_RELATION_PROOF_LEN then Some (Inl (TooLarge (announced_len bs) MAX_RELATION_PROOF_LEN))
     else if length bs < 8 + announced_len bs + ENVELOPE_OVERHEAD then Some (Inl Truncated)
     else case jrc_from_bytes (drop (8 + announced_len bs) bs) of
         None \<Rightarrow> None
       | Some (Inl e) \<Rightarrow> Some (Inl e)
       | Some (Inr jc) \<Rightarrow> Some (Inr \<lparr>jr_relation_proof = take (announced_len bs) (drop 8 bs), jr_commitment = jc\<rparr>))"
proof (cases "length bs < PROOF_OVERHEAD + ENVELOPE_OVERHEAD \<or> announced_len bs > MAX_RELATION_PROOF_LEN \<or>
    length bs < 8 + announced_len bs + ENVELOPE_OVERHEAD")
  case False
  then have big: "8 \<le> length bs" "8 + announced_len bs + ENVELOPE_OVERHEAD \<le> length bs" by (simp_all add: PROOF_OVERHEAD_def)
  have "8 + announced_len bs \<le> usize_max"
    using False by (simp add: MAX_RELATION_PROOF_LEN_def PROOF_OVERHEAD_def jrc_sizes usize_max_def)
  then have "checked_add PROOF_OVERHEAD (announced_len bs) = Some (8 + announced_len bs)"
    by (simp add: checked_add_def PROOF_OVERHEAD_def)
  moreover have "slice bs 0 4 = Some (take 4 bs)" "slice bs (8 + announced_len bs) (length bs) = Some (drop (8 + announced_len bs) bs)"
    "slice bs PROOF_OVERHEAD (8 + announced_len bs) = Some (take (announced_len bs) (drop 8 bs))"
    using big by (simp_all add: slice_def PROOF_OVERHEAD_def)
  moreover have "\<not> length bs - (8 + announced_len bs) < ENVELOPE_OVERHEAD" using big(2) by linarith
  ultimately show ?thesis using False proof_length_eq [OF big(1)]
    by (simp add: jrp_from_bytes_def split: option.split sum.split)
next
  case True
  show ?thesis
  proof (cases "length bs < PROOF_OVERHEAD + ENVELOPE_OVERHEAD")
    case False
    then have big: "8 \<le> length bs" by (simp add: PROOF_OVERHEAD_def)
    then have "slice bs 0 4 = Some (take 4 bs)" by (simp add: slice_def)
    moreover have "checked_add PROOF_OVERHEAD (announced_len bs) = Some (8 + announced_len bs)"
      if "announced_len bs \<le> MAX_RELATION_PROOF_LEN"
      using that by (simp add: checked_add_def PROOF_OVERHEAD_def MAX_RELATION_PROOF_LEN_def jrc_sizes usize_max_def)
    moreover have "length bs - (8 + announced_len bs) < ENVELOPE_OVERHEAD" if "length bs < 8 + announced_len bs + ENVELOPE_OVERHEAD"
      using that by (simp add: ENVELOPE_OVERHEAD_def)
    ultimately show ?thesis using True False proof_length_eq [OF big]
      by (auto simp: jrp_from_bytes_def)
  qed (simp add: jrp_from_bytes_def)
qed

lemma jrp_magic: "take 4 (jrp_to_bytes p) = PROOF_MAGIC"
  by (simp add: jrp_to_bytes_def)

lemma announced_len_bytes: "length (jr_relation_proof p) < 2 ^ 32 \<Longrightarrow> announced_len (jrp_to_bytes p) = length (jr_relation_proof p)"
  by (simp add: announced_len_def jrp_to_bytes_def nth_append PROOF_MAGIC_def of_le32_nth le_bytes32_def unat_of_nat)

interpretation transcript: wire_format jrp_to_bytes jrp_from_bytes jrp_valid
proof unfold_locales
  fix p assume p: "jrp_valid p"
  note len = jrp_valid_bytes [OF p]
  have "length (jr_relation_proof p) < 2 ^ 32"
    using len(2) by (simp add: MAX_RELATION_PROOF_LEN_def PROOF_OVERHEAD_def jrc_sizes)
  note n = announced_len_bytes [OF this]
  have parts: "drop (8 + length (jr_relation_proof p)) (jrp_to_bytes p) = jrc_to_bytes (jr_commitment p)"
    "take (length (jr_relation_proof p)) (drop 8 (jrp_to_bytes p)) = jr_relation_proof p"
    by (simp_all add: jrp_to_bytes_def)
  have "jrc_from_bytes (jrc_to_bytes (jr_commitment p)) = Some (Inr (jr_commitment p))"
    by (rule envelope.parse_unparse) (use p in \<open>simp add: jrp_valid_def\<close>)
  then show "jrp_from_bytes (jrp_to_bytes p) = Some (Inr p)"
    using len(1,2,4) len(3) jrp_magic [of p] by (simp add: jrp_from_bytes_eq n parts PROOF_OVERHEAD_def)
next
  fix bs p assume "jrp_from_bytes bs = Some (Inr p)"
  then obtain jc where c: "length bs \<le> MAX_STREAM_BYTES" "take 4 bs = PROOF_MAGIC" "8 + announced_len bs + ENVELOPE_OVERHEAD \<le> length bs"
    "jrc_from_bytes (drop (8 + announced_len bs) bs) = Some (Inr jc)"
    "p = \<lparr>jr_relation_proof = take (announced_len bs) (drop 8 bs), jr_commitment = jc\<rparr>"
    by (simp add: jrp_from_bytes_eq not_less split: if_splits option.splits sum.splits)
  have env: "jrc_valid jc" "jrc_to_bytes jc = drop (8 + announced_len bs) bs" using envelope.parse_sound [OF c(4)] by simp_all
  have n: "length (jr_relation_proof p) = announced_len bs" using c(3) by (simp add: c(5))
  have four: "take 4 (drop 4 bs) = [bs ! 4, bs ! 5, bs ! 6, bs ! 7]"
    using c(3) by (simp add: list_eq_iff_nth_eq less_Suc_eq numeral_eq_Suc)
  have len: "le_bytes32 (word_of_nat (length (jr_relation_proof p))) = take 4 (drop 4 bs)"
    unfolding n announced_len_def four by (simp add: bytes_of_le32)
  have "jrp_to_bytes p = take 4 bs @ take 4 (drop 4 bs) @ take (announced_len bs) (drop (4 + 4) bs) @
      drop (4 + 4 + announced_len bs) bs"
    unfolding jrp_to_bytes_def len by (simp add: c(2,5) env(2))
  also have "\<dots> = bs" by (rule split_four [symmetric])
  finally have same: "jrp_to_bytes p = bs" .
  have v: "jrc_valid (jr_commitment p)" using env(1) by (simp add: c(5))
  from jrp_length [OF v] have "jrp_transmitted_len p = length bs" unfolding same by (rule sym)
  then show "jrp_valid p \<and> jrp_to_bytes p = bs" using v c(1) same unfolding jrp_valid_def by simp
next
  fix bs show "jrp_from_bytes bs \<noteq> None"
    using envelope.parse_returns [of "drop (8 + announced_len bs) bs"]
    by (auto simp: jrp_from_bytes_eq split: option.split sum.split)
qed

section \<open>Proofs that were made verify\<close>

lemma jrp_prove_ok:
  assumes "jrp_prove P system ek statement witness output nonce drawn = Inr p"
  shows "commit P ek output nonce drawn = Inr (jr_commitment p)"
    and "rp_verify system \<lparr>pi_judge_key = ek, pi_statement = statement, pi_commitment = jr_commitment p\<rparr> (jr_relation_proof p)"
    and "jrp_transmitted_len p \<le> MAX_STREAM_BYTES"
proof -
  obtain jc secret rp where c: "commit_with_prover_opening P ek output nonce drawn = Inr (jc, secret)"
    "rp_verify system \<lparr>pi_judge_key = ek, pi_statement = statement, pi_commitment = jc\<rparr> rp"
    "p = \<lparr>jr_relation_proof = rp, jr_commitment = jc\<rparr>" "jrp_transmitted_len p \<le> MAX_STREAM_BYTES"
    using assms by (auto simp: jrp_prove_def Let_def split: sum.splits if_splits)
  then show "commit P ek output nonce drawn = Inr (jr_commitment p)"
    "rp_verify system \<lparr>pi_judge_key = ek, pi_statement = statement, pi_commitment = jr_commitment p\<rparr> (jr_relation_proof p)"
    "jrp_transmitted_len p \<le> MAX_STREAM_BYTES" by (simp_all add: commit_def)
qed

text \<open>A backend for concrete instances: it accepts exactly the statement as its proof.\<close>

definition echo_backend :: "u8 list relation_proof_system" where
  "echo_backend = \<lparr>rp_prove = (\<lambda>public witness output opening. Inr (pi_statement public)),
     rp_verify = (\<lambda>public proof. proof = pi_statement public)\<rparr>"

section \<open>Properties\<close>

text \<open>C16: a transcript that was proved verifies, its output is recovered by the judge, and it survives
  serialisation within one stream, for every backend.\<close>

theorem jrp_complete:
  assumes "jrc_ok P" and "length (secret_to_bytes dk) = 32" and "length e_sk = 32" and "length nonce = NONCE_LEN"
    and "jrp_prove P system (to_public P dk) statement witness output nonce (Some e_sk) = Inr p"
  shows "jrp_verify_ext system (to_public P dk) statement p \<and>
    jrp_judge_recover P system dk statement p = Some (Inr output) \<and>
    jrp_from_bytes (jrp_to_bytes p) = Some (Inr p) \<and> length (jrp_to_bytes p) = jrp_transmitted_len p \<and>
    jrp_transmitted_len p \<le> MAX_STREAM_BYTES"
proof -
  note proved = jrp_prove_ok [OF assms(5)]
  from commit_ok [OF proved(1)] have c: "commit_with_ephemeral P (to_public P dk) output nonce e_sk = Inr (jr_commitment p)"
    by simp
  note opened = commit_ephemeral_ok [OF assms(1-4) c]
  have "jrp_verify_ext system (to_public P dk) statement p"
    using opened(2) proved(2) by (simp add: jrp_verify_ext_def jrc_valid_def)
  moreover from this have "jrp_judge_recover P system dk statement p = Some (Inr output)"
    using opened(1) by (simp add: jrp_judge_recover_def)
  moreover have "jrp_from_bytes (jrp_to_bytes p) = Some (Inr p)"
    by (rule transcript.parse_unparse) (simp add: jrp_valid_def opened(2) proved(3))
  ultimately show ?thesis using jrp_length [OF opened(2)] proved(3) by simp
qed

theorem jrp_complete_witness:
  "\<exists>p. jrp_prove plain_jrc echo_backend (to_public plain_jrc (JudgeSecretKey (replicate 32 5))) [8, 9] [] [1, 2, 3]
       (replicate 24 7) (Some (replicate 32 6)) = Inr p \<and>
     jrp_judge_recover plain_jrc echo_backend (JudgeSecretKey (replicate 32 5)) [8, 9] p = Some (Inr [1, 2, 3])"
proof -
  let ?dk = "JudgeSecretKey (replicate 32 5)"
  have small: "length [1, 2, 3 :: u8] \<le> MAX_MESSAGE_LEN" by (simp add: jrc_sizes)
  obtain jc where c: "commit_with_ephemeral plain_jrc (to_public plain_jrc ?dk) [1, 2, 3] (replicate 24 7) (replicate 32 6) = Inr jc"
    using plain_commit [OF small] by blast
  have k: "length (secret_to_bytes ?dk) = 32" "length (replicate 32 (6 :: u8)) = 32" "length (replicate 24 (7 :: u8)) = NONCE_LEN"
    by (simp_all add: NONCE_LEN_def)
  from commit_ephemeral_ok(3) [OF plain_jrc_ok k c] have "length (jc_aux jc) = 75" by simp
  then obtain p where p: "jrp_prove plain_jrc echo_backend (to_public plain_jrc ?dk) [8, 9] [] [1, 2, 3]
      (replicate 24 7) (Some (replicate 32 6)) = Inr p"
    using c small
    by (simp add: jrp_prove_def commit_with_prover_opening_def check_message_len_def echo_backend_def
        jrp_transmitted_len_def jrc_transmitted_len_def PROOF_OVERHEAD_def MAX_RELATION_PROOF_LEN_def jrc_sizes)
  from jrp_complete [OF plain_jrc_ok k p] p show ?thesis by blast
qed

text \<open>C33: parsing a transcript never panics and accepts exactly the serialised transcripts that fit one
  stream around a valid envelope: every other byte string is answered with an error.\<close>

theorem jrp_transcript_exact:
  "(jrp_from_bytes bs = Some (Inr p) \<longleftrightarrow>
      jrc_valid (jr_commitment p) \<and> jrp_transmitted_len p \<le> MAX_STREAM_BYTES \<and> jrp_to_bytes p = bs) \<and>
   ((\<exists>e. jrp_from_bytes bs = Some (Inl e)) \<longleftrightarrow>
      (\<nexists>p. jrc_valid (jr_commitment p) \<and> jrp_transmitted_len p \<le> MAX_STREAM_BYTES \<and> jrp_to_bytes p = bs))"
  using transcript.parse_iff [of bs p] transcript.rejects [of bs] unfolding jrp_valid_def by (simp only: conj_assoc)

text \<open>The judge opens nothing that does not verify: recovery never panics, a transcript that the
  backend or the format check rejects is answered with \<open>InvalidProof\<close>, and a recovered output was
  verified under the judge's own public key and checked against the commitment.\<close>

theorem jrp_recovers_verified_only:
  "\<exists>res. jrp_judge_recover P system dk statement p = Some res \<and>
     (case res of
        Inl e \<Rightarrow> (if jrp_verify_ext system (to_public P dk) statement p
          then e \<in> {InvalidKey, error.Crypto} else e = InvalidProof)
      | Inr output \<Rightarrow> jrp_verify_ext system (to_public P dk) statement p \<and>
          commit_value P (transcript_key P dk (jc_aux (jr_commitment p))) output = jc_commitment (jr_commitment p))"
proof (cases "jrp_verify_ext system (to_public P dk) statement p")
  case True
  let ?c = "jc_commitment (jr_commitment p)" and ?aux = "jc_aux (jr_commitment p)"
  have "72 \<le> length ?aux" using True by (simp add: jrp_verify_ext_def verify_ext_def jrc_sizes)
  then have "judge_recover P dk ?c ?aux = Some (open_transcript P dk ?c (take 32 ?aux) (take 24 (drop 32 ?aux)) (drop 56 ?aux))"
    by (simp add: judge_recover_eq)
  moreover have "e \<in> {InvalidKey, error.Crypto}" if "open_transcript P dk c e_pk r ct = Inl e" for c e_pk r ct e
    using that by (auto simp: open_transcript_def Let_def decrypt_def split: if_splits prod.splits sum.splits option.splits)
  moreover have "commit_value P (transcript_key P dk ?aux) m = ?c" if "judge_recover P dk ?c ?aux = Some (Inr m)" for m
    using judge_recover_binds(2) [OF that] by (simp add: commit_value_def)
  ultimately show ?thesis using True by (simp add: jrp_judge_recover_def split: sum.split)
qed (simp add: jrp_judge_recover_def)

end
