(* ===== verification/U32Set.thy ===== *)
theory U32Set
  imports Prelude
begin

text \<open>
  The open-addressing set of \<open>u32\<close> keys (\<open>src/set.rs\<close>): key vector, packed occupancy bits,
  linear probing, growth at 0.7 load. The probe loops and the mutual recursion of \<open>insert\<close> and
  \<open>grow\<close> have no termination argument of their own, so they are partial functions whose
  \<open>None\<close> is a panic or an endless loop. Under the invariant \<open>set_ok\<close> they always return, and
  the set they represent (\<open>set_elems\<close>) is updated as a mathematical set; the interface
  \<open>key_set\<close> states this contract and is interpreted on the code's operations.
\<close>

unbundle bit_operations_syntax

section \<open>The table and its operations\<close>

record u32_set =
  us_keys :: "u32 list"
  us_occ :: "u64 list"
  us_mask :: usize
  us_len :: usize

definition LOAD_NUM :: usize where "LOAD_NUM = 7"
definition LOAD_DEN :: usize where "LOAD_DEN = 10"

definition hash :: "u32 \<Rightarrow> usize" where
  "hash v = unat (v * 0x9e3779b1)"

definition occ_bit :: "u64 list \<Rightarrow> usize \<Rightarrow> bool option" where
  "occ_bit oc i = do {
     w \<leftarrow> get_at oc (drop_bit 6 i);
     Some (w AND push_bit (i AND 63) 1 \<noteq> 0) }"

definition occ_set :: "u64 list \<Rightarrow> usize \<Rightarrow> bool \<Rightarrow> u64 list option" where
  "occ_set oc i v = do {
     w \<leftarrow> get_at oc (drop_bit 6 i);
     let m = push_bit (i AND 63) 1;
     set_at oc (drop_bit 6 i) (if v then w OR m else w AND NOT m) }"

fun next_power_of_two :: "usize \<Rightarrow> usize" where
  "next_power_of_two n = (if n \<le> 1 then 1 else 2 * next_power_of_two ((n + 1) div 2))"

declare next_power_of_two.simps [simp del]

definition set_new :: u32_set where
  "set_new = \<lparr>us_keys = [], us_occ = [], us_mask = 0, us_len = 0\<rparr>"

definition set_default :: u32_set where
  "set_default = set_new"

definition fresh_table :: "usize \<Rightarrow> u32_set" where
  "fresh_table cap = \<lparr>us_keys = replicate cap 0, us_occ = replicate (cap div 64 + 1) 0,
     us_mask = cap - 1, us_len = 0\<rparr>"

definition set_with_capacity :: "usize \<Rightarrow> u32_set" where
  "set_with_capacity n = fresh_table (max (next_power_of_two n) 8)"

definition set_len :: "u32_set \<Rightarrow> usize" where
  "set_len s = us_len s"

definition set_is_empty :: "u32_set \<Rightarrow> bool" where
  "set_is_empty s \<longleftrightarrow> us_len s = 0"

partial_function (option) contains_loop :: "u32_set \<Rightarrow> u32 \<Rightarrow> usize \<Rightarrow> bool option" where
  "contains_loop s v i = do {
     b \<leftarrow> occ_bit (us_occ s) i;
     if \<not> b then Some False
     else do {
       k \<leftarrow> get_at (us_keys s) i;
       if k = v then Some True
       else contains_loop s v ((i + 1) AND us_mask s) } }"

definition set_contains :: "u32_set \<Rightarrow> u32 \<Rightarrow> bool option" where
  "set_contains s v =
     (if us_mask s = 0 then Some False else contains_loop s v (hash v AND us_mask s))"

partial_function (option) insert_loop :: "u32_set \<Rightarrow> u32 \<Rightarrow> usize \<Rightarrow> (bool \<times> u32_set) option" where
  "insert_loop s v i = do {
     b \<leftarrow> occ_bit (us_occ s) i;
     if \<not> b then do {
       oc \<leftarrow> occ_set (us_occ s) i True;
       ks \<leftarrow> set_at (us_keys s) i v;
       Some (True, s\<lparr>us_occ := oc, us_keys := ks, us_len := us_len s + 1\<rparr>) }
     else do {
       k \<leftarrow> get_at (us_keys s) i;
       if k = v then Some (False, s)
       else insert_loop s v ((i + 1) AND us_mask s) } }"

text \<open>\<open>insert\<close> and \<open>grow\<close> call each other; \<open>Rehash\<close> is the loop of \<open>grow\<close> over the old keys.\<close>

datatype set_op = Insert u32 | Grow | Rehash "u32 list" "u64 list" usize

partial_function (option) set_run :: "set_op \<Rightarrow> u32_set \<Rightarrow> (bool \<times> u32_set) option" where
  "set_run op s = (case op of
     Insert v \<Rightarrow> do {
       (_, s') \<leftarrow> (if us_mask s = 0 \<or> (us_len s + 1) * LOAD_DEN \<ge> length (us_keys s) * LOAD_NUM
                  then set_run Grow s else Some (True, s));
       insert_loop s' v (hash v AND us_mask s') }
   | Grow \<Rightarrow>
       (let fresh = fresh_table (if us_mask s = 0 then 8 else (us_mask s + 1) * 2)
        in if us_mask s \<noteq> 0 then set_run (Rehash (us_keys s) (us_occ s) 0) fresh
           else Some (True, fresh))
   | Rehash ks oc i \<Rightarrow> (case ks of
       [] \<Rightarrow> Some (True, s)
     | k # ks' \<Rightarrow> do {
         b \<leftarrow> occ_bit oc i;
         (_, s') \<leftarrow> (if b then set_run (Insert k) s else Some (True, s));
         set_run (Rehash ks' oc (i + 1)) s' }))"

declare contains_loop.simps [code] insert_loop.simps [code] set_run.simps [code]

definition set_insert :: "u32_set \<Rightarrow> u32 \<Rightarrow> (bool \<times> u32_set) option" where
  "set_insert s v = set_run (Insert v) s"

definition set_grow :: "u32_set \<Rightarrow> u32_set option" where
  "set_grow s = map_option snd (set_run Grow s)"

section \<open>Linear probing, abstractly\<close>

text \<open>
  A table of capacity \<open>cap\<close> is a function from slots to keys. \<open>probe_ok\<close> says that each key sits
  on the probe path from its home slot with no gap before it, and only once.
\<close>

definition probe :: "usize \<Rightarrow> usize \<Rightarrow> usize \<Rightarrow> usize" where
  "probe cap h n = (h + n) mod cap"

definition probe_ok :: "usize \<Rightarrow> ('k \<Rightarrow> usize) \<Rightarrow> (usize \<Rightarrow> 'k option) \<Rightarrow> bool" where
  "probe_ok cap home tab \<longleftrightarrow>
     (\<forall>i v. i < cap \<and> tab i = Some v \<longrightarrow>
        (\<exists>n < cap. i = probe cap (home v) n \<and> (\<forall>j < n. tab (probe cap (home v) j) \<noteq> None))) \<and>
     (\<forall>i j v. i < cap \<and> j < cap \<and> tab i = Some v \<and> tab j = Some v \<longrightarrow> i = j)"

definition stops_at :: "usize \<Rightarrow> usize \<Rightarrow> (usize \<Rightarrow> 'k option) \<Rightarrow> 'k \<Rightarrow> usize \<Rightarrow> bool" where
  "stops_at cap h tab v n \<longleftrightarrow>
     n < cap \<and> tab (probe cap h n) \<in> {None, Some v} \<and>
     (\<forall>j < n. tab (probe cap h j) \<notin> {None, Some v})"

lemma probe_less: "0 < cap \<Longrightarrow> probe cap h n < cap"
  by (simp add: probe_def)

lemma probe_Suc: "(probe cap h n + 1) mod cap = probe cap h (Suc n)"
  by (simp add: probe_def mod_Suc_eq)

lemma probe_covers: "i < cap \<Longrightarrow> \<exists>n < cap. probe cap h n = i"
proof -
  assume i: "i < cap"
  have cap: "0 < cap" using i by simp
  define n where "n = (i + (cap - h mod cap)) mod cap"
  have hm: "h mod cap < cap" using cap by simp
  have "probe cap h n = (h mod cap + (i + (cap - h mod cap))) mod cap"
    unfolding probe_def n_def by (simp add: mod_simps)
  also have "h mod cap + (i + (cap - h mod cap)) = i + cap" using hm by simp
  also have "(i + cap) mod cap = i" using i by simp
  finally show ?thesis using cap unfolding n_def by (intro exI [of _ n]) (simp add: n_def)
qed

lemma stops_exists:
  assumes "i < cap" and "tab i = None"
  shows "\<exists>n. stops_at cap h tab v n"
proof -
  let ?P = "\<lambda>n. n < cap \<and> tab (probe cap h n) \<in> {None, Some v}"
  from probe_covers [OF assms(1)] assms obtain m where "?P m" by force
  then have P: "?P (LEAST n. ?P n)" by (rule LeastI)
  have "\<not> ?P j" if "j < (LEAST n. ?P n)" for j using that by (rule not_less_Least)
  with P show ?thesis unfolding stops_at_def by (meson order.strict_trans)
qed

lemma stops_at_decides:
  assumes ok: "probe_ok cap home tab" and stop: "stops_at cap (home v) tab v n"
  shows "tab (probe cap (home v) n) = Some v \<longleftrightarrow> (\<exists>i < cap. tab i = Some v)"
proof
  assume "tab (probe cap (home v) n) = Some v"
  then show "\<exists>i < cap. tab i = Some v"
    using stop by (auto simp: stops_at_def intro!: exI [of _ "probe cap (home v) n"] probe_less)
next
  assume "\<exists>i < cap. tab i = Some v"
  then obtain m where m: "m < cap" "tab (probe cap (home v) m) = Some v"
    "\<forall>j < m. tab (probe cap (home v) j) \<noteq> None"
    using ok unfolding probe_ok_def by blast
  have "\<not> m < n" using m stop by (auto simp: stops_at_def)
  moreover have "tab (probe cap (home v) n) = Some v" if "n < m"
    using m(3) that stop by (auto simp: stops_at_def)
  ultimately show "tab (probe cap (home v) n) = Some v"
    using m(2) by (cases "m = n") auto
qed

lemma probe_ok_insert:
  assumes ok: "probe_ok cap home tab" and stop: "stops_at cap (home v) tab v n"
    and free: "tab (probe cap (home v) n) = None"
  shows "probe_ok cap home (tab(probe cap (home v) n := Some v))"
proof -
  let ?i = "probe cap (home v) n"
  have new: "\<not> (\<exists>i < cap. tab i = Some v)"
    using stops_at_decides [OF ok stop] free by simp
  have "\<exists>m < cap. i = probe cap (home w) m \<and>
      (\<forall>j < m. (tab(?i := Some v)) (probe cap (home w) j) \<noteq> None)"
    if "i < cap" "(tab(?i := Some v)) i = Some w" for i w
  proof (cases "i = ?i")
    case True
    with that stop show ?thesis by (intro exI [of _ n]) (auto simp: stops_at_def)
  next
    case False
    with that ok obtain m where "m < cap" "i = probe cap (home w) m"
      "\<forall>j < m. tab (probe cap (home w) j) \<noteq> None"
      unfolding probe_ok_def by auto
    then show ?thesis by (intro exI [of _ m]) auto
  qed
  moreover have "i = j" if "i < cap" "j < cap" "(tab(?i := Some v)) i = Some w"
      "(tab(?i := Some v)) j = Some w" for i j w
    using that new ok unfolding probe_ok_def by (auto split: if_splits)
  ultimately show ?thesis unfolding probe_ok_def by blast
qed


section \<open>Occupancy bits and slots\<close>

definition slot :: "u32_set \<Rightarrow> usize \<Rightarrow> u32 option" where
  "slot s i = (if bit (us_occ s ! (i div 64)) (i mod 64) then Some (us_keys s ! i) else None)"

definition set_elems :: "u32_set \<Rightarrow> u32 set" where
  "set_elems s = {v. \<exists>i < length (us_keys s). slot s i = Some v}"

definition used_slots :: "u32_set \<Rightarrow> usize set" where
  "used_slots s = {i. i < length (us_keys s) \<and> slot s i \<noteq> None}"

definition table_ok :: "u32_set \<Rightarrow> bool" where
  "table_ok s \<longleftrightarrow> (\<exists>t \<ge> 3. length (us_keys s) = 2 ^ t) \<and>
     us_mask s = length (us_keys s) - 1 \<and>
     length (us_occ s) = length (us_keys s) div 64 + 1 \<and>
     probe_ok (length (us_keys s)) hash (slot s) \<and>
     us_len s = card (used_slots s) \<and>
     us_len s * LOAD_DEN < length (us_keys s) * LOAD_NUM"

definition set_ok :: "u32_set \<Rightarrow> bool" where
  "set_ok s \<longleftrightarrow> s = set_new \<or> table_ok s"

lemma index_bits: "drop_bit 6 (i :: nat) = i div 64" "i AND 63 = i mod 64"
proof -
  show "drop_bit 6 i = i div 64" by (simp add: drop_bit_eq_div)
  have "i AND 63 = take_bit 6 i" by (simp add: take_bit_eq_mask mask_eq_exp_minus_1)
  then show "i AND 63 = i mod 64" by (simp add: take_bit_eq_mod)
qed

lemma occ_bit_in:
  "i < cap \<Longrightarrow> length oc = cap div 64 + 1 \<Longrightarrow> occ_bit oc i = Some (bit (oc ! (i div 64)) (i mod 64))"
proof -
  assume i: "i < cap" and len: "length oc = cap div 64 + 1"
  have "i div 64 \<le> cap div 64" using i by (simp add: div_le_mono)
  then have "i div 64 < length oc" using len by simp
  then show ?thesis by (simp add: occ_bit_def index_bits get_at_in and_exp_eq_0_iff_not_bit)
qed

lemma occ_set_in:
  "i < cap \<Longrightarrow> length oc = cap div 64 + 1 \<Longrightarrow>
   occ_set oc i True = Some (oc[i div 64 := oc ! (i div 64) OR push_bit (i mod 64) 1])"
proof -
  assume i: "i < cap" and len: "length oc = cap div 64 + 1"
  have "i div 64 \<le> cap div 64" using i by (simp add: div_le_mono)
  then have "i div 64 < length oc" using len by simp
  then show ?thesis by (simp add: occ_set_def index_bits get_at_in set_at_in Let_def)
qed

lemma bit_after_set:
  fixes oc :: "u64 list" and i j :: nat
  assumes "i div 64 < length oc"
  shows "bit (oc[i div 64 := oc ! (i div 64) OR 2 ^ (i mod 64)] ! (j div 64)) (j mod 64)
     = (j = i \<or> bit (oc ! (j div 64)) (j mod 64))"
proof (cases "j div 64 = i div 64")
  case True
  have "j mod 64 < 64" "i mod 64 < 64" by simp_all
  moreover have "j = i \<longleftrightarrow> j mod 64 = i mod 64"
    using True by (metis mult_div_mod_eq)
  ultimately show ?thesis using True assms by (auto simp: bit_simps)
next
  case False
  then have "j \<noteq> i" by auto
  then show ?thesis using False by simp
qed

lemma mask_mod: "x AND (2 ^ t - Suc 0) = x mod 2 ^ t" for x :: nat
proof -
  have "x AND mask t = x mod 2 ^ t" by (simp only: take_bit_eq_mod flip: take_bit_eq_mask)
  then show ?thesis by (simp add: mask_eq_exp_minus_1)
qed

lemma table_mask: "table_ok s \<Longrightarrow> x AND us_mask s = x mod length (us_keys s)"
  by (auto simp: table_ok_def mask_mod)

lemma table_cap: "table_ok s \<Longrightarrow> 8 \<le> length (us_keys s)"
proof -
  assume "table_ok s"
  then obtain t where "3 \<le> t" "length (us_keys s) = 2 ^ t" by (auto simp: table_ok_def)
  moreover from this have "(2 :: nat) ^ 3 \<le> 2 ^ t" by (intro power_increasing) simp_all
  ultimately show ?thesis by simp
qed

lemma table_mask_pos: "table_ok s \<Longrightarrow> us_mask s \<noteq> 0"
proof -
  assume ok: "table_ok s"
  from table_cap [OF ok] have "length (us_keys s) - 1 \<noteq> 0" by linarith
  then show ?thesis using ok by (simp add: table_ok_def)
qed

lemma table_occ_bit: "table_ok s \<Longrightarrow> i < length (us_keys s) \<Longrightarrow>
    occ_bit (us_occ s) i = Some (slot s i \<noteq> None)"
  by (auto simp: table_ok_def slot_def occ_bit_in)

lemma table_key: "i < length (us_keys s) \<Longrightarrow> slot s i = Some k \<Longrightarrow> get_at (us_keys s) i = Some k"
  by (auto simp: slot_def get_at_in split: if_splits)

lemma table_free_slot:
  assumes "table_ok s"
  shows "\<exists>i < length (us_keys s). slot s i = None"
proof (rule ccontr)
  assume "\<not> ?thesis"
  then have "used_slots s = {..<length (us_keys s)}" by (auto simp: used_slots_def)
  then have "us_len s = length (us_keys s)" using assms by (simp add: table_ok_def)
  with assms table_cap [OF assms] show False by (simp add: table_ok_def LOAD_DEN_def LOAD_NUM_def)
qed

lemma table_stop: "table_ok s \<Longrightarrow> \<exists>n. stops_at (length (us_keys s)) h (slot s) v n"
proof -
  assume "table_ok s"
  then obtain i where "i < length (us_keys s)" "slot s i = None" by (auto dest: table_free_slot)
  then show ?thesis by (rule stops_exists)
qed

lemma table_stop_decides:
  assumes ok: "table_ok s" and stop: "stops_at (length (us_keys s)) (hash v) (slot s) v n"
  shows "slot s (probe (length (us_keys s)) (hash v) n) = Some v \<longleftrightarrow> v \<in> set_elems s"
  using stops_at_decides [of "length (us_keys s)" hash "slot s" v n, OF _ stop] ok
  by (simp add: table_ok_def set_elems_def)

lemma table_len_elems:
  assumes "table_ok s"
  shows "us_len s = card (set_elems s)"
proof -
  have "set_elems s = (the \<circ> slot s) ` used_slots s"
    by (force simp: set_elems_def used_slots_def image_iff)
  moreover have "inj_on (the \<circ> slot s) (used_slots s)"
    using assms by (auto simp: inj_on_def used_slots_def table_ok_def probe_ok_def)
  ultimately have "card (set_elems s) = card (used_slots s)" by (simp only: card_image)
  then show ?thesis using assms by (simp add: table_ok_def)
qed

lemma finite_set_elems: "finite (set_elems s)"
proof -
  have "set_elems s \<subseteq> (the \<circ> slot s) ` {..<length (us_keys s)}"
    by (force simp: set_elems_def image_iff)
  then show ?thesis by (rule finite_subset) simp
qed


section \<open>The probe loops return\<close>

lemma table_next: "table_ok s \<Longrightarrow>
    (probe (length (us_keys s)) h j + 1) AND us_mask s = probe (length (us_keys s)) h (Suc j)"
  by (simp only: table_mask probe_Suc)

lemma contains_loop_spec:
  assumes ok: "table_ok s" and stop: "stops_at (length (us_keys s)) h (slot s) v n" and le: "j \<le> n"
  shows "contains_loop s v (probe (length (us_keys s)) h j)
     = Some (slot s (probe (length (us_keys s)) h n) = Some v)"
  using le
proof (induction "n - j" arbitrary: j)
  case 0
  then have j: "j = n" by simp
  let ?p = "probe (length (us_keys s)) h n"
  have p: "?p < length (us_keys s)" using stop by (auto simp: stops_at_def intro: probe_less)
  from stop consider "slot s ?p = None" | "slot s ?p = Some v" by (auto simp: stops_at_def)
  then show ?case
    unfolding j
    by cases (simp_all add: contains_loop.simps [of s v ?p] table_occ_bit [OF ok p] table_key [OF p])
next
  case (Suc m)
  let ?p = "probe (length (us_keys s)) h j"
  have j: "j < n" and p: "?p < length (us_keys s)"
    using Suc.hyps(2) stop by (auto simp: stops_at_def intro: probe_less)
  then obtain k where k: "slot s ?p = Some k" "k \<noteq> v" using stop by (auto simp: stops_at_def)
  have "m = n - Suc j" "Suc j \<le> n" using Suc.hyps(2) j by auto
  from Suc.hyps(1) [OF this] k show ?case
    by (simp add: contains_loop.simps [of s v ?p] table_occ_bit [OF ok p] table_key [OF p]
        table_next [OF ok, unfolded One_nat_def, simplified])
qed

lemma contains_spec:
  assumes ok: "set_ok s"
  shows "set_contains s v = Some (v \<in> set_elems s)"
proof (cases "s = set_new")
  case True
  then show ?thesis by (simp add: set_contains_def set_new_def set_elems_def)
next
  case False
  with ok have ok: "table_ok s" by (simp add: set_ok_def)
  let ?c = "length (us_keys s)"
  obtain n where stop: "stops_at ?c (hash v) (slot s) v n"
    using table_stop [OF ok] by (rule exE)
  have "hash v AND us_mask s = probe ?c (hash v) 0" by (simp add: table_mask [OF ok] probe_def)
  then have "set_contains s v = Some (slot s (probe ?c (hash v) n) = Some v)"
    using contains_loop_spec [OF ok stop, of 0] table_mask_pos [OF ok] by (simp add: set_contains_def)
  also have "slot s (probe ?c (hash v) n) = Some v \<longleftrightarrow> v \<in> set_elems s"
    by (rule table_stop_decides [OF ok stop])
  finally show ?thesis .
qed

text \<open>The table after writing \<open>v\<close> into the free slot \<open>i\<close>.\<close>

definition put_slot :: "u32_set \<Rightarrow> usize \<Rightarrow> u32 \<Rightarrow> u32_set" where
  "put_slot s i v = s\<lparr>us_occ := (us_occ s)[i div 64 := us_occ s ! (i div 64) OR push_bit (i mod 64) 1],
     us_keys := (us_keys s)[i := v], us_len := us_len s + 1\<rparr>"

lemma slot_put_slot:
  assumes "i < length (us_keys s)" and "length (us_occ s) = length (us_keys s) div 64 + 1"
  shows "slot (put_slot s i v) = (slot s)(i := Some v)"
proof
  fix j
  have "i div 64 \<le> length (us_keys s) div 64" using assms(1) by (intro div_le_mono) simp
  then have i: "i div 64 < length (us_occ s)" using assms(2) by simp
  show "slot (put_slot s i v) j = ((slot s)(i := Some v)) j"
    using assms(1) by (simp add: slot_def put_slot_def bit_after_set [OF i])
qed

lemma insert_loop_spec:
  assumes ok: "table_ok s" and stop: "stops_at (length (us_keys s)) h (slot s) v n" and le: "j \<le> n"
  shows "insert_loop s v (probe (length (us_keys s)) h j) =
     (let p = probe (length (us_keys s)) h n
      in Some (if slot s p = None then (True, put_slot s p v) else (False, s)))"
  using le
proof (induction "n - j" arbitrary: j)
  case 0
  then have j: "j = n" by simp
  let ?p = "probe (length (us_keys s)) h n"
  have p: "?p < length (us_keys s)" using stop by (auto simp: stops_at_def intro: probe_less)
  have set: "occ_set (us_occ s) ?p True =
      Some ((us_occ s)[?p div 64 := us_occ s ! (?p div 64) OR push_bit (?p mod 64) 1])"
    using ok p by (intro occ_set_in) (auto simp: table_ok_def)
  from stop consider "slot s ?p = None" | "slot s ?p = Some v" by (auto simp: stops_at_def)
  then show ?case
    unfolding j
    by cases (simp_all add: insert_loop.simps [of s v ?p] table_occ_bit [OF ok p] table_key [OF p]
        set set_at_in [OF p] put_slot_def Let_def)
next
  case (Suc m)
  let ?p = "probe (length (us_keys s)) h j"
  have j: "j < n" and p: "?p < length (us_keys s)"
    using Suc.hyps(2) stop by (auto simp: stops_at_def intro: probe_less)
  then obtain k where k: "slot s ?p = Some k" "k \<noteq> v" using stop by (auto simp: stops_at_def)
  have "m = n - Suc j" "Suc j \<le> n" using Suc.hyps(2) j by auto
  from Suc.hyps(1) [OF this] k show ?case
    by (simp add: insert_loop.simps [of s v ?p] table_occ_bit [OF ok p] table_key [OF p]
        table_next [OF ok, unfolded One_nat_def, simplified])
qed

section \<open>Insertion and growth\<close>

lemma put_slot_fields [simp]:
  "length (us_keys (put_slot s i v)) = length (us_keys s)"
  "us_len (put_slot s i v) = us_len s + 1"
  by (simp_all add: put_slot_def)

lemma keys_after_put:
  assumes p: "p < (c :: usize)" and free: "tab p = None"
  shows "{x. \<exists>i < c. (tab(p := Some v)) i = Some x} = insert v {x. \<exists>i < c. tab i = Some x}"
    (is "?L = insert v ?R")
proof
  show "?L \<subseteq> insert v ?R" by (auto split: if_splits)
  have "x \<in> ?L" if "i < c" "tab i = Some x" for i x
    using that free by (intro CollectI exI [of _ i]) auto
  moreover have "v \<in> ?L" using p by (intro CollectI exI [of _ p]) simp
  ultimately show "insert v ?R \<subseteq> ?L" by blast
qed

lemma put_slot_ok:
  assumes ok: "table_ok s" and stop: "stops_at (length (us_keys s)) (hash v) (slot s) v n"
    and free: "slot s (probe (length (us_keys s)) (hash v) n) = None"
    and room: "(us_len s + 1) * LOAD_DEN < length (us_keys s) * LOAD_NUM"
  shows "table_ok (put_slot s (probe (length (us_keys s)) (hash v) n) v)"
    and "set_elems (put_slot s (probe (length (us_keys s)) (hash v) n) v) = insert v (set_elems s)"
proof -
  let ?c = "length (us_keys s)" let ?p = "probe ?c (hash v) n" let ?s = "put_slot s ?p v"
  have p: "?p < ?c" using stop by (auto simp: stops_at_def intro: probe_less)
  have slot: "slot ?s = (slot s)(?p := Some v)"
    using ok p by (intro slot_put_slot) (auto simp: table_ok_def)
  have used: "used_slots ?s = insert ?p (used_slots s)" "?p \<notin> used_slots s" "finite (used_slots s)"
    using p free by (auto simp: used_slots_def slot)
  have "probe_ok ?c hash (slot ?s)"
    unfolding slot using ok stop free by (intro probe_ok_insert) (auto simp: table_ok_def)
  then show "table_ok ?s"
    using ok room used by (simp add: table_ok_def) (simp add: put_slot_def)
  show "set_elems ?s = insert v (set_elems s)"
    unfolding set_elems_def slot put_slot_fields by (rule keys_after_put [where tab = "slot s", OF p free])
qed

lemma run_insert_room:
  assumes ok: "table_ok s" and room: "(us_len s + 1) * LOAD_DEN < length (us_keys s) * LOAD_NUM"
  shows "\<exists>s'. insert_loop s v (hash v AND us_mask s) = Some (v \<notin> set_elems s, s') \<and> table_ok s' \<and>
     set_elems s' = insert v (set_elems s) \<and> length (us_keys s') = length (us_keys s)"
proof -
  let ?c = "length (us_keys s)"
  obtain n where stop: "stops_at ?c (hash v) (slot s) v n"
    using table_stop [OF ok] by (rule exE)
  let ?p = "probe ?c (hash v) n"
  have start: "hash v AND us_mask s = probe ?c (hash v) 0"
    by (simp add: table_mask [OF ok] probe_def)
  have loop: "insert_loop s v (hash v AND us_mask s) =
      Some (if slot s ?p = None then (True, put_slot s ?p v) else (False, s))"
    unfolding start using insert_loop_spec [OF ok stop, of 0] by (simp add: Let_def)
  have mem: "slot s ?p = Some v \<longleftrightarrow> v \<in> set_elems s"
    by (rule table_stop_decides [OF ok stop])
  show ?thesis
  proof (cases "slot s ?p = None")
    case True
    with loop mem put_slot_ok [OF ok stop True room] show ?thesis by auto
  next
    case False
    then have "slot s ?p = Some v" using stop by (auto simp: stops_at_def)
    with loop mem ok show ?thesis by auto
  qed
qed

lemma set_run_insert_room:
  assumes ok: "table_ok s" and room: "(us_len s + 1) * LOAD_DEN < length (us_keys s) * LOAD_NUM"
  shows "\<exists>s'. set_run (Insert v) s = Some (v \<notin> set_elems s, s') \<and> table_ok s' \<and>
     set_elems s' = insert v (set_elems s) \<and> length (us_keys s') = length (us_keys s)"
  using run_insert_room [OF assms, of v] table_mask_pos [OF ok] room
  by (simp add: set_run.simps [of "Insert v"])

lemma slot_fresh: "i < cap \<Longrightarrow> slot (fresh_table cap) i = None"
proof -
  assume "i < cap"
  then have "i div 64 \<le> cap div 64" by (intro div_le_mono) simp
  then show ?thesis by (simp add: slot_def fresh_table_def del: replicate_Suc)
qed

lemma fresh_ok:
  assumes "3 \<le> t"
  shows "table_ok (fresh_table (2 ^ t))" and "set_elems (fresh_table (2 ^ t)) = {}"
proof -
  let ?s = "fresh_table (2 ^ t)"
  have len: "length (us_keys ?s) = 2 ^ t" by (simp add: fresh_table_def)
  then show "set_elems ?s = {}" by (simp add: set_elems_def slot_fresh)
  have "used_slots ?s = {}" using len by (auto simp: used_slots_def slot_fresh)
  moreover have "probe_ok (2 ^ t) hash (slot ?s)" by (auto simp: probe_ok_def slot_fresh)
  ultimately show "table_ok ?s"
    using assms len by (auto simp: table_ok_def) (auto simp: fresh_table_def LOAD_NUM_def LOAD_DEN_def)
qed


text \<open>The loop of \<open>grow\<close> over the old slots \<open>ks\<close>, the first of them at index \<open>i\<close>.\<close>

lemma rehash_spec:
  assumes "table_ok s" and "length oc = cap div 64 + 1" and "i + length ks \<le> cap"
    and "length (us_keys s) = 2 * cap" and "us_len s \<le> i" and "8 \<le> cap"
  shows "\<exists>b s'. set_run (Rehash ks oc i) s = Some (b, s') \<and> table_ok s' \<and>
     length (us_keys s') = 2 * cap \<and> us_len s' \<le> i + length ks \<and>
     set_elems s' = set_elems s \<union> {k. \<exists>j < length ks. bit (oc ! ((i + j) div 64)) ((i + j) mod 64) \<and> ks ! j = k}"
  using assms
proof (induction ks arbitrary: s i)
  case Nil
  then show ?case by (intro exI [of _ True] exI [of _ s]) (simp add: set_run.simps [of "Rehash [] oc i"])
next
  case (Cons k ks)
  let ?b = "bit (oc ! (i div 64)) (i mod 64)"
  have occ: "occ_bit oc i = Some ?b" using Cons.prems by (intro occ_bit_in [of _ cap]) auto
  have room: "(us_len s + 1) * LOAD_DEN < length (us_keys s) * LOAD_NUM"
    using Cons.prems by (simp add: LOAD_DEN_def LOAD_NUM_def)
  define step where "step = (if ?b then set_run (Insert k) s else Some (True, s))"
  have "\<exists>b s1. step = Some (b, s1) \<and> table_ok s1 \<and> length (us_keys s1) = 2 * cap \<and>
      us_len s1 \<le> i + 1 \<and> set_elems s1 = (if ?b then insert k (set_elems s) else set_elems s)"
  proof (cases ?b)
    case True
    from set_run_insert_room [OF Cons.prems(1) room, of k] obtain s1 where s1:
      "set_run (Insert k) s = Some (k \<notin> set_elems s, s1)" "table_ok s1"
      "set_elems s1 = insert k (set_elems s)" "length (us_keys s1) = length (us_keys s)" by blast
    have "us_len s1 \<le> us_len s + 1"
      by (simp add: table_len_elems [OF s1(2)] table_len_elems [OF Cons.prems(1)] s1(3)
          card_insert_if finite_set_elems)
    with s1 True Cons.prems show ?thesis by (auto simp: step_def)
  next
    case False
    with Cons.prems show ?thesis by (auto simp: step_def)
  qed
  then obtain b1 s1 where s1: "step = Some (b1, s1)" "table_ok s1" "length (us_keys s1) = 2 * cap"
    "us_len s1 \<le> i + 1" "set_elems s1 = (if ?b then insert k (set_elems s) else set_elems s)"
    by blast
  have unfold: "set_run (Rehash (k # ks) oc i) s = set_run (Rehash ks oc (i + 1)) s1"
    using s1(1) unfolding step_def by (simp add: set_run.simps [of "Rehash (k # ks) oc i"] occ)
  from Cons.IH [OF s1(2) Cons.prems(2) _ s1(3,4) Cons.prems(6)] Cons.prems(3)
  obtain b2 s2 where s2: "set_run (Rehash ks oc (i + 1)) s1 = Some (b2, s2)" "table_ok s2"
    "length (us_keys s2) = 2 * cap" "us_len s2 \<le> i + 1 + length ks"
    "set_elems s2 = set_elems s1 \<union>
       {x. \<exists>j < length ks. bit (oc ! ((i + 1 + j) div 64)) ((i + 1 + j) mod 64) \<and> ks ! j = x}"
    by auto
  have "{x. \<exists>j < length (k # ks). bit (oc ! ((i + j) div 64)) ((i + j) mod 64) \<and> (k # ks) ! j = x}
    = (if ?b then {k} else {}) \<union>
      {x. \<exists>j < length ks. bit (oc ! ((i + 1 + j) div 64)) ((i + 1 + j) mod 64) \<and> ks ! j = x}"
    by (auto simp: less_Suc_eq_0_disj)
  with s1(5) s2 show ?case unfolding unfold by (intro exI [of _ b2] exI [of _ s2]) auto
qed

lemma grow_spec:
  assumes "set_ok s"
  shows "\<exists>b s'. set_run Grow s = Some (b, s') \<and> table_ok s' \<and> set_elems s' = set_elems s \<and>
     (us_len s' + 1) * LOAD_DEN < length (us_keys s') * LOAD_NUM \<and>
     length (us_keys s') = max 8 (2 * length (us_keys s))"
proof (cases "s = set_new")
  case True
  then have "set_run Grow s = Some (True, fresh_table (2 ^ 3))"
    by (simp add: set_run.simps [of Grow] set_new_def Let_def)
  moreover have "set_elems s = {}" using True by (simp add: set_new_def set_elems_def)
  ultimately show ?thesis
    using fresh_ok [of 3]
    by (intro exI [of _ True] exI [of _ "fresh_table (2 ^ 3)"] conjI)
      (simp_all add: LOAD_DEN_def LOAD_NUM_def True, simp_all add: fresh_table_def set_new_def)
next
  case False
  with assms have ok: "table_ok s" by (simp add: set_ok_def)
  let ?c = "length (us_keys s)"
  obtain t where t: "3 \<le> t" "?c = 2 ^ t" using ok by (auto simp: table_ok_def)
  have cap: "(us_mask s + 1) * 2 = 2 ^ Suc t" "2 ^ Suc t = 2 * ?c"
    using ok t table_cap [OF ok] by (auto simp: table_ok_def)
  let ?f = "fresh_table (2 ^ Suc t)"
  have f: "table_ok ?f" "set_elems ?f = {}" using t fresh_ok [of "Suc t"] by simp_all
  have flen: "length (us_keys ?f) = 2 * ?c" "us_len ?f = 0"
    using t by (simp_all add: fresh_table_def)
  have "set_run Grow s =
      set_run (Rehash (us_keys s) (us_occ s) 0) (fresh_table ((us_mask s + 1) * 2))"
    using table_mask_pos [OF ok] by (simp add: set_run.simps [of Grow] Let_def)
  then have run: "set_run Grow s = set_run (Rehash (us_keys s) (us_occ s) 0) ?f"
    by (simp only: cap(1))
  have "length (us_occ s) = ?c div 64 + 1" using ok by (simp add: table_ok_def)
  from rehash_spec [OF f(1) this _ flen(1) _ table_cap [OF ok], of 0 "us_keys s"] flen(2)
  obtain b s' where s': "set_run (Rehash (us_keys s) (us_occ s) 0) ?f = Some (b, s')" "table_ok s'"
    "length (us_keys s') = 2 * ?c" "us_len s' \<le> ?c"
    "set_elems s' = {k. \<exists>j < ?c. bit (us_occ s ! (j div 64)) (j mod 64) \<and> us_keys s ! j = k}"
    using f(2) by auto
  have "set_elems s' = set_elems s" unfolding s'(5) by (auto simp: set_elems_def slot_def)
  moreover have "(us_len s' + 1) * LOAD_DEN < length (us_keys s') * LOAD_NUM"
    using s'(3,4) table_cap [OF ok] by (simp add: LOAD_DEN_def LOAD_NUM_def)
  moreover have "length (us_keys s') = max 8 (2 * ?c)" using s'(3) table_cap [OF ok] by simp
  ultimately show ?thesis using s'(1,2) run by (intro exI [of _ b] exI [of _ s']) simp
qed

lemma insert_spec:
  assumes ok: "set_ok s"
  shows "\<exists>s'. set_insert s v = Some (v \<notin> set_elems s, s') \<and> set_ok s' \<and>
     set_elems s' = insert v (set_elems s)"
proof (cases "us_mask s = 0 \<or> (us_len s + 1) * LOAD_DEN \<ge> length (us_keys s) * LOAD_NUM")
  case True
  from grow_spec [OF ok] obtain b g where g: "set_run Grow s = Some (b, g)" "table_ok g"
    "set_elems g = set_elems s" "(us_len g + 1) * LOAD_DEN < length (us_keys g) * LOAD_NUM" by blast
  from run_insert_room [OF g(2,4), of v] True g(1,3) show ?thesis
    by (auto simp: set_insert_def set_run.simps [of "Insert v"] set_ok_def)
next
  case False
  then have "us_mask s \<noteq> 0" by simp
  then have "table_ok s" using ok by (auto simp: set_ok_def set_new_def)
  with set_run_insert_room [of s v] False show ?thesis
    by (auto simp: set_insert_def set_ok_def not_le)
qed

text \<open>The table doubles only at seven tenths of its load, so it never has more than three slots for a
  key, its first capacity apart.\<close>

lemma insert_capacity:
  assumes ok: "set_ok s" and run: "set_insert s v = Some (b, s')"
  shows "length (us_keys s') \<le> max (max 8 (length (us_keys s))) (3 * (card (set_elems s) + 1))"
proof (cases "us_mask s = 0 \<or> (us_len s + 1) * LOAD_DEN \<ge> length (us_keys s) * LOAD_NUM")
  case True
  from grow_spec [OF ok] obtain c g where g: "set_run Grow s = Some (c, g)" "table_ok g"
    "(us_len g + 1) * LOAD_DEN < length (us_keys g) * LOAD_NUM" "length (us_keys g) = max 8 (2 * length (us_keys s))"
    by blast
  from run_insert_room [OF g(2,3), of v] True g(1) run have len: "length (us_keys s') = length (us_keys g)"
    by (auto simp: set_insert_def set_run.simps [of "Insert v"])
  show ?thesis
  proof (cases "s = set_new")
    case True
    then show ?thesis unfolding len g(4) by (simp add: set_new_def)
  next
    case False
    then have tab: "table_ok s" using ok by (simp add: set_ok_def)
    then have "length (us_keys s) * 7 \<le> (us_len s + 1) * 10"
      using True table_mask_pos [OF tab] by (simp add: LOAD_NUM_def LOAD_DEN_def)
    then have "2 * length (us_keys s) \<le> 3 * (us_len s + 1)" by linarith
    then show ?thesis unfolding len g(4) table_len_elems [OF tab, symmetric] by linarith
  qed
next
  case False
  then have "us_mask s \<noteq> 0" by simp
  then have "table_ok s" using ok by (auto simp: set_ok_def set_new_def)
  with set_run_insert_room [of s v] False run show ?thesis by (auto simp: set_insert_def not_le)
qed


lemma next_power_of_two_pow: "\<exists>t. next_power_of_two n = 2 ^ t"
proof (induction n rule: next_power_of_two.induct)
  case (1 n)
  show ?case
  proof (cases "n \<le> 1")
    case True
    then show ?thesis by (intro exI [of _ 0]) (simp add: next_power_of_two.simps [of n])
  next
    case False
    with 1 obtain t where "next_power_of_two ((n + 1) div 2) = 2 ^ t" by blast
    with False show ?thesis
      by (intro exI [of _ "Suc t"]) (simp add: next_power_of_two.simps [of n])
  qed
qed

lemma next_power_of_two_ge: "n \<le> next_power_of_two n"
proof (induction n rule: next_power_of_two.induct)
  case (1 n)
  show ?case
  proof (cases "n \<le> 1")
    case False
    with 1 have "(n + 1) div 2 \<le> next_power_of_two ((n + 1) div 2)" by blast
    then have "n \<le> 2 * next_power_of_two ((n + 1) div 2)" by linarith
    with False show ?thesis by (simp add: next_power_of_two.simps [of n])
  qed (simp add: next_power_of_two.simps [of n])
qed

lemma next_power_of_two_le: "1 < n \<Longrightarrow> next_power_of_two n \<le> 2 * n - 2"
proof (induction n rule: next_power_of_two.induct)
  case (1 n)
  let ?m = "(n + 1) div 2"
  have step: "next_power_of_two n = 2 * next_power_of_two ?m" using 1(2) by (simp add: next_power_of_two.simps [of n])
  show ?case
  proof (cases "1 < ?m")
    case True
    have "next_power_of_two ?m \<le> 2 * ?m - 2" by (rule 1(1)) (use 1(2) True in simp_all)
    moreover have "2 * ?m \<le> n + 1" by simp
    ultimately have "2 * next_power_of_two ?m \<le> 2 * (n + 1 - 2)" by linarith
    then show ?thesis unfolding step by simp
  next
    case False
    then have "next_power_of_two ?m = 1" by (subst next_power_of_two.simps) simp
    with step have "next_power_of_two n = 2" by (simp only: mult_1_right)
    then show ?thesis using 1(2) by linarith
  qed
qed

lemma capacity_pow: "\<exists>t \<ge> 3. max (next_power_of_two n) 8 = 2 ^ t"
proof -
  obtain t where t: "next_power_of_two n = 2 ^ t" using next_power_of_two_pow by blast
  show ?thesis
  proof (cases "3 \<le> t")
    case True
    then have "(2 :: nat) ^ 3 \<le> 2 ^ t" by (intro power_increasing) simp_all
    with t True show ?thesis by (intro exI [of _ t]) simp
  next
    case False
    then have "(2 :: nat) ^ t \<le> 2 ^ 3" by (intro power_increasing) simp_all
    with t show ?thesis by (intro exI [of _ 3]) simp
  qed
qed

lemma with_capacity_spec: "set_ok (set_with_capacity n)" "set_elems (set_with_capacity n) = {}"
proof -
  obtain t where "3 \<le> t" "max (next_power_of_two n) 8 = 2 ^ t" using capacity_pow by blast
  then show "set_ok (set_with_capacity n)" "set_elems (set_with_capacity n) = {}"
    using fresh_ok [of t] by (simp_all add: set_with_capacity_def set_ok_def)
qed

lemma new_spec: "set_ok set_new" "set_elems set_new = {}"
  by (simp_all add: set_ok_def set_new_def set_elems_def)

section \<open>The interface: a set of keys\<close>

text \<open>
  What the decoder relies on: lookups and insertions return (no panic, no endless probing), a
  lookup is membership, an insertion reports freshness and adds the key.
\<close>

locale key_set =
  fixes contains :: "'s \<Rightarrow> 'k \<Rightarrow> bool option"
    and insert_key :: "'s \<Rightarrow> 'k \<Rightarrow> (bool \<times> 's) option"
    and elems :: "'s \<Rightarrow> 'k set"
    and invar :: "'s \<Rightarrow> bool"
  assumes contains_elems: "invar s \<Longrightarrow> contains s v = Some (v \<in> elems s)"
    and insert_elems: "invar s \<Longrightarrow>
      \<exists>s'. insert_key s v = Some (v \<notin> elems s, s') \<and> invar s' \<and> elems s' = insert v (elems s)"
begin

primrec insert_all :: "'s \<Rightarrow> 'k list \<Rightarrow> (bool list \<times> 's) option" where
  "insert_all s [] = Some ([], s)"
| "insert_all s (v # vs) = do {
     (b, s') \<leftarrow> insert_key s v;
     (bs, s'') \<leftarrow> insert_all s' vs;
     Some (b # bs, s'') }"

lemma insert_elemsE:
  assumes "invar s"
  obtains s' where "insert_key s v = Some (v \<notin> elems s, s')" "invar s'" "elems s' = insert v (elems s)"
  using insert_elems [OF assms, of v] by blast

lemma insert_contains:
  "invar s \<Longrightarrow> insert_key s v = Some (b, s') \<Longrightarrow>
   b = (v \<notin> elems s) \<and> invar s' \<and> contains s' w = Some (w = v \<or> w \<in> elems s)"
  using insert_elems [of s v] contains_elems [of s' w] by auto

lemma insert_again: "invar s \<Longrightarrow> insert_key s v = Some (b, s') \<Longrightarrow> \<exists>s''. insert_key s' v = Some (False, s'')"
  using insert_elems [of s v] insert_elems [of s' v] by auto

text \<open>A run of insertions reports exactly the first occurrences of keys that were not there.\<close>

lemma insert_all_spec:
  "invar s \<Longrightarrow> \<exists>s'. insert_all s vs =
      Some (map (\<lambda>i. vs ! i \<notin> elems s \<union> set (take i vs)) [0..<length vs], s') \<and>
      invar s' \<and> elems s' = elems s \<union> set vs"
proof (induction vs arbitrary: s)
  case Nil
  then show ?case by simp
next
  case (Cons v vs)
  from Cons.prems obtain s1 where s1: "insert_key s v = Some (v \<notin> elems s, s1)" "invar s1"
    "elems s1 = insert v (elems s)" by (rule insert_elemsE)
  from Cons.IH [OF s1(2)] obtain s2 where "insert_all s1 vs =
      Some (map (\<lambda>i. vs ! i \<notin> elems s1 \<union> set (take i vs)) [0..<length vs], s2)"
    "invar s2" "elems s2 = elems s1 \<union> set vs" by blast
  with s1 show ?case by (auto simp: upt_conv_Cons map_Suc_upt [symmetric] simp del: upt_Suc)
qed

end

interpretation u32s: key_set set_contains set_insert set_elems set_ok
  by unfold_locales (auto intro: contains_spec insert_spec)

section \<open>Properties\<close>

lemma set_len_spec: "set_ok s \<Longrightarrow> set_len s = card (set_elems s)"
  by (auto simp: set_ok_def set_len_def table_len_elems) (simp add: set_new_def set_elems_def)

lemma hash_low_bits:
  assumes "t \<le> 32"
  shows "hash (v + of_nat i) mod 2 ^ t = (unat v + i) * 0x9e3779b1 mod 2 ^ t"
proof -
  have "(2 :: nat) ^ t dvd 2 ^ 32" using assms by (rule le_imp_power_dvd)
  then have low: "n mod 2 ^ 32 mod 2 ^ t = n mod 2 ^ t" for n :: nat by (rule mod_mod_cancel)
  have "hash (v + of_nat i) = (unat v + i) * 0x9e3779b1 mod 2 ^ 32"
    by (simp add: hash_def unat_word_ariths unat_of_nat mod_simps)
  then show ?thesis by (simp only: low)
qed

lemma mod_add_left_cancelD:
  fixes a i j m :: nat
  assumes "(a + i) mod m = (a + j) mod m" shows "i mod m = j mod m"
proof -
  from assms obtain p q where "a + i + m * p = a + j + m * q" unfolding nat_mod_eq_iff by blast
  then have "i + m * p = j + m * q" by linarith
  then show ?thesis unfolding nat_mod_eq_iff by blast
qed

lemma odd_factor_cancel:
  fixes a b :: nat
  assumes t: "t \<le> 32" and eq: "a * 0x9e3779b1 mod 2 ^ t = b * 0x9e3779b1 mod 2 ^ t"
  shows "a mod 2 ^ t = b mod 2 ^ t"
proof -
  define c d :: nat where "c = 0x9e3779b1" and "d = 0xe8b2f51"
  have cd32: "c * d mod 2 ^ 32 = 1 mod 2 ^ 32" by (simp add: c_def d_def)
  have "(2 :: nat) ^ t dvd 2 ^ 32" using t by (rule le_imp_power_dvd)
  then have low: "n mod 2 ^ 32 mod 2 ^ t = n mod 2 ^ t" for n :: nat by (rule mod_mod_cancel)
  from cd32 have "c * d mod 2 ^ 32 mod 2 ^ t = 1 mod 2 ^ 32 mod 2 ^ t" by (rule arg_cong)
  then have cd: "c * d mod 2 ^ t = 1 mod 2 ^ t" by (simp only: low)
  have strip: "n * c mod 2 ^ t * d mod 2 ^ t = n mod 2 ^ t" for n
  proof -
    have "n * c mod 2 ^ t * d mod 2 ^ t = n * (c * d) mod 2 ^ t"
      by (simp only: mod_mult_left_eq mult.assoc)
    also have "\<dots> = n * (c * d mod 2 ^ t) mod 2 ^ t" by (simp only: mod_mult_right_eq)
    also have "\<dots> = n mod 2 ^ t" unfolding cd by (simp only: mod_mult_right_eq mult_1_right)
    finally show ?thesis .
  qed
  from eq have "a * c mod 2 ^ t = b * c mod 2 ^ t" by (simp only: c_def)
  then have "a * c mod 2 ^ t * d mod 2 ^ t = b * c mod 2 ^ t * d mod 2 ^ t" by (simp only:)
  then show ?thesis by (simp only: strip)
qed

text \<open>C35: from a table that satisfies its invariant, in particular from \<open>new\<close> and from
  \<open>with_capacity\<close>, a lookup and an insertion always return, a lookup answers membership, an
  insertion reports whether the key is fresh and adds it, growth included, and \<open>len\<close> is the
  number of keys.\<close>

theorem set_implements_finite_set:
  assumes "set_ok s"
  shows "set_contains s v = Some (v \<in> set_elems s) \<and> set_len s = card (set_elems s) \<and>
     (\<exists>s'. set_insert s v = Some (v \<notin> set_elems s, s') \<and> set_ok s' \<and>
        set_elems s' = insert v (set_elems s) \<and>
        set_contains s' w = Some (w = v \<or> w \<in> set_elems s))"
proof -
  obtain s' where "set_insert s v = Some (v \<notin> set_elems s, s')" "set_ok s'"
    "set_elems s' = insert v (set_elems s)" using assms by (rule u32s.insert_elemsE)
  then show ?thesis using assms by (simp add: set_len_spec u32s.contains_elems)
qed

theorem set_implements_finite_set_witness:
  "set_contains (set_with_capacity 4) 7 = Some False \<and>
   (\<exists>s'. set_insert (set_with_capacity 4) 7 = Some (True, s') \<and> set_elems s' = {7} \<and>
     set_contains s' 8 = Some False)"
  using set_implements_finite_set [OF with_capacity_spec(1) [of 4], of 7 8]
  by (auto simp: with_capacity_spec(2))

text \<open>The home slots of any run of at most \<open>2 ^ t\<close> consecutive keys in a table of capacity
  \<open>2 ^ t\<close> are pairwise distinct, so consecutive sequence numbers never collide.\<close>

theorem consecutive_keys_never_collide:
  assumes "t \<le> 32" and "i < 2 ^ t" and "j < 2 ^ t" and "i \<noteq> j"
  shows "hash (v + of_nat i) AND (2 ^ t - 1) \<noteq> hash (v + of_nat j) AND (2 ^ t - 1)"
proof
  assume "hash (v + of_nat i) AND (2 ^ t - 1) = hash (v + of_nat j) AND (2 ^ t - 1)"
  then have "(unat v + i) * 0x9e3779b1 mod 2 ^ t = (unat v + j) * 0x9e3779b1 mod 2 ^ t"
    by (simp only: mask_mod One_nat_def hash_low_bits [OF assms(1)])
  then have "(unat v + i) mod 2 ^ t = (unat v + j) mod 2 ^ t"
    by (rule odd_factor_cancel [OF assms(1)])
  then have "i mod 2 ^ t = j mod 2 ^ t" by (rule mod_add_left_cancelD)
  with assms(2-4) show False by (simp only: mod_less)
qed

theorem consecutive_keys_never_collide_witness:
  "hash (0xffffffff + of_nat 0) AND (2 ^ 3 - 1) \<noteq> hash (0xffffffff + of_nat 5) AND (2 ^ 3 - 1)"
  by (rule consecutive_keys_never_collide) simp_all

end
