(* ===== verification/Prng.thy ===== *)
theory Prng
  imports Simd
begin

text \<open>
  The wire-format PRNG (\<open>src/prng.rs\<close>): \<open>SplitMix32\<close>, its bounded draw and the per-frame
  seed. The state advances by an odd constant and the output is an invertible mix of the
  state, so the generator has full period: over any \<open>2 ^ 32\<close> consecutive draws every 32-bit
  value comes exactly once (\<open>draw_hits_once\<close>). Rejection sampling on the bounded draw
  therefore always ends; the theory of block selection uses \<open>bounded_draw_hits\<close>.
\<close>

unbundle bit_operations_syntax

section \<open>The generator\<close>

record splitmix32 =
  sm_state :: u32

definition splitmix_new :: "u32 \<Rightarrow> splitmix32" where
  "splitmix_new seed = \<lparr>sm_state = seed\<rparr>"

definition next_u32 :: "splitmix32 \<Rightarrow> u32 \<times> splitmix32" where
  "next_u32 r =
     (let s = sm_state r + 0x9e3779b9;
          t = s XOR drop_bit 16 s;
          t = t * 0x21f0aaad;
          t = t XOR drop_bit 15 t;
          t = t * 0x735a2d97;
          t = t XOR drop_bit 15 t
      in (t, r\<lparr>sm_state := s\<rparr>))"

definition next_bounded :: "splitmix32 \<Rightarrow> u32 \<Rightarrow> u32 \<times> splitmix32" where
  "next_bounded r bound =
     (if bound = 0 then (0, r)
      else let (v, r') = next_u32 r in (v mod bound, r'))"

definition splitmix_next :: "splitmix32 \<Rightarrow> u32 option \<times> splitmix32" where
  "splitmix_next r = (let (v, r') = next_u32 r in (Some v, r'))"

definition frame_seed :: "u32 \<Rightarrow> u32 \<Rightarrow> u32" where
  "frame_seed session_id seq =
     (let h = (session_id + 1) * 0x9e3779b1 XOR (seq + 0x85ebca6b);
          h = (h XOR drop_bit 13 h) * 0xc2b2ae35
      in h XOR drop_bit 16 h)"

section \<open>Invertibility and period\<close>

definition mix32 :: "u32 \<Rightarrow> u32" where
  "mix32 s =
     (let t = s XOR drop_bit 16 s;
          t = t * 0x21f0aaad;
          t = t XOR drop_bit 15 t;
          t = t * 0x735a2d97
      in t XOR drop_bit 15 t)"

lemma next_u32_eq:
  "next_u32 r = (mix32 (sm_state r + 0x9e3779b9), \<lparr>sm_state = sm_state r + 0x9e3779b9\<rparr>)"
  by (cases r) (simp add: next_u32_def mix32_def Let_def)

lemma mult_21f0aaad_inj: "x * 0x21f0aaad = y * 0x21f0aaad \<Longrightarrow> x = (y :: u32)"
  by (rule mult_inverse_inj [where c = "0x21f0aaad" and d = "0x333c4925"]) simp_all

lemma mult_735a2d97_inj: "x * 0x735a2d97 = y * 0x735a2d97 \<Longrightarrow> x = (y :: u32)"
  by (rule mult_inverse_inj [where c = "0x735a2d97" and d = "0x97132227"]) simp_all

lemma mult_c2b2ae35_inj: "x * 0xc2b2ae35 = y * 0xc2b2ae35 \<Longrightarrow> x = (y :: u32)"
  by (rule mult_inverse_inj [where c = "0xc2b2ae35" and d = "0x7ed1b41d"]) simp_all

lemma mult_gamma_inj: "x * 0x9e3779b9 = y * 0x9e3779b9 \<Longrightarrow> x = (y :: u32)"
  by (rule mult_inverse_inj [where c = "0x9e3779b9" and d = "0x144cbc89"]) simp_all

lemma xor_shift_16_inj: "x XOR drop_bit 16 x = y XOR drop_bit 16 y \<Longrightarrow> x = (y :: u32)"
  by (rule xor_shift_inj [of 16]) simp_all

lemma xor_shift_15_inj: "x XOR drop_bit 15 x = y XOR drop_bit 15 y \<Longrightarrow> x = (y :: u32)"
  by (rule xor_shift_inj [of 15]) simp_all

lemma xor_shift_13_inj: "x XOR drop_bit 13 x = y XOR drop_bit 13 y \<Longrightarrow> x = (y :: u32)"
  by (rule xor_shift_inj [of 13]) simp_all

lemma mix32_inj:
  assumes "mix32 x = mix32 y" shows "x = y"
proof -
  define a where "a z = z XOR drop_bit 16 z" for z :: u32
  define b where "b z = a z * 0x21f0aaad XOR drop_bit 15 (a z * 0x21f0aaad)" for z :: u32
  have mix: "mix32 z = b z * 0x735a2d97 XOR drop_bit 15 (b z * 0x735a2d97)" for z
    by (simp only: mix32_def Let_def a_def b_def)
  from assms have "b x * 0x735a2d97 = b y * 0x735a2d97"
    unfolding mix by (rule xor_shift_15_inj)
  then have "b x = b y" by (rule mult_735a2d97_inj)
  then have "a x * 0x21f0aaad = a y * 0x21f0aaad"
    unfolding b_def by (rule xor_shift_15_inj)
  then have "a x = a y" by (rule mult_21f0aaad_inj)
  then show "x = y" unfolding a_def by (rule xor_shift_16_inj)
qed

text \<open>\<open>advance n r\<close> is the generator after \<open>n\<close> draws; \<open>draw r n\<close> is draw number \<open>n\<close>.\<close>

primrec advance :: "nat \<Rightarrow> splitmix32 \<Rightarrow> splitmix32" where
  "advance 0 r = r"
| "advance (Suc n) r = snd (next_u32 (advance n r))"

definition draw :: "splitmix32 \<Rightarrow> nat \<Rightarrow> u32" where
  "draw r n = fst (next_u32 (advance n r))"

lemma advance_state: "sm_state (advance n r) = sm_state r + of_nat n * 0x9e3779b9"
  by (induction n) (simp_all add: next_u32_eq algebra_simps)

lemma advance_Suc': "advance (Suc n) r = advance n (snd (next_u32 r))"
  by (induction n) simp_all

lemma draw_Suc: "draw r (Suc n) = draw (snd (next_u32 r)) n"
  unfolding draw_def by (simp only: advance_Suc')

lemma draw_0: "draw r 0 = fst (next_u32 r)"
  by (simp add: draw_def)

lemma draw_eq: "draw r n = mix32 (sm_state r + of_nat (Suc n) * 0x9e3779b9)"
  by (simp add: draw_def next_u32_eq advance_state algebra_simps)

lemma draw_inj_on: "inj_on (draw r) {..<2 ^ 32}"
proof (rule inj_onI)
  fix m n :: nat
  assume m: "m \<in> {..<2 ^ 32}" and n: "n \<in> {..<2 ^ 32}" and "draw r m = draw r n"
  then have "of_nat (Suc m) * 0x9e3779b9 = of_nat (Suc n) * (0x9e3779b9 :: u32)"
    unfolding draw_eq by (auto dest: mix32_inj)
  then have "of_nat (Suc m) = (of_nat (Suc n) :: u32)" by (rule mult_gamma_inj)
  then have "of_nat m = (of_nat n :: u32)" by simp
  then have "unat (of_nat m :: u32) = unat (of_nat n :: u32)" by simp
  with m n show "m = n" by (simp add: unat_of_nat)
qed

lemma draw_surj: "draw r ` {..<2 ^ 32} = UNIV"
proof (rule card_subset_eq)
  have "card (draw r ` {..<2 ^ 32}) = card {..<(2 :: nat) ^ 32}"
    by (rule card_image [OF draw_inj_on])
  also have "\<dots> = 2 ^ 32" by (rule card_lessThan)
  also have "\<dots> = card (UNIV :: u32 set)" by (simp only: card_word len_num0 len_bit0 len_of_numeral_defs) simp
  finally show "card (draw r ` {..<2 ^ 32}) = card (UNIV :: u32 set)" .
qed (rule finite, rule subset_UNIV)

lemma draw_hits: "\<exists>n < 2 ^ 32. draw r n = v"
proof -
  have "v \<in> draw r ` {..<2 ^ 32}" by (simp only: draw_surj UNIV_I)
  then obtain n where "n \<in> {..<2 ^ 32}" "v = draw r n" by (rule imageE)
  then show ?thesis by (intro exI [of _ n] conjI) (simp_all only: lessThan_iff)
qed

text \<open>C40: over any \<open>2 ^ 32\<close> consecutive draws, \<open>SplitMix32\<close> returns every 32-bit value
  exactly once.\<close>

theorem splitmix_full_period:
  "\<exists>!n. n < 2 ^ 32 \<and> fst (next_u32 (advance n r)) = v"
proof -
  obtain n where n: "n < 2 ^ 32" "draw r n = v" using draw_hits by blast
  show ?thesis
  proof (rule ex1I [of _ n])
    fix m assume "m < 2 ^ 32 \<and> fst (next_u32 (advance m r)) = v"
    with n show "m = n"
      using inj_onD [OF draw_inj_on [of r], of m n] by (simp add: draw_def)
  qed (use n in \<open>simp add: draw_def\<close>)
qed

lemma next_bounded_less: "0 < bound \<Longrightarrow> fst (next_bounded r bound) < bound"
  by (auto simp: next_bounded_def split: prod.split simp flip: word_neq_0_conv
      intro: word_mod_less_divisor)

lemma next_bounded_state: "0 < bound \<Longrightarrow> snd (next_bounded r bound) = snd (next_u32 r)"
  by (auto simp: next_bounded_def split: prod.split)

lemma fst_next_bounded: "0 < bound \<Longrightarrow> fst (next_bounded r bound) = fst (next_u32 r) mod bound"
  by (auto simp: next_bounded_def split: prod.split)

lemma bounded_draw_hits:
  assumes "v < bound"
  shows "\<exists>n. fst (next_bounded (advance n r) bound) = v"
proof -
  have pos: "0 < bound" using assms by (rule le_less_trans [OF word_zero_le])
  obtain n where "draw r n = v" using draw_hits by blast
  then have "fst (next_bounded (advance n r) bound) = v mod bound"
    by (simp only: fst_next_bounded [OF pos] draw_def)
  also have "v mod bound = v" using assms by (rule mod_word_less)
  finally show ?thesis by blast
qed

lemma xor_right_cancel: "x XOR z = y XOR z \<Longrightarrow> x = (y :: u32)"
proof -
  assume "x XOR z = y XOR z"
  then have "(x XOR z) XOR z = (y XOR z) XOR z" by (rule arg_cong)
  then show "x = y" by (simp add: xor.assoc)
qed

lemma frame_seed_finish_inj:
  assumes "(x XOR drop_bit 13 x) * 0xc2b2ae35 XOR drop_bit 16 ((x XOR drop_bit 13 x) * 0xc2b2ae35)
    = (y XOR drop_bit 13 y) * 0xc2b2ae35 XOR drop_bit 16 ((y XOR drop_bit 13 y) * 0xc2b2ae35)"
  shows "x = (y :: u32)"
  by (rule xor_shift_13_inj, rule mult_c2b2ae35_inj, rule xor_shift_16_inj, rule assms)

text \<open>For a fixed session, two frames whose sequence numbers differ never share a PRNG seed;
  for a fixed sequence number, two sessions that differ do not either.\<close>

theorem frame_seed_injective:
  "(frame_seed s a = frame_seed s b) = (a = b) \<and> (frame_seed s a = frame_seed t a) = (s = t)"
proof -
  have pre: "(s + 1) * 0x9e3779b1 XOR (a + 0x85ebca6b) = (t + 1) * 0x9e3779b1 XOR (b + 0x85ebca6b)"
    if "frame_seed s a = frame_seed t b" for s t a b
    using that unfolding frame_seed_def Let_def by (rule frame_seed_finish_inj)
  have "a = b" if "frame_seed s a = frame_seed s b"
  proof -
    have "a + 0x85ebca6b = b + 0x85ebca6b"
      using pre [OF that] xor_right_cancel by (metis xor.commute)
    then show ?thesis by simp
  qed
  moreover have "s = t" if "frame_seed s a = frame_seed t a"
  proof -
    have "(s + 1) * 0x9e3779b1 = (t + 1) * 0x9e3779b1"
      using pre [OF that] by (rule xor_right_cancel)
    then have "s + 1 = t + 1"
      by (rule mult_inverse_inj [rotated, where d = "0xe8b2f51"]) simp
    then show ?thesis by simp
  qed
  ultimately show ?thesis by auto
qed

end
