(* ===== verification/Select.thy ===== *)
theory Select
  imports Prng Sampler
begin

text \<open>
  Block selection (the functions \<open>select_blocks\<close>, \<open>frame_indices\<close> and
  \<open>frame_indices_into\<close> of \<open>src/fountain.rs\<close>): which source blocks the repair frame of a
  sequence number combines. Dense degrees run a partial Fisher-Yates shuffle on a scratch vector;
  sparse degrees reject repeated draws, in a loop whose end rests on the generator's full period.
\<close>

section \<open>Selection\<close>

definition swap_at :: "'a list \<Rightarrow> usize \<Rightarrow> usize \<Rightarrow> 'a list option" where
  "swap_at xs i j = do {
     a \<leftarrow> get_at xs i;
     b \<leftarrow> get_at xs j;
     Some (xs[i := b, j := a]) }"

fun dense_loop :: "usize \<Rightarrow> usize list \<Rightarrow> u32 list \<Rightarrow> u32 list \<Rightarrow> splitmix32 \<Rightarrow>
    (u32 list \<times> u32 list \<times> splitmix32) option" where
  "dense_loop k [] out scratch rng = Some (out, scratch, rng)"
| "dense_loop k (i # is) out scratch rng = do {
     left \<leftarrow> checked_sub k i;
     let (v, rng) = next_bounded rng (word_of_nat left);
     let j = i + unat v;
     scratch \<leftarrow> swap_at scratch i j;
     x \<leftarrow> get_at scratch i;
     dense_loop k is (out @ [x]) scratch rng }"

partial_function (option) sparse_loop ::
    "usize \<Rightarrow> usize \<Rightarrow> u32 list \<Rightarrow> splitmix32 \<Rightarrow> (u32 list \<times> splitmix32) option" where
  "sparse_loop k d out rng =
     (if length out < d then
        let (v, rng') = next_bounded rng (word_of_nat k)
        in if v \<in> set out then sparse_loop k d out rng' else sparse_loop k d (out @ [v]) rng'
      else Some (out, rng))"

declare sparse_loop.simps [code]

definition fill_scratch :: "u32 list \<Rightarrow> usize \<Rightarrow> u32 list" where
  "fill_scratch scratch k = map word_of_nat [0..<max (length scratch) k]"

definition select_blocks :: "u32 list \<Rightarrow> u32 list \<Rightarrow> usize \<Rightarrow> usize \<Rightarrow> splitmix32 \<Rightarrow>
    (u32 list \<times> u32 list \<times> splitmix32) option" where
  "select_blocks out scratch k d rng =
     (if drop_bit 3 k < d then dense_loop k [0..<d] out (fill_scratch scratch k) rng
      else do {
        (out, rng) \<leftarrow> sparse_loop k d out rng;
        Some (out, scratch, rng) })"

definition unit_draw :: "u32 \<Rightarrow> f64" where
  "unit_draw v = f_div (f_of_nat (unat v)) (f_lit 4294967296)"

definition frame_indices :: "usize \<Rightarrow> f64 list \<Rightarrow> u32 \<Rightarrow> u32 \<Rightarrow> u32 list option" where
  "frame_indices k cdf session_id seq =
     (if k = 0 \<or> length cdf \<noteq> k then Some []
      else do {
        let (v, rng) = next_u32 (splitmix_new (frame_seed session_id seq));
        d \<leftarrow> degree_binary cdf (unit_draw v);
        (out, scratch, rng) \<leftarrow> select_blocks [] [] k (min d k) rng;
        Some out })"

definition frame_indices_into :: "u32 list \<Rightarrow> u32 list \<Rightarrow> degree_cdf \<Rightarrow> u32 \<Rightarrow> u32 \<Rightarrow>
    (u32 list \<times> u32 list) option" where
  "frame_indices_into out scratch cdf session_id seq = do {
     let out = [];
     let (v, rng) = next_u32 (splitmix_new (frame_seed session_id seq));
     let k = degree_cdf_k cdf;
     d \<leftarrow> sample cdf (unit_draw v);
     (out, scratch, rng) \<leftarrow> select_blocks out scratch k (min d k) rng;
     Some (out, scratch) }"

section \<open>The shuffle\<close>

text \<open>Entries of the scratch vector past the block count play no part.\<close>

lemma draw_below:
  assumes "i < k" and "k < 2 ^ 32"
  shows "i + unat (fst (next_bounded rng (word_of_nat (k - i)))) < k"
proof -
  have "k - i < 2 ^ LENGTH(32)" using assms(2) by simp
  then have u: "unat (word_of_nat (k - i) :: u32) = k - i" by (simp only: unat_of_nat mod_less)
  then have "0 < (word_of_nat (k - i) :: u32)" using assms(1) by (simp add: word_less_nat_alt)
  from next_bounded_less [OF this, of rng]
  have "unat (fst (next_bounded rng (word_of_nat (k - i)))) < k - i" unfolding word_less_nat_alt u .
  then show ?thesis by linarith
qed

lemma dense_loop_run:
  assumes "k < 2 ^ 32" and "length sc = k" and "d \<le> k" and "i \<le> d"
  shows "\<exists>sc' rng'. dense_loop k [i..<d] out (sc @ ex) rng =
      Some (out @ drop i (take d sc'), sc' @ ex, rng') \<and>
    length sc' = k \<and> take i sc' = take i sc \<and> set sc' = set sc \<and> (distinct sc \<longrightarrow> distinct sc') \<and>
    (\<forall>ex2. dense_loop k [i..<d] out (sc @ ex2) rng =
      Some (out @ drop i (take d sc'), sc' @ ex2, rng'))"
  using assms(2,4)
proof (induction "d - i" arbitrary: i sc out rng)
  case 0
  then show ?case by auto
next
  case (Suc n)
  then have i: "i < d" by simp
  obtain v rng1 where v: "next_bounded rng (word_of_nat (k - i)) = (v, rng1)" by fastforce
  let ?j = "i + unat v"
  have j: "i < k" "?j < k" using draw_below [of i k rng] v i assms by auto
  let ?sc = "sc[i := sc ! ?j, ?j := sc ! i]"
  have step: "dense_loop k [i..<d] out (sc @ e) rng =
      dense_loop k [Suc i..<d] (out @ [sc ! ?j]) (?sc @ e) rng1" for e
    using i j v Suc.prems(1)
    by (simp add: upt_conv_Cons checked_sub_def swap_at_def get_at_def nth_append list_update_append
        nth_list_update Let_def)
  have "n = d - Suc i" "length ?sc = k" "Suc i \<le> d" using Suc.hyps(2) Suc.prems(1) i by auto
  from Suc.hyps(1) [OF this, of "out @ [sc ! ?j]" rng1] obtain sc' rng' where ih:
    "\<And>e. dense_loop k [Suc i..<d] (out @ [sc ! ?j]) (?sc @ e) rng1 =
      Some ((out @ [sc ! ?j]) @ drop (Suc i) (take d sc'), sc' @ e, rng')"
    "length sc' = k" "take (Suc i) sc' = take (Suc i) ?sc" "set sc' = set ?sc"
    "distinct ?sc \<longrightarrow> distinct sc'"
    by blast
  have at_i: "sc' ! i = sc ! ?j"
  proof -
    have "take (Suc i) sc' ! i = take (Suc i) ?sc ! i" using ih(3) by simp
    then show ?thesis using j Suc.prems(1) ih(2) by (simp add: nth_list_update)
  qed
  have "drop i (take d sc') = sc' ! i # drop (Suc i) (take d sc')"
    using i ih(2) assms(3) Cons_nth_drop_Suc [of i "take d sc'"] by simp
  moreover have "take i sc' = take i sc"
  proof -
    have "take i (take (Suc i) sc') = take i (take (Suc i) ?sc)" using ih(3) by simp
    then show ?thesis by (simp add: min_def take_update_cancel)
  qed
  moreover have "set sc' = set sc" using ih(4) j Suc.prems(1) by simp
  moreover have "distinct sc \<longrightarrow> distinct sc'" using ih(5) j Suc.prems(1) by simp
  ultimately show ?case using ih(1,2) step at_i by simp
qed

lemma fill_scratch_split:
  "fill_scratch scratch k = map word_of_nat [0..<k] @ map word_of_nat [k..<max (length scratch) k]"
  using upt_add_eq_append [of 0 k "max (length scratch) k - k"]
  by (simp add: fill_scratch_def flip: map_append)

section \<open>The rejection loop\<close>

lemma sparse_loop_progress:
  assumes "length out < d" and "0 < (word_of_nat k :: u32)"
    and "fst (next_bounded (advance n rng) (word_of_nat k)) \<notin> set out"
  shows "\<exists>v rng'. v \<notin> set out \<and> v < word_of_nat k \<and>
    sparse_loop k d out rng = sparse_loop k d (out @ [v]) rng'"
  using assms(3)
proof (induction n arbitrary: rng)
  case 0
  then show ?case
    using assms(1) next_bounded_less [OF assms(2), of rng]
    by (subst sparse_loop.simps) (auto simp: split_beta Let_def)
next
  case (Suc n)
  show ?case
  proof (cases "fst (next_bounded rng (word_of_nat k)) \<in> set out")
    case True
    have "advance (Suc n) rng = advance n (snd (next_bounded rng (word_of_nat k)))"
      by (simp only: advance_Suc' next_bounded_state [OF assms(2)])
    with Suc have "\<exists>v rng'. v \<notin> set out \<and> v < word_of_nat k \<and>
      sparse_loop k d out (snd (next_bounded rng (word_of_nat k))) = sparse_loop k d (out @ [v]) rng'"
      by metis
    moreover have "sparse_loop k d out rng = sparse_loop k d out (snd (next_bounded rng (word_of_nat k)))"
      using True assms(1) by (subst sparse_loop.simps) (auto simp: split_beta Let_def)
    ultimately show ?thesis by simp
  next
    case False
    then show ?thesis
      using assms(1) next_bounded_less [OF assms(2), of rng]
      by (subst sparse_loop.simps) (auto simp: split_beta Let_def)
  qed
qed

lemma fresh_block:
  assumes "k < 2 ^ 32" and "length out < k"
  shows "\<exists>v. v < word_of_nat k \<and> v \<notin> set (out :: u32 list)"
proof -
  have "\<not> {..<k} \<subseteq> unat ` set out"
  proof
    assume "{..<k} \<subseteq> unat ` set out"
    then have "card {..<k} \<le> card (unat ` set out)" by (intro card_mono) simp_all
    also have "\<dots> \<le> length out" by (meson card_image_le card_length finite_set le_trans)
    finally show False using assms(2) by simp
  qed
  then obtain n where n: "n < k" "n \<notin> unat ` set out" by auto
  then have "unat (word_of_nat n :: u32) = n" using assms(1) by (simp add: unat_of_nat)
  with n assms(1) have "(word_of_nat n :: u32) < word_of_nat k" "word_of_nat n \<notin> set out"
    by (auto simp: word_less_nat_alt unat_of_nat image_iff)
  then show ?thesis by blast
qed

lemma sparse_loop_run:
  assumes "k < 2 ^ 32" and "d \<le> k" and "distinct out" and "\<forall>v \<in> set out. unat v < k" and "length out \<le> d"
  shows "\<exists>out' rng'. sparse_loop k d out rng = Some (out', rng') \<and> distinct out' \<and> length out' = d \<and>
    (\<forall>v \<in> set out'. unat v < k)"
  using assms(3-5)
proof (induction "d - length out" arbitrary: out rng)
  case 0
  then show ?case by (subst sparse_loop.simps) auto
next
  case (Suc n)
  then have room: "length out < d" by simp
  have kw: "unat (word_of_nat k :: u32) = k" using assms(1) by (simp add: unat_of_nat)
  then have pos: "0 < (word_of_nat k :: u32)" using room assms(2) by (simp add: word_less_nat_alt)
  have "length out < k" using room assms(2) by simp
  from fresh_block [OF assms(1) this] obtain w where w: "w < word_of_nat k" "w \<notin> set out" by blast
  obtain m where "fst (next_bounded (advance m rng) (word_of_nat k)) = w"
    using bounded_draw_hits [OF w(1)] by blast
  then have "fst (next_bounded (advance m rng) (word_of_nat k)) \<notin> set out" using w(2) by simp
  from sparse_loop_progress [OF room pos this] obtain v rng' where
    v: "v \<notin> set out" "v < word_of_nat k" "sparse_loop k d out rng = sparse_loop k d (out @ [v]) rng'"
    by blast
  have "unat v < k" using v(2) by (simp add: word_less_nat_alt kw)
  then have "\<exists>out' rng''. sparse_loop k d (out @ [v]) rng' = Some (out', rng'') \<and> distinct out' \<and>
    length out' = d \<and> (\<forall>v \<in> set out'. unat v < k)"
    using Suc.prems v(1) room Suc.hyps(2) by (intro Suc.hyps(1)) auto
  then show ?case by (simp add: v(3))
qed

section \<open>The selected blocks\<close>

definition block_set :: "usize \<Rightarrow> u32 list \<Rightarrow> bool" where
  "block_set k bs \<longleftrightarrow> distinct bs \<and> (\<forall>b \<in> set bs. unat b < k)"

lemma block_set_length: "block_set k bs \<Longrightarrow> length bs \<le> k"
proof -
  assume b: "block_set k bs"
  have "length bs = card (set bs)" using b by (simp add: block_set_def distinct_card)
  also have "\<dots> = card (unat ` set bs)"
    by (rule card_image [symmetric]) (simp add: inj_on_def word_unat_eq_iff)
  also have "\<dots> \<le> card {..<k}" using b by (intro card_mono) (auto simp: block_set_def)
  finally show ?thesis by simp
qed

text \<open>The outcome depends on neither the scratch vector nor its length.\<close>

lemma select_blocks_ok:
  assumes k: "k < 2 ^ 32" and d: "d \<le> k"
  shows "\<exists>out rng'. block_set k out \<and> length out = d \<and>
    (\<forall>scratch. \<exists>scratch'. select_blocks [] scratch k d rng = Some (out, scratch', rng'))"
proof (cases "drop_bit 3 k < d")
  case True
  let ?sc = "map word_of_nat [0..<k] :: u32 list"
  have nums: "unat (word_of_nat i :: u32) = i" if "i < k" for i
    using that k by (simp add: unat_of_nat)
  have dist: "distinct ?sc"
    unfolding distinct_map by (auto intro!: inj_onI) (metis nums)
  have "length ?sc = k" by simp
  from dense_loop_run [OF k this d le0, of "[]" "[]" rng] obtain sc' rng' where run:
    "\<And>ex. dense_loop k [0..<d] [] (?sc @ ex) rng = Some (take d sc', sc' @ ex, rng')"
    "length sc' = k" "set sc' = set ?sc" "distinct ?sc \<longrightarrow> distinct sc'"
    unfolding drop_0 append_Nil by blast
  have "unat b < k" if "b \<in> set (take d sc')" for b
    using in_set_takeD [OF that] run(3) nums by auto
  then have "block_set k (take d sc')" using run(4) dist by (simp add: block_set_def)
  moreover have "length (take d sc') = d" using run(2) d by simp
  ultimately show ?thesis using True run(1)
    by (intro exI [of _ "take d sc'"] exI [of _ rng']) (simp add: select_blocks_def fill_scratch_split)
next
  case False
  from sparse_loop_run [OF k d, of "[]" rng] obtain out rng' where
    "sparse_loop k d [] rng = Some (out, rng')" "distinct out" "length out = d" "\<forall>v \<in> set out. unat v < k"
    by auto
  with False show ?thesis by (auto simp: select_blocks_def block_set_def)
qed

lemma unit_draw_valid [simp]: "f_valid (unit_draw v)"
  by (simp add: unit_draw_def)

lemma frame_indices_into_ok:
  assumes "degree_cdf_ok dc" and "degree_cdf_k dc < 2 ^ 32"
  shows "\<exists>bs. block_set (degree_cdf_k dc) bs \<and> (0 < degree_cdf_k dc \<longrightarrow> bs \<noteq> []) \<and>
    (\<forall>out scratch. \<exists>scratch'. frame_indices_into out scratch dc session_id seq = Some (bs, scratch'))"
proof -
  obtain v rng where v: "next_u32 (splitmix_new (frame_seed session_id seq)) = (v, rng)" by fastforce
  obtain d where d: "sample dc (unit_draw v) = Some d" "0 < degree_cdf_k dc \<longrightarrow> 1 \<le> d"
    using sample_bounds [OF assms(1) unit_draw_valid] by blast
  let ?k = "degree_cdf_k dc"
  have "\<exists>out rng'. block_set ?k out \<and> length out = min d ?k \<and>
    (\<forall>scratch. \<exists>scratch'. select_blocks [] scratch ?k (min d ?k) rng = Some (out, scratch', rng'))"
    by (rule select_blocks_ok [OF assms(2) min.cobounded2])
  then obtain bs rng' where
    bs: "block_set ?k bs" "length bs = min d ?k"
      "\<And>scratch. \<exists>scratch'. select_blocks [] scratch ?k (min d ?k) rng = Some (bs, scratch', rng')"
    by (elim exE conjE) (rule that, assumption+, rule spec)
  have "\<exists>scratch'. frame_indices_into out scratch dc session_id seq = Some (bs, scratch')" for out scratch
  proof -
    obtain scratch' where "select_blocks [] scratch (degree_cdf_k dc) (min d (degree_cdf_k dc)) rng =
      Some (bs, scratch', rng')" using bs(3) by blast
    then show ?thesis unfolding frame_indices_into_def v Let_def prod.case d(1) bind.bind_lunit
      by simp
  qed
  moreover have "bs \<noteq> []" if "0 < degree_cdf_k dc" using bs(2) d(2) that by auto
  ultimately show ?thesis using bs(1) by - (rule exI [of _ bs], simp)
qed

text \<open>The equation of a sequence number: the set of blocks its repair frame combines.\<close>

definition equation :: "degree_cdf \<Rightarrow> u32 \<Rightarrow> u32 \<Rightarrow> u32 list" where
  "equation dc session_id seq = fst (the (frame_indices_into [] [] dc session_id seq))"

lemma equation_ok:
  assumes "degree_cdf_ok dc" and "degree_cdf_k dc < 2 ^ 32"
  shows "block_set (degree_cdf_k dc) (equation dc session_id seq)"
    and "0 < degree_cdf_k dc \<Longrightarrow> equation dc session_id seq \<noteq> []"
    and "\<exists>scratch'. frame_indices_into out scratch dc session_id seq =
      Some (equation dc session_id seq, scratch')"
proof -
  obtain bs where bs: "block_set (degree_cdf_k dc) bs" "0 < degree_cdf_k dc \<longrightarrow> bs \<noteq> []"
    "\<And>out scratch. \<exists>scratch'. frame_indices_into out scratch dc session_id seq = Some (bs, scratch')"
    using frame_indices_into_ok [OF assms, of session_id seq]
    by (elim exE conjE) (rule that, assumption+, elim allE)
  obtain s where "frame_indices_into [] [] dc session_id seq = Some (bs, s)" using bs(3) by blast
  then have e: "equation dc session_id seq = bs" by (simp add: equation_def)
  show "block_set (degree_cdf_k dc) (equation dc session_id seq)"
    "0 < degree_cdf_k dc \<Longrightarrow> equation dc session_id seq \<noteq> []"
    "\<exists>scratch'. frame_indices_into out scratch dc session_id seq =
      Some (equation dc session_id seq, scratch')" unfolding e using bs by blast+
qed

lemma frame_indices_eq:
  assumes "degree_cdf_ok dc" and "cdf_good (dc_cdf dc)" and k: "0 < degree_cdf_k dc" "degree_cdf_k dc < 2 ^ 32"
  shows "frame_indices (degree_cdf_k dc) (dc_cdf dc) session_id seq = Some (equation dc session_id seq)"
proof -
  obtain v rng where v: "next_u32 (splitmix_new (frame_seed session_id seq)) = (v, rng)" by fastforce
  have same: "sample dc (unit_draw v) = degree_binary (dc_cdf dc) (unit_draw v)"
    using sample_eq_binary [OF assms(1,2)] by simp
  obtain scratch' where "frame_indices_into [] [] dc session_id seq = Some (equation dc session_id seq, scratch')"
    using equation_ok(3) [OF assms(1) k(2)] by blast
  moreover obtain d where "sample dc (unit_draw v) = Some d"
    using sample_bounds [OF assms(1) unit_draw_valid] by blast
  ultimately show ?thesis using v k(1) same
    by (auto simp: frame_indices_def frame_indices_into_def degree_cdf_k_def Let_def split: bind_splits)
qed

section \<open>Properties\<close>

text \<open>C28: for every block count on the wire, session and sequence number, deriving the blocks of a
  repair frame terminates without a panic; the blocks are non-empty, pairwise distinct and in range;
  they do not depend on what the reused output and scratch vectors held; and the encoder's and
  decoder's derivation agrees with the public \<open>frame_indices\<close>.\<close>

theorem repair_equation_well_defined:
  assumes "0 < k" and "k < 2 ^ 32" and "degree_cdf_new P k = Some dc"
  shows "\<exists>bs. bs \<noteq> [] \<and> distinct bs \<and> (unat ` set bs \<subseteq> {..<k}) \<and>
    frame_indices k (dc_cdf dc) session_id seq = Some bs \<and>
    map_option fst (frame_indices_into out scratch dc session_id seq) = Some bs"
proof -
  have dc: "degree_cdf_ok dc" "soliton_cdf P k = Some (dc_cdf dc)" "degree_cdf_k dc = k"
    using degree_cdf_new_ok [OF assms(2), of P] assms(3) by auto
  note eq = equation_ok [OF dc(1), unfolded dc(3), OF assms(2)]
  show ?thesis
    using eq(1,2) [of session_id seq] eq(3) [of out scratch session_id seq] assms(1,2) dc
      frame_indices_eq [OF dc(1) soliton_cdf_good [OF dc(2)], of session_id seq]
    by (intro exI [of _ "equation dc session_id seq"]) (auto simp: block_set_def)
qed

theorem repair_equation_well_defined_witness:
  "\<exists>dc bs. degree_cdf_new plain_platform 5 = Some dc \<and> bs \<noteq> [] \<and> distinct bs \<and> unat ` set bs \<subseteq> {..<5} \<and>
     frame_indices 5 (dc_cdf dc) 7 9 = Some bs"
proof -
  obtain dc where dc: "degree_cdf_new plain_platform 5 = Some dc"
    using degree_cdf_new_ok [of 5 plain_platform] by auto
  show ?thesis using repair_equation_well_defined [OF _ _ dc, of 7 9 "[]" "[]"] dc by auto
qed

end
