(* ===== verification/Capacity.thy ===== *)
theory Capacity
  imports Frame
begin

text \<open>
  Frame-capacity arithmetic (\<open>src/capacity.rs\<close>): which frame sizes hold a payload in one
  stream, given the 16-bit block count and block length of the header.
\<close>

definition MAX_SOURCE_BLOCKS :: usize where "MAX_SOURCE_BLOCKS = 0xffff"

definition block_length :: "usize \<Rightarrow> usize option" where
  "block_length frame_bytes =
     (case checked_sub frame_bytes HEADER_LEN of
        None \<Rightarrow> None
      | Some block_len \<Rightarrow> if 0 < block_len \<and> block_len \<le> 0xffff then Some block_len else None)"

definition source_block_count :: "usize \<Rightarrow> usize \<Rightarrow> usize option" where
  "source_block_count payload_bytes frame_bytes = do {
     block_len \<leftarrow> block_length frame_bytes;
     Some (div_ceil payload_bytes block_len) }"

definition fits_in_one_stream :: "usize \<Rightarrow> usize \<Rightarrow> bool" where
  "fits_in_one_stream payload_bytes frame_bytes =
     (case source_block_count payload_bytes frame_bytes of
        None \<Rightarrow> False
      | Some blocks \<Rightarrow> 0 < blocks \<and> blocks \<le> MAX_SOURCE_BLOCKS)"

definition minimum_frame_bytes :: "usize \<Rightarrow> usize" where
  "minimum_frame_bytes payload_bytes =
     saturating_add (max (div_ceil payload_bytes MAX_SOURCE_BLOCKS) 1) HEADER_LEN"

fun iter_min :: "usize list \<Rightarrow> usize option" where
  "iter_min [] = None"
| "iter_min (x # xs) = (case iter_min xs of None \<Rightarrow> Some x | Some m \<Rightarrow> Some (min x m))"

definition smallest_sufficient_frame_size :: "usize \<Rightarrow> usize list \<Rightarrow> usize option" where
  "smallest_sufficient_frame_size payload_bytes options =
     (let minimum = minimum_frame_bytes payload_bytes
      in iter_min (filter (\<lambda>v. minimum \<le> v \<and> block_length v \<noteq> None) options))"

lemma iter_min_eq: "iter_min xs = (if xs = [] then None else Some (Min (set xs)))"
proof (induction xs)
  case (Cons x xs)
  then show ?case by (cases "xs = []") simp_all
qed simp

lemma div_ceil_le_iff: "0 < b \<Longrightarrow> div_ceil a b \<le> n \<longleftrightarrow> a \<le> n * b"
proof -
  assume b: "0 < b"
  have "a \<le> n * b" if "div_ceil a b \<le> n"
    using div_ceil_mult_ge [OF b, of a] mult_le_mono1 [OF that, of b] by (rule order.trans)
  moreover have "div_ceil a b \<le> n" if "a \<le> n * b"
    using div_ceil_lt_mult [OF b, of n a] that by force
  ultimately show ?thesis by blast
qed

lemma block_length_Some:
  "block_length f = Some b \<longleftrightarrow> f = HEADER_LEN + b \<and> 0 < b \<and> b \<le> 0xffff"
  by (auto simp: block_length_def checked_sub_def HEADER_LEN_def)

text \<open>A frame size is sufficient exactly when it reaches the computed minimum and its block length
  fits the header field.\<close>

lemma fits_iff:
  assumes "0 < payload" and "payload < 2 ^ 63"
  shows "fits_in_one_stream payload f \<longleftrightarrow> minimum_frame_bytes payload \<le> f \<and> block_length f \<noteq> None"
proof (cases "block_length f")
  case None
  then show ?thesis by (simp add: fits_in_one_stream_def source_block_count_def)
next
  case (Some b)
  then have f: "f = HEADER_LEN + b" "0 < b" by (simp_all add: block_length_Some)
  have "div_ceil payload MAX_SOURCE_BLOCKS \<le> payload"
    by (subst div_ceil_le_iff) (simp_all add: MAX_SOURCE_BLOCKS_def)
  then have "max (div_ceil payload MAX_SOURCE_BLOCKS) 1 + HEADER_LEN \<le> usize_max"
    using assms by (simp add: HEADER_LEN_def usize_max_def)
  then have "minimum_frame_bytes payload = max (div_ceil payload MAX_SOURCE_BLOCKS) 1 + HEADER_LEN"
    by (simp add: minimum_frame_bytes_def saturating_add_def)
  then have "minimum_frame_bytes payload \<le> f \<longleftrightarrow> div_ceil payload MAX_SOURCE_BLOCKS \<le> b"
    using f by auto
  also have "\<dots> \<longleftrightarrow> payload \<le> b * MAX_SOURCE_BLOCKS"
    by (rule div_ceil_le_iff) (simp add: MAX_SOURCE_BLOCKS_def)
  also have "\<dots> \<longleftrightarrow> div_ceil payload b \<le> MAX_SOURCE_BLOCKS"
    using div_ceil_le_iff [OF f(2), of payload MAX_SOURCE_BLOCKS] by (simp add: mult.commute)
  finally show ?thesis
    using Some div_ceil_pos [OF f(2) assms(1)]
    by (simp add: fits_in_one_stream_def source_block_count_def)
qed

text \<open>C37: the chosen frame size is the smallest of the offered ones that holds the whole payload in
  one stream, and there is none exactly when no offered size holds it.\<close>

theorem smallest_frame_size_correct:
  assumes "0 < payload" and "payload < 2 ^ 63"
  shows "smallest_sufficient_frame_size payload options =
    (if \<exists>v \<in> set options. fits_in_one_stream payload v
     then Some (Min {v \<in> set options. fits_in_one_stream payload v}) else None)"
proof -
  let ?xs = "filter (\<lambda>v. minimum_frame_bytes payload \<le> v \<and> block_length v \<noteq> None) options"
  have "set ?xs = {v \<in> set options. fits_in_one_stream payload v}"
    using fits_iff [OF assms] by auto
  moreover have "?xs = [] \<longleftrightarrow> \<not> (\<exists>v \<in> set options. fits_in_one_stream payload v)"
    unfolding filter_empty_conv using fits_iff [OF assms] by blast
  ultimately show ?thesis
    unfolding smallest_sufficient_frame_size_def iter_min_eq Let_def by presburger
qed

theorem smallest_frame_size_correct_witness:
  "Min {v \<in> set [1200, 200, 30, 600]. fits_in_one_stream 1000000 v} = 200"
proof -
  have "smallest_sufficient_frame_size 1000000 [1200, 200, 30, 600] = Some 200"
    by (simp add: smallest_sufficient_frame_size_def minimum_frame_bytes_def saturating_add_def
        div_ceil_def MAX_SOURCE_BLOCKS_def HEADER_LEN_def usize_max_def block_length_def checked_sub_def)
  moreover have "0 < (1000000 :: nat)" "(1000000 :: nat) < 2 ^ 63" by simp_all
  ultimately show ?thesis
    using smallest_frame_size_correct [of 1000000 "[1200, 200, 30, 600]"] by (simp split: if_splits)
qed

end
