(* ===== verification/Encoder.thy ===== *)
theory Encoder
  imports Errors Select Capacity
begin

text \<open>
  The fountain encoder (\<open>LtEncoder\<close> of \<open>src/fountain.rs\<close>). The payload is cut into
  \<open>k\<close> blocks, each zero-padded to whole words in one flat arena; a frame is one block, the XOR of
  two neighbours (causal weave), or the XOR of the blocks its sequence number selects. Operations
  return \<open>None\<close> for a panic; the constructors return a sum for their \<open>Result\<close>.
\<close>

unbundle bit_operations_syntax

section \<open>State and operations\<close>

record lt_encoder =
  le_k :: usize
  le_block_len :: usize
  le_words :: usize
  le_session_id :: u32
  le_sys_span :: usize
  le_causal :: bool
  le_blocks :: "u32 list"
  le_cdf :: degree_cdf
  le_idx :: "u32 list"
  le_idx_scratch :: "u32 list"
  le_acc :: "u32 list"

definition checked_encoder_k :: "u8 list \<Rightarrow> usize \<Rightarrow> usize result" where
  "checked_encoder_k payload block_len =
     (if payload = [] then Inl Empty
      else if block_len = 0 \<or> 0xffff < block_len then Inl InvalidStream
      else if MAX_STREAM_BYTES < length payload then Inl (TooLarge (length payload) MAX_STREAM_BYTES)
      else let k = div_ceil (length payload) block_len
           in if k = 0 \<or> MAX_SOURCE_BLOCKS < k then Inl InvalidStream else Inr k)"

fun fill_blocks :: "u8 list \<Rightarrow> usize \<Rightarrow> usize \<Rightarrow> usize list \<Rightarrow> u8 list \<Rightarrow> u8 list option" where
  "fill_blocks payload block_len words [] bytes = Some bytes"
| "fill_blocks payload block_len words (b # bs) bytes = do {
     let start = b * block_len;
     let stop = min (start + block_len) (length payload);
     let dst = b * words * 4;
     src \<leftarrow> slice payload start stop;
     bytes \<leftarrow> splice bytes dst src;
     fill_blocks payload block_len words bs bytes }"

definition encoder_with_mode :: "'m math_platform_scheme \<Rightarrow> u8 list \<Rightarrow> usize \<Rightarrow> u32 \<Rightarrow> usize \<Rightarrow> bool \<Rightarrow>
    lt_encoder result option" where
  "encoder_with_mode P payload block_len session_id sys_span causal =
     (case checked_encoder_k payload block_len of
        Inl e \<Rightarrow> Some (Inl e)
      | Inr k \<Rightarrow>
          let words = div_ceil block_len 4
          in case checked_mul k words of
               None \<Rightarrow> Some (Inl InvalidStream)
             | Some arena_words \<Rightarrow> do {
                 bytes \<leftarrow> fill_blocks payload block_len words [0..<k]
                            (words_as_bytes (replicate arena_words 0));
                 cdf \<leftarrow> degree_cdf_new P k;
                 Some (Inr \<lparr>le_k = k, le_block_len = block_len, le_words = words,
                   le_session_id = session_id, le_sys_span = sys_span, le_causal = causal,
                   le_blocks = bytes_as_words bytes, le_cdf = cdf, le_idx = [],
                   le_idx_scratch = [], le_acc = replicate words 0\<rparr>) })"

definition encoder_try_new :: "'m math_platform_scheme \<Rightarrow> u8 list \<Rightarrow> usize \<Rightarrow> u32 \<Rightarrow> lt_encoder result option" where
  "encoder_try_new P payload block_len session_id =
     encoder_with_mode P payload block_len session_id 0 False"

definition encoder_try_new_systematic ::
    "'m math_platform_scheme \<Rightarrow> u8 list \<Rightarrow> usize \<Rightarrow> u32 \<Rightarrow> lt_encoder result option" where
  "encoder_try_new_systematic P payload block_len session_id =
     (case checked_encoder_k payload block_len of
        Inl e \<Rightarrow> Some (Inl e)
      | Inr k \<Rightarrow> encoder_with_mode P payload block_len session_id k False)"

definition encoder_try_new_causal ::
    "'m math_platform_scheme \<Rightarrow> u8 list \<Rightarrow> usize \<Rightarrow> u32 \<Rightarrow> lt_encoder result option" where
  "encoder_try_new_causal P payload block_len session_id =
     (case checked_encoder_k payload block_len of
        Inl e \<Rightarrow> Some (Inl e)
      | Inr k \<Rightarrow> encoder_with_mode P payload block_len session_id k True)"

text \<open>\<open>new\<close>, \<open>new_systematic\<close> and \<open>new_causal\<close> panic where their fallible versions
  return an error.\<close>

definition expect_ok :: "'a result option \<Rightarrow> 'a option" where
  "expect_ok r = (case r of None \<Rightarrow> None | Some (Inl e) \<Rightarrow> None | Some (Inr a) \<Rightarrow> Some a)"

definition encoder_new where
  "encoder_new P payload block_len session_id = expect_ok (encoder_try_new P payload block_len session_id)"

definition encoder_new_systematic where
  "encoder_new_systematic P payload block_len session_id =
     expect_ok (encoder_try_new_systematic P payload block_len session_id)"

definition encoder_new_causal where
  "encoder_new_causal P payload block_len session_id =
     expect_ok (encoder_try_new_causal P payload block_len session_id)"

definition encoder_is_systematic :: "lt_encoder \<Rightarrow> bool" where
  "encoder_is_systematic enc \<longleftrightarrow> 0 < le_sys_span enc \<and> \<not> le_causal enc"

definition encoder_k :: "lt_encoder \<Rightarrow> usize" where
  "encoder_k enc = le_k enc"

definition encoder_block_len :: "lt_encoder \<Rightarrow> usize" where
  "encoder_block_len enc = le_block_len enc"

definition encoder_session_id :: "lt_encoder \<Rightarrow> u32" where
  "encoder_session_id enc = le_session_id enc"

definition encoder_is_causal :: "lt_encoder \<Rightarrow> bool" where
  "encoder_is_causal enc = le_causal enc"

definition encoder_sys_span :: "lt_encoder \<Rightarrow> usize" where
  "encoder_sys_span enc = le_sys_span enc"

fun xor_blocks :: "'m platform_scheme \<Rightarrow> u32 list \<Rightarrow> usize \<Rightarrow> u32 list \<Rightarrow> u32 list \<Rightarrow> u32 list option" where
  "xor_blocks P blocks words [] acc = Some acc"
| "xor_blocks P blocks words (b # bs) acc = do {
     let base = unat b * words;
     src \<leftarrow> slice blocks base (base + words);
     acc \<leftarrow> xor_into P acc src;
     xor_blocks P blocks words bs acc }"

definition encode_into :: "'m platform_scheme \<Rightarrow> lt_encoder \<Rightarrow> u32 \<Rightarrow> u8 list \<Rightarrow> (u8 list \<times> lt_encoder) option" where
  "encode_into P enc seq out =
     (if length out \<noteq> le_block_len enc then None
      else if unat seq < le_sys_span enc then do {
        let current = unat seq * le_words enc;
        if le_causal enc \<and> seq \<noteq> 0 then do {
          previous \<leftarrow> checked_sub current (le_words enc);
          src \<leftarrow> slice (le_blocks enc) current (current + le_words enc);
          acc \<leftarrow> copy_from_slice (le_acc enc) src;
          prev \<leftarrow> slice (le_blocks enc) previous (previous + le_words enc);
          acc \<leftarrow> xor_into P acc prev;
          bytes \<leftarrow> slice (words_as_bytes acc) 0 (le_block_len enc);
          out \<leftarrow> copy_from_slice out bytes;
          Some (out, enc\<lparr>le_acc := acc\<rparr>) }
        else do {
          src \<leftarrow> slice (le_blocks enc) current (current + le_words enc);
          bytes \<leftarrow> slice (words_as_bytes src) 0 (le_block_len enc);
          out \<leftarrow> copy_from_slice out bytes;
          Some (out, enc) } }
      else do {
        (idx, scratch) \<leftarrow> frame_indices_into (le_idx enc) (le_idx_scratch enc) (le_cdf enc)
                            (le_session_id enc) seq;
        acc \<leftarrow> xor_blocks P (le_blocks enc) (le_words enc) idx (replicate (length (le_acc enc)) 0);
        bytes \<leftarrow> slice (words_as_bytes acc) 0 (le_block_len enc);
        out \<leftarrow> copy_from_slice out bytes;
        Some (out, enc\<lparr>le_idx := idx, le_idx_scratch := scratch, le_acc := acc\<rparr>) })"

definition encode :: "'m platform_scheme \<Rightarrow> lt_encoder \<Rightarrow> u32 \<Rightarrow> (u8 list \<times> lt_encoder) option" where
  "encode P enc seq = encode_into P enc seq (replicate (le_block_len enc) 0)"

section \<open>Source blocks\<close>

text \<open>The words of source block \<open>b\<close>: its bytes, zero-padded to whole words.\<close>

definition source_chunk :: "u8 list \<Rightarrow> usize \<Rightarrow> usize \<Rightarrow> u8 list" where
  "source_chunk payload block_len b =
     (let chunk = take block_len (drop (b * block_len) payload)
      in chunk @ replicate (block_len - length chunk) 0)"

definition source_words :: "u8 list \<Rightarrow> usize \<Rightarrow> usize \<Rightarrow> u32 list" where
  "source_words payload block_len b =
     bytes_as_words (source_chunk payload block_len b @ replicate (4 * div_ceil block_len 4 - block_len) 0)"

text \<open>A sequence number's blocks, systematic and causal phases included.\<close>

definition frame_blocks :: "usize \<Rightarrow> bool \<Rightarrow> degree_cdf \<Rightarrow> u32 \<Rightarrow> u32 \<Rightarrow> u32 list" where
  "frame_blocks sys_span causal cdf session_id seq =
     (if unat seq < sys_span then (if causal \<and> seq \<noteq> 0 then [seq - 1, seq] else [seq])
      else equation cdf session_id seq)"

lemma length_source_chunk [simp]: "length (source_chunk payload block_len b) = block_len"
  by (simp add: source_chunk_def Let_def)

lemma padded_block: "block_len \<le> 4 * div_ceil block_len 4"
  using div_ceil_mult_ge [of 4 block_len] by (simp add: mult.commute)

lemma source_words_bytes:
  "words_as_bytes (source_words payload block_len b) =
     source_chunk payload block_len b @ replicate (4 * div_ceil block_len 4 - block_len) 0"
  unfolding source_words_def by (rule words_of_bytes) (use padded_block in simp)

lemma length_source_words [simp]: "length (source_words payload block_len b) = div_ceil block_len 4"
proof -
  have "4 * length (source_words payload block_len b) = 4 * div_ceil block_len 4"
    using length_words_as_bytes [of "source_words payload block_len b"] padded_block [of block_len]
    by (simp add: source_words_bytes)
  then show ?thesis by simp
qed

section \<open>Cutting the payload\<close>

definition padded_bytes :: "u8 list \<Rightarrow> usize \<Rightarrow> usize \<Rightarrow> u8 list" where
  "padded_bytes payload block_len b = words_as_bytes (source_words payload block_len b)"

lemma length_padded_bytes [simp]: "length (padded_bytes payload bl b) = 4 * div_ceil bl 4"
  by (simp add: padded_bytes_def)

lemma padded_bytes_eq:
  "padded_bytes payload bl b =
     (let chunk = take bl (drop (b * bl) payload) in chunk @ replicate (4 * div_ceil bl 4 - length chunk) 0)"
  using padded_block [of bl]
  by (simp add: padded_bytes_def source_words_bytes source_chunk_def Let_def flip: replicate_add)

lemma length_blocks_concat:
  "(\<And>b. length (f b) = w) \<Longrightarrow> length (concat (map f bs)) = length bs * w"
  by (induction bs) simp_all

lemma slice_blocks_concat:
  assumes "\<And>b. length (f b) = w" and "i < n"
  shows "take w (drop (i * w) (concat (map f [0..<n]))) = f i"
proof -
  have "[0..<n] = [0..<i] @ i # [Suc i..<n]"
    using assms(2) upt_add_eq_append [of 0 i "n - i"] by (simp add: upt_conv_Cons)
  then have "concat (map f [0..<n]) = concat (map f [0..<i]) @ f i @ concat (map f [Suc i..<n])"
    by simp
  moreover have "length (concat (map f [0..<i])) = i * w"
    using length_blocks_concat [of f w "[0..<i]", OF assms(1)] by simp
  ultimately show ?thesis using assms(1) [of i] by simp
qed

lemma fill_blocks_run:
  fixes payload :: "u8 list"
  assumes "0 < bl" and "k = div_ceil (length payload) bl" and "w = div_ceil bl 4" and "i \<le> k"
  shows "fill_blocks payload bl w [i..<k]
      (concat (map (padded_bytes payload bl) [0..<i]) @ replicate ((k - i) * (4 * w)) 0) =
    Some (concat (map (padded_bytes payload bl) [0..<k]))"
  using assms(4)
proof (induction "k - i" arbitrary: i)
  case 0
  then show ?case by simp
next
  case (Suc n)
  then have i: "i < k" by simp
  let ?done = "concat (map (padded_bytes payload bl) [0..<i])"
  let ?chunk = "take bl (drop (i * bl) payload)"
  have start: "i * bl < length payload" using div_ceil_lt_mult [OF assms(1)] i assms(2) by blast
  have "slice payload (i * bl) (min (i * bl + bl) (length payload)) = Some ?chunk"
    using start by (simp add: slice_def min_def)
  moreover have len: "length ?done = i * w * 4"
    by (subst length_blocks_concat [of _ "4 * w"]) (simp_all add: assms(3))
  have small: "length ?chunk \<le> 4 * w" using padded_block [of bl] by (simp add: assms(3))
  have room: "(k - i) * (4 * w) = 4 * w + (k - Suc i) * (4 * w)"
    using i by (simp only: Suc_diff_Suc [symmetric] mult_Suc)
  have rest: "replicate ((k - i) * (4 * w)) (0 :: u8) =
      replicate (length ?chunk) 0 @ replicate (4 * w - length ?chunk) 0 @ replicate ((k - Suc i) * (4 * w)) 0"
    unfolding room using small by (simp flip: replicate_add)
  have "splice (?done @ replicate ((k - i) * (4 * w)) 0) (i * w * 4) ?chunk =
      Some (?done @ ?chunk @ replicate (4 * w - length ?chunk) 0 @ replicate ((k - Suc i) * (4 * w)) 0)"
    unfolding rest using len by (simp add: splice_def)
  moreover define upto_i where "upto_i = concat (map (padded_bytes payload bl) [0..<Suc i])"
  have "?done @ ?chunk @ replicate (4 * w - length ?chunk) 0 @ ys = upto_i @ ys" for ys
    by (simp add: padded_bytes_eq Let_def assms(3) upto_i_def)
  ultimately have "fill_blocks payload bl w [i..<k] (?done @ replicate ((k - i) * (4 * w)) 0) =
      fill_blocks payload bl w [Suc i..<k] (upto_i @ replicate ((k - Suc i) * (4 * w)) 0)"
    using i by (simp only: upt_conv_Cons fill_blocks.simps Let_def bind.bind_lunit)
  also have "\<dots> = Some (concat (map (padded_bytes payload bl) [0..<k]))"
    unfolding upto_i_def by (rule Suc.hyps(1)) (use Suc.hyps(2) i in simp_all)
  finally show ?case .
qed

lemma words_as_bytes_concat: "words_as_bytes (concat ws) = concat (map words_as_bytes ws)"
  by (induction ws) (simp_all add: words_as_bytes_append)

lemma fill_all_blocks:
  assumes "0 < bl" and "k = div_ceil (length payload) bl" and "w = div_ceil bl 4"
  shows "\<exists>bytes. fill_blocks payload bl w [0..<k] (words_as_bytes (replicate (k * w) 0)) = Some bytes \<and>
    bytes_as_words bytes = concat (map (source_words payload bl) [0..<k])"
proof -
  have "words_as_bytes (replicate n 0) = replicate (4 * n) 0" for n
    by (induction n) (simp_all add: words_as_bytes_def le_bytes32_def numeral_eq_Suc)
  then have zero: "words_as_bytes (replicate (k * w) 0) = replicate (k * (4 * w)) 0"
    by (simp add: mult.left_commute)
  have "concat (map (padded_bytes payload bl) [0..<k]) =
      words_as_bytes (concat (map (source_words payload bl) [0..<k]))"
    by (simp add: words_as_bytes_concat padded_bytes_def [abs_def] comp_def)
  then have "bytes_as_words (concat (map (padded_bytes payload bl) [0..<k])) =
      concat (map (source_words payload bl) [0..<k])" by simp
  with fill_blocks_run [OF assms, of 0] show ?thesis by (simp add: zero)
qed

section \<open>The encoder's invariant\<close>

definition enc_ok :: "u8 list \<Rightarrow> lt_encoder \<Rightarrow> bool" where
  "enc_ok payload enc \<longleftrightarrow>
     payload \<noteq> [] \<and> length payload \<le> MAX_STREAM_BYTES \<and>
     0 < le_block_len enc \<and> le_block_len enc \<le> 0xffff \<and>
     le_k enc = div_ceil (length payload) (le_block_len enc) \<and> 0 < le_k enc \<and> le_k enc \<le> MAX_SOURCE_BLOCKS \<and>
     le_words enc = div_ceil (le_block_len enc) 4 \<and>
     le_blocks enc = concat (map (source_words payload (le_block_len enc)) [0..<le_k enc]) \<and>
     degree_cdf_ok (le_cdf enc) \<and> cdf_good (dc_cdf (le_cdf enc)) \<and> degree_cdf_k (le_cdf enc) = le_k enc \<and>
     length (le_acc enc) = le_words enc \<and> le_sys_span enc \<le> le_k enc"

definition params_ok :: "u8 list \<Rightarrow> usize \<Rightarrow> bool" where
  "params_ok payload block_len \<longleftrightarrow> payload \<noteq> [] \<and> 0 < block_len \<and> block_len \<le> 0xffff \<and>
     length payload \<le> MAX_STREAM_BYTES \<and> div_ceil (length payload) block_len \<le> MAX_SOURCE_BLOCKS"

lemma checked_encoder_k_ok:
  "checked_encoder_k payload block_len = Inr k \<longleftrightarrow>
     params_ok payload block_len \<and> k = div_ceil (length payload) block_len"
  using div_ceil_pos [of block_len "length payload"]
  by (auto simp: checked_encoder_k_def params_ok_def Let_def)

lemma small_k: "k \<le> MAX_SOURCE_BLOCKS \<Longrightarrow> k < 2 ^ 32"
  by (simp add: MAX_SOURCE_BLOCKS_def)

lemma words_bound: "bl \<le> 0xffff \<Longrightarrow> div_ceil bl 4 \<le> 0xffff"
  by (auto simp: div_ceil_def)

lemma encoder_with_mode_ok:
  assumes "params_ok payload bl" and "sys = 0 \<or> sys = div_ceil (length payload) bl"
  shows "\<exists>enc. encoder_with_mode P payload bl session sys causal = Some (Inr enc) \<and> enc_ok payload enc \<and>
    le_block_len enc = bl \<and> le_session_id enc = session \<and> le_sys_span enc = sys \<and> le_causal enc = causal \<and>
    soliton_cdf P (le_k enc) = Some (dc_cdf (le_cdf enc)) \<and> degree_cdf_new P (le_k enc) = Some (le_cdf enc)"
proof -
  let ?k = "div_ceil (length payload) bl" and ?w = "div_ceil bl 4"
  have p: "payload \<noteq> []" "0 < bl" "bl \<le> 0xffff" "length payload \<le> MAX_STREAM_BYTES" "?k \<le> MAX_SOURCE_BLOCKS"
    using assms(1) by (simp_all add: params_ok_def)
  have k: "checked_encoder_k payload bl = Inr ?k" using assms(1) by (simp add: checked_encoder_k_ok)
  have "?k * ?w \<le> 0xffff * 0xffff"
    using p(5) words_bound [OF p(3)] by (intro mult_mono) (simp_all add: MAX_SOURCE_BLOCKS_def)
  also have "\<dots> \<le> usize_max" by (simp add: usize_max_def)
  finally have m: "checked_mul ?k ?w = Some (?k * ?w)" by (simp add: checked_mul_def)
  obtain bytes where bytes: "fill_blocks payload bl ?w [0..<?k] (words_as_bytes (replicate (?k * ?w) 0)) = Some bytes"
    "bytes_as_words bytes = concat (map (source_words payload bl) [0..<?k])"
    using fill_all_blocks [OF p(2) refl refl] by blast
  obtain dc where dc: "degree_cdf_new P ?k = Some dc" "degree_cdf_ok dc" "soliton_cdf P ?k = Some (dc_cdf dc)"
    "degree_cdf_k dc = ?k"
    using degree_cdf_new_ok [OF small_k [OF p(5)]] by blast
  have "0 < ?k" using p(1,2) by (simp add: div_ceil_pos)
  then show ?thesis
    using k m bytes dc p assms(2) soliton_cdf_good [OF dc(3)]
    by (auto simp: encoder_with_mode_def enc_ok_def Let_def)
qed

lemma enc_slice:
  assumes "enc_ok payload enc" and "b < le_k enc"
  shows "slice (le_blocks enc) (b * le_words enc) (b * le_words enc + le_words enc) =
    Some (source_words payload (le_block_len enc) b)"
proof -
  have e: "le_blocks enc = concat (map (source_words payload (le_block_len enc)) [0..<le_k enc])"
    "le_words enc = div_ceil (le_block_len enc) 4" using assms(1) by (simp_all add: enc_ok_def)
  have "length (le_blocks enc) = le_k enc * le_words enc"
    unfolding e(1) by (subst length_blocks_concat [of _ "le_words enc"]) (simp_all add: e(2))
  moreover have "Suc b * le_words enc \<le> le_k enc * le_words enc"
    using assms(2) by (intro mult_le_mono1) simp
  ultimately have "b * le_words enc + le_words enc \<le> length (le_blocks enc)" by simp
  moreover have "take (le_words enc) (drop (b * le_words enc) (le_blocks enc)) =
      source_words payload (le_block_len enc) b"
    unfolding e(1) by (rule slice_blocks_concat) (simp_all add: e(2) assms(2))
  ultimately show ?thesis by (simp add: slice_def)
qed

section \<open>Frames\<close>

text \<open>The words of a frame are the XOR of the words of its blocks.\<close>

definition xor_of :: "(usize \<Rightarrow> u32 list) \<Rightarrow> usize \<Rightarrow> u32 list \<Rightarrow> u32 list" where
  "xor_of X words bs = foldl (\<lambda>acc b. xor_words acc (X (unat b))) (replicate words 0) bs"

lemma length_xor_fold:
  "(\<And>b. length (X b) = w) \<Longrightarrow> length acc = w \<Longrightarrow>
   length (foldl (\<lambda>acc b. xor_words acc (X (unat b))) acc bs) = w"
  by (induction bs arbitrary: acc) simp_all

lemma length_xor_of [simp]: "(\<And>b. length (X b) = w) \<Longrightarrow> length (xor_of X w bs) = w"
  unfolding xor_of_def by (rule length_xor_fold) simp_all

lemma xor_zero_left: "xor_words (replicate n 0) ws = take n ws"
  by (rule nth_equalityI) simp_all

lemma xor_blocks_run:
  assumes "\<And>b. b \<in> set bs \<Longrightarrow> slice blocks (unat b * w) (unat b * w + w) = Some (X (unat b))"
    and "\<And>b. length (X b) = w" and "length acc = w"
  shows "xor_blocks P blocks w bs acc = Some (foldl (\<lambda>acc b. xor_words acc (X (unat b))) acc bs)"
  using assms(1,3) by (induction bs arbitrary: acc) (simp_all add: assms(2) Let_def)

lemma frame_bytes:
  assumes "\<And>b. words_as_bytes (X b) = C b @ z" and "\<And>b. length (C b) = n" "\<And>b. length (X b) = w"
    and "n \<le> length (words_as_bytes acc)" "length acc = w"
  shows "take n (words_as_bytes (foldl (\<lambda>acc b. xor_words acc (X (unat b))) acc bs)) =
    foldl (\<lambda>acc b. xor_bytes acc (C (unat b))) (take n (words_as_bytes acc)) bs"
  using assms(4,5)
proof (induction bs arbitrary: acc)
  case (Cons b bs)
  have "length acc = length (X (unat b))" using assms(3) Cons.prems(2) by simp
  then have "words_as_bytes (xor_words acc (X (unat b))) = xor_bytes (words_as_bytes acc) (words_as_bytes (X (unat b)))"
    by (rule words_as_bytes_xor)
  then have "take n (words_as_bytes (xor_words acc (X (unat b)))) = xor_bytes (take n (words_as_bytes acc)) (C (unat b))"
    by (simp add: take_xor_bytes assms(1,2))
  with Cons assms(3) show ?case by simp
qed simp

definition frame_data :: "u8 list \<Rightarrow> usize \<Rightarrow> u32 list \<Rightarrow> u8 list" where
  "frame_data payload block_len bs =
     foldl (\<lambda>acc b. xor_bytes acc (source_chunk payload block_len (unat b))) (replicate block_len 0) bs"

lemma zero_word_bytes: "words_as_bytes (replicate n 0) = replicate (4 * n) 0"
  by (induction n) (simp_all add: words_as_bytes_def le_bytes32_def numeral_eq_Suc)

lemma frame_data_words:
  "frame_data payload bl bs = take bl (words_as_bytes (xor_of (source_words payload bl) (div_ceil bl 4) bs))"
proof -
  have "take bl (words_as_bytes (xor_of (source_words payload bl) (div_ceil bl 4) bs)) =
      foldl (\<lambda>acc b. xor_bytes acc (source_chunk payload bl (unat b)))
        (take bl (words_as_bytes (replicate (div_ceil bl 4) 0))) bs"
    unfolding xor_of_def
    by (rule frame_bytes [where z = "replicate (4 * div_ceil bl 4 - bl) 0" and w = "div_ceil bl 4"])
      (use padded_block [of bl] in \<open>simp_all add: source_words_bytes\<close>)
  moreover have "take bl (words_as_bytes (replicate (div_ceil bl 4) 0)) = replicate bl (0 :: u8)"
    using padded_block [of bl] by (simp add: zero_word_bytes)
  ultimately show ?thesis by (simp add: frame_data_def)
qed

lemma length_frame_data [simp]: "length (frame_data payload bl bs) = bl"
  using padded_block [of bl] by (simp add: frame_data_words)

definition enc_blocks :: "lt_encoder \<Rightarrow> u32 \<Rightarrow> u32 list" where
  "enc_blocks enc seq = frame_blocks (le_sys_span enc) (le_causal enc) (le_cdf enc) (le_session_id enc) seq"

lemma frame_blocks_range:
  assumes "degree_cdf_ok cdf" and "degree_cdf_k cdf = k" and "0 < k" and "k < 2 ^ 32" and "sys \<le> k"
  shows "block_set k (frame_blocks sys causal cdf session seq)" and "frame_blocks sys causal cdf session seq \<noteq> []"
proof -
  note eq = equation_ok [OF assms(1), unfolded assms(2), OF assms(4)]
  have "unat (seq - 1) < unat seq" if "seq \<noteq> 0"
    using that by (simp add: unat_minus_one unat_gt_0)
  then show "block_set k (frame_blocks sys causal cdf session seq)" "frame_blocks sys causal cdf session seq \<noteq> []"
    using eq(1,2) assms(3,5) by (auto simp: frame_blocks_def block_set_def)
qed

lemma enc_blocks_range:
  assumes "enc_ok payload enc"
  shows "block_set (le_k enc) (enc_blocks enc seq)" and "enc_blocks enc seq \<noteq> []"
proof -
  have e: "degree_cdf_ok (le_cdf enc)" "degree_cdf_k (le_cdf enc) = le_k enc" "0 < le_k enc"
    "le_k enc < 2 ^ 32" "le_sys_span enc \<le> le_k enc"
    using assms small_k [of "le_k enc"] by (simp_all add: enc_ok_def)
  show "block_set (le_k enc) (enc_blocks enc seq)" "enc_blocks enc seq \<noteq> []"
    unfolding enc_blocks_def by (rule frame_blocks_range [OF e])+
qed

lemma xor_words_commute: "xor_words a b = xor_words b a"
  by (rule nth_equalityI) (simp_all add: xor.commute)

lemma encode_ok:
  assumes "enc_ok payload enc"
  shows "\<exists>enc'. encode P enc seq = Some (frame_data payload (le_block_len enc) (enc_blocks enc seq), enc') \<and>
    enc_ok payload enc' \<and> (\<forall>s. enc_blocks enc' s = enc_blocks enc s) \<and>
    enc' = enc\<lparr>le_idx := le_idx enc', le_idx_scratch := le_idx_scratch enc', le_acc := le_acc enc'\<rparr>"
proof -
  let ?bl = "le_block_len enc" and ?w = "le_words enc" and ?X = "source_words payload (le_block_len enc)"
  have w: "?w = div_ceil ?bl 4" "length (le_acc enc) = ?w" "le_sys_span enc \<le> le_k enc"
    and cdf: "degree_cdf_ok (le_cdf enc)" "degree_cdf_k (le_cdf enc) = le_k enc" "le_k enc < 2 ^ 32"
    using assms small_k [of "le_k enc"] by (simp_all add: enc_ok_def)
  have X: "length (?X b) = ?w" "take ?w (?X b) = ?X b" for b by (simp_all add: w(1))
  have out: "slice (words_as_bytes acc) 0 ?bl = Some (take ?bl (words_as_bytes acc))" if "length acc = ?w" for acc
    using that padded_block [of ?bl] by (simp add: slice_def w(1))
  have same: "enc_ok payload (enc\<lparr>le_idx := i, le_idx_scratch := s, le_acc := a\<rparr>)" if "length a = ?w" for i s a
    using assms that by (simp add: enc_ok_def)
  have same_acc: "enc_ok payload (enc\<lparr>le_acc := a\<rparr>)" if "length a = ?w" for a
    using assms that by (simp add: enc_ok_def)
  have copy: "copy_from_slice (replicate ?bl 0) (take ?bl (words_as_bytes acc)) =
      Some (take ?bl (words_as_bytes acc))" if "length acc = ?w" for acc :: "u32 list"
    using that padded_block [of ?bl] by (simp add: copy_from_slice_def w(1))
  note bl = enc_blocks_range [OF assms, of seq]
  have sl: "slice (le_blocks enc) (unat b * ?w) (unat b * ?w + ?w) = Some (?X (unat b))"
    if "b \<in> set (enc_blocks enc seq)" for b
    using enc_slice [OF assms] that bl(1) by (simp add: block_set_def)
  consider (weave) "unat seq < le_sys_span enc" "le_causal enc \<and> seq \<noteq> 0"
    | (direct) "unat seq < le_sys_span enc" "\<not> (le_causal enc \<and> seq \<noteq> 0)"
    | (repair) "\<not> unat seq < le_sys_span enc" by blast
  then show ?thesis
  proof cases
    case weave
    then have bs: "enc_blocks enc seq = [seq - 1, seq]" by (simp add: enc_blocks_def frame_blocks_def)
    have prev: "unat (seq - 1) = unat seq - 1" using weave(2) by (simp add: unat_minus_one)
    have "0 < unat seq" using weave(2) by (simp add: unat_gt_0)
    then have "?w \<le> unat seq * ?w" and "unat seq * ?w - ?w = unat (seq - 1) * ?w"
      by (simp_all add: prev diff_mult_distrib)
    then have "checked_sub (unat seq * ?w) ?w = Some (unat (seq - 1) * ?w)"
      by (simp add: checked_sub_def)
    moreover have "xor_words (?X (unat seq)) (?X (unat (seq - 1))) = xor_of ?X ?w (enc_blocks enc seq)"
      by (simp add: bs xor_of_def xor_zero_left X xor_words_commute)
    ultimately show ?thesis
      using weave sl [of "seq - 1"] sl [of seq] bs w X copy out same_acc
      by (intro exI [of _ "enc\<lparr>le_acc := xor_of ?X ?w (enc_blocks enc seq)\<rparr>"])
        (simp add: encode_def encode_into_def Let_def frame_data_words copy_from_slice_eq enc_blocks_def)
  next
    case direct
    then have bs: "enc_blocks enc seq = [seq]" by (auto simp: enc_blocks_def frame_blocks_def)
    then have "?X (unat seq) = xor_of ?X ?w (enc_blocks enc seq)"
      by (simp add: xor_of_def xor_zero_left X)
    then show ?thesis
      using direct sl [of seq] bs w X copy out assms
      by (intro exI [of _ enc]) (auto simp: encode_def encode_into_def Let_def frame_data_words)
  next
    case repair
    then have bs: "enc_blocks enc seq = equation (le_cdf enc) (le_session_id enc) seq"
      by (simp add: enc_blocks_def frame_blocks_def)
    obtain s where s: "frame_indices_into (le_idx enc) (le_idx_scratch enc) (le_cdf enc) (le_session_id enc) seq =
        Some (enc_blocks enc seq, s)"
      using equation_ok(3) [OF cdf(1), unfolded cdf(2), OF cdf(3)] unfolding bs by blast
    have "xor_blocks P (le_blocks enc) ?w (enc_blocks enc seq) (replicate ?w 0) =
        Some (xor_of ?X ?w (enc_blocks enc seq))"
      unfolding xor_of_def by (rule xor_blocks_run) (use sl X in simp_all)
    then show ?thesis
      using repair s w X copy out same
      by (intro exI [of _ "enc\<lparr>le_idx := enc_blocks enc seq, le_idx_scratch := s,
          le_acc := xor_of ?X ?w (enc_blocks enc seq)\<rparr>"])
        (simp add: encode_def encode_into_def Let_def frame_data_words enc_blocks_def)
  qed
qed

section \<open>Properties\<close>

text \<open>An encoder is built exactly for the admissible parameters, in each mode, without a panic,
  and otherwise the constructor returns the first error that applies.\<close>

theorem encoder_constructors:
  "encoder_try_new_causal P payload block_len session_id =
     (if params_ok payload block_len
      then encoder_with_mode P payload block_len session_id (div_ceil (length payload) block_len) True
      else Some (Inl (if payload = [] then Empty
        else if 0 < block_len \<and> block_len \<le> 0xffff \<and> MAX_STREAM_BYTES < length payload
        then TooLarge (length payload) MAX_STREAM_BYTES else InvalidStream))) \<and>
   (params_ok payload block_len = (\<exists>enc. encoder_new_causal P payload block_len session_id = Some enc)) \<and>
   (params_ok payload block_len = (\<exists>enc. encoder_new_systematic P payload block_len session_id = Some enc)) \<and>
   (params_ok payload block_len = (\<exists>enc. encoder_new P payload block_len session_id = Some enc))"
proof -
  let ?k = "div_ceil (length payload) block_len"
  have modes: "\<exists>enc. encoder_with_mode P payload block_len session_id sys causal = Some (Inr enc)"
    if "params_ok payload block_len" "sys = 0 \<or> sys = ?k" for sys causal
    using encoder_with_mode_ok [OF that] by blast
  show ?thesis
  proof (cases "params_ok payload block_len")
    case True
    then have "checked_encoder_k payload block_len = Inr ?k" by (simp add: checked_encoder_k_ok)
    moreover obtain e1 e2 e3 where
      "encoder_with_mode P payload block_len session_id ?k True = Some (Inr e1)"
      "encoder_with_mode P payload block_len session_id ?k False = Some (Inr e2)"
      "encoder_with_mode P payload block_len session_id 0 False = Some (Inr e3)"
      using modes [OF True, of ?k] modes [OF True, of 0] by blast
    ultimately show ?thesis using True
      by (simp add: encoder_try_new_causal_def encoder_new_causal_def encoder_new_systematic_def
          encoder_new_def encoder_try_new_systematic_def encoder_try_new_def expect_ok_def)
  next
    case False
    then have err: "checked_encoder_k payload block_len = Inl (if payload = [] then Empty
        else if 0 < block_len \<and> block_len \<le> 0xffff \<and> MAX_STREAM_BYTES < length payload
        then TooLarge (length payload) MAX_STREAM_BYTES else InvalidStream)"
      by (auto simp: checked_encoder_k_def params_ok_def Let_def)
    then show ?thesis using False
      by (simp add: encoder_try_new_causal_def encoder_new_causal_def encoder_new_systematic_def
          encoder_new_def encoder_try_new_systematic_def encoder_try_new_def encoder_with_mode_def expect_ok_def)
  qed
qed

text \<open>C25: the frame of any sequence number is the bytewise XOR of the zero-padded source blocks that
  number selects: in the causal first phase block \<open>seq\<close> and its predecessor, in the systematic one
  block \<open>seq\<close>, later the repair equation. Encoding never panics, is the same on every platform and
  leaves the encoder able to produce any other frame.\<close>

theorem encode_is_xor_of_blocks:
  assumes "enc_ok payload enc"
  shows "\<exists>enc'. encode P enc seq = Some (frame_data payload (le_block_len enc)
      (if unat seq < le_sys_span enc then (if le_causal enc \<and> seq \<noteq> 0 then [seq - 1, seq] else [seq])
       else equation (le_cdf enc) (le_session_id enc) seq), enc') \<and>
    enc_ok payload enc' \<and> map_option fst (encode Q enc' later) = map_option fst (encode P enc later)"
proof -
  obtain enc' where e: "encode P enc seq = Some (frame_data payload (le_block_len enc) (enc_blocks enc seq), enc')"
    "enc_ok payload enc'" "\<forall>s. enc_blocks enc' s = enc_blocks enc s"
    "enc' = enc\<lparr>le_idx := le_idx enc', le_idx_scratch := le_idx_scratch enc', le_acc := le_acc enc'\<rparr>"
    using encode_ok [OF assms] by blast
  have "le_block_len enc' = le_block_len enc" by (subst e(4)) simp
  then have "map_option fst (encode Q enc' later) = map_option fst (encode P enc later)"
    using encode_ok [OF e(2), of Q later] encode_ok [OF assms, of P later] e(3) by auto
  with e(1,2) show ?thesis by (auto simp: enc_blocks_def frame_blocks_def)
qed

theorem encode_is_xor_of_blocks_witness:
  "\<exists>enc enc'. encoder_new_causal plain_platform [1, 2, 3, 4, 5] 2 7 = Some enc \<and>
     encode plain_platform enc 1 = Some ([2, 6], enc')"
proof -
  have ok: "params_ok [1, 2, 3, 4, 5] 2"
    by (simp add: params_ok_def MAX_STREAM_BYTES_def MAX_FILE_BYTES_def MAX_SOURCE_BLOCKS_def div_ceil_def)
  have k: "div_ceil (length [1, 2, 3, 4, 5 :: u8]) 2 = 3" by (simp add: div_ceil_def)
  then obtain enc where enc: "encoder_with_mode plain_platform [1, 2, 3, 4, 5] 2 7 3 True = Some (Inr enc)"
    "enc_ok [1, 2, 3, 4, 5] enc" "le_block_len enc = 2" "le_sys_span enc = 3" "le_causal enc"
    using encoder_with_mode_ok [OF ok, of 3 plain_platform 7 True] by auto
  have "checked_encoder_k [1, 2, 3, 4, 5] 2 = Inr 3" using ok k by (simp only: checked_encoder_k_ok)
  then have "encoder_new_causal plain_platform [1, 2, 3, 4, 5] 2 7 = Some enc"
    using enc(1) by (simp add: encoder_new_causal_def encoder_try_new_causal_def expect_ok_def)
  moreover have "frame_data [1, 2, 3, 4, 5] 2 [0, 1] = [2, 6]"
    by (simp add: frame_data_def source_chunk_def xor_bytes_def numeral_2_eq_2)
  ultimately show ?thesis
    using encode_is_xor_of_blocks [OF enc(2), of plain_platform 1] enc(3-5) by auto
qed

end
