(* ===== verification/Blockset.thy ===== *)
theory Blockset
  imports Capacity
begin

text \<open>
  The index set of a pending equation (\<open>BlockSet\<close> of \<open>src/fountain.rs\<close>): a vector up to
  \<open>DENSE_LIMIT\<close> members and a bitmap with a count above. The locale \<open>index_set\<close> states what
  the decoder needs of it; its interpretation shows that both representations keep the laws.
\<close>

unbundle bit_operations_syntax

section \<open>Representation and operations\<close>

definition DENSE_LIMIT :: usize where "DENSE_LIMIT = 256"

datatype block_set_rep =
    Dense "u32 list"
  | Sparse (sparse_bits: "u64 list") (sparse_count: usize)

fun mark_members :: "u32 list \<Rightarrow> u64 list \<Rightarrow> u64 list option" where
  "mark_members [] bits = Some bits"
| "mark_members (b # bs) bits = do {
     w \<leftarrow> get_at bits (unat b div 64);
     bits \<leftarrow> set_at bits (unat b div 64) (w OR push_bit (unat b mod 64) 1);
     mark_members bs bits }"

definition bs_new :: "usize \<Rightarrow> u32 list \<Rightarrow> block_set_rep option" where
  "bs_new k members =
     (if DENSE_LIMIT < length members then do {
        bits \<leftarrow> mark_members members (replicate (div_ceil k 64) 0);
        Some (Sparse bits (length members)) }
      else Some (Dense members))"

fun bs_len :: "block_set_rep \<Rightarrow> usize" where
  "bs_len (Dense v) = length v"
| "bs_len (Sparse bits count) = count"

fun position :: "u32 list \<Rightarrow> u32 \<Rightarrow> usize option" where
  "position [] b = None"
| "position (x # xs) b = (if x = b then Some 0 else map_option Suc (position xs b))"

definition swap_remove :: "'a list \<Rightarrow> usize \<Rightarrow> 'a list option" where
  "swap_remove xs i = (if i < length xs then Some (butlast (xs[i := last xs])) else None)"

fun bs_remove :: "block_set_rep \<Rightarrow> u32 \<Rightarrow> block_set_rep option" where
  "bs_remove (Dense v) block =
     (case position v block of
        None \<Rightarrow> Some (Dense v)
      | Some i \<Rightarrow> do { v \<leftarrow> swap_remove v i; Some (Dense v) })"
| "bs_remove (Sparse bits count) block = do {
     w \<leftarrow> get_at bits (unat block div 64);
     let msk = push_bit (unat block mod 64) 1;
     if w AND msk \<noteq> 0 then do {
       bits \<leftarrow> set_at bits (unat block div 64) (w AND NOT msk);
       count \<leftarrow> checked_sub count 1;
       Some (Sparse bits count) }
     else Some (Sparse bits count) }"

definition trailing_zeros :: "u64 \<Rightarrow> nat" where
  "trailing_zeros w = length (takeWhile (\<lambda>i. \<not> bit w i) [0..<64])"

fun scan_words :: "usize \<Rightarrow> u64 list \<Rightarrow> u32 option" where
  "scan_words wi [] = None"
| "scan_words wi (w # ws) =
     (if w \<noteq> 0 then Some (word_of_nat (wi * 64 + trailing_zeros w)) else scan_words (wi + 1) ws)"

fun bs_single :: "block_set_rep \<Rightarrow> u32 option" where
  "bs_single (Dense v) = get_at v 0"
| "bs_single (Sparse bits count) = scan_words 0 bits"

section \<open>What the set contains\<close>

fun bs_elems :: "block_set_rep \<Rightarrow> nat set" where
  "bs_elems (Dense v) = unat ` set v"
| "bs_elems (Sparse bits count) = {n. n div 64 < length bits \<and> bit (bits ! (n div 64)) (n mod 64)}"

fun bs_ok :: "usize \<Rightarrow> block_set_rep \<Rightarrow> bool" where
  "bs_ok k (Dense v) \<longleftrightarrow> distinct v \<and> unat ` set v \<subseteq> {..<k}"
| "bs_ok k (Sparse bits count) \<longleftrightarrow> length bits = div_ceil k 64 \<and> bs_elems (Sparse bits count) \<subseteq> {..<k} \<and>
     count = card (bs_elems (Sparse bits count))"

lemma bs_elems_finite: "bs_ok k s \<Longrightarrow> finite (bs_elems s) \<and> bs_elems s \<subseteq> {..<k}"
proof -
  assume "bs_ok k s"
  then have "bs_elems s \<subseteq> {..<k}" by (cases s) (auto simp only: bs_ok.simps bs_elems.simps(1))
  then show ?thesis using finite_subset [OF _ finite_lessThan] by blast
qed

lemma bs_len_card: "bs_ok k s \<Longrightarrow> bs_len s = card (bs_elems s)"
  by (cases s) (simp_all add: card_image [OF unat_inj_on] distinct_card)

subsection \<open>Dense sets\<close>

lemma position_Some: "position xs b = Some i \<Longrightarrow> i < length xs \<and> xs ! i = b"
  by (induction xs arbitrary: i) (auto split: if_splits)

lemma position_None: "position xs b = None \<longleftrightarrow> b \<notin> set xs"
  by (induction xs) auto

lemma swap_remove_spec:
  assumes "distinct xs" and "i < length xs"
  shows "\<exists>ys. swap_remove xs i = Some ys \<and> distinct ys \<and> set ys = set xs - {xs ! i} \<and> length ys = length xs - 1"
proof (cases xs rule: rev_cases)
  case Nil
  then show ?thesis using assms by simp
next
  case (snoc ys y)
  show ?thesis
  proof (cases "i = length ys")
    case True
    then show ?thesis using assms snoc by (simp add: swap_remove_def)
  next
    case False
    then have i: "i < length ys" using assms snoc by simp
    have d: "distinct ys" "y \<notin> set ys" using assms(1) snoc by simp_all
    have split: "ys = take i ys @ ys ! i # drop (Suc i) ys" using i by (rule id_take_nth_drop)
    have "butlast (xs[i := last xs]) = ys[i := y]" using i snoc by (simp add: list_update_append)
    moreover have upd: "ys[i := y] = take i ys @ y # drop (Suc i) ys" using i by (simp add: upd_conv_take_nth_drop)
    moreover have "distinct (take i ys @ ys ! i # drop (Suc i) ys)" using d(1) split by simp
    then have "ys ! i \<notin> set (take i ys)" "ys ! i \<notin> set (drop (Suc i) ys)"
      "set (take i ys) \<inter> set (drop (Suc i) ys) = {}" by auto
    moreover have "set ys = insert (ys ! i) (set (take i ys) \<union> set (drop (Suc i) ys))"
      using arg_cong [OF split, of set] by simp
    ultimately show ?thesis
      using assms(2) snoc i d by (auto simp: swap_remove_def nth_append)
  qed
qed

subsection \<open>Bitmaps\<close>

lemma bit_or_mask: "m < 64 \<Longrightarrow> bit ((w :: u64) OR push_bit m 1) n \<longleftrightarrow> bit w n \<or> n = m"
  by (auto simp: bit_simps)

lemma bit_and_not_mask: "n < 64 \<Longrightarrow> bit ((w :: u64) AND NOT (push_bit m 1)) n \<longleftrightarrow> bit w n \<and> n \<noteq> m"
  by (auto simp: bit_simps)

lemma div_mod_eq: "n div 64 = m div 64 \<and> n mod 64 = m mod 64 \<longleftrightarrow> n = (m :: nat)"
  by (metis div_mult_mod_eq)

lemma sparse_elem: "n \<in> bs_elems (Sparse bits c) \<longleftrightarrow> n div 64 < length bits \<and> bit (bits ! (n div 64)) (n mod 64)"
  by simp

lemma sparse_update:
  assumes "m div 64 < length bits"
  shows "n \<in> bs_elems (Sparse (bits[m div 64 := w]) c) \<longleftrightarrow>
    (if n div 64 = m div 64 then bit w (n mod 64) else n \<in> bs_elems (Sparse bits c))"
  using assms unfolding sparse_elem by (cases "n div 64 = m div 64") simp_all

lemma mod_small: "n mod 64 < (64 :: nat)"
  by simp

lemma sparse_set_bit:
  assumes "m div 64 < length bits"
  shows "bs_elems (Sparse (bits[m div 64 := bits ! (m div 64) OR push_bit (m mod 64) 1]) c) =
    insert m (bs_elems (Sparse bits c))"
proof (rule set_eqI)
  fix n
  show "n \<in> bs_elems (Sparse (bits[m div 64 := bits ! (m div 64) OR push_bit (m mod 64) 1]) c) \<longleftrightarrow>
      n \<in> insert m (bs_elems (Sparse bits c))"
    unfolding sparse_update [OF assms] bit_or_mask [OF mod_small] insert_iff
    unfolding sparse_elem
    using assms div_mod_eq [of n m] by metis
qed

lemma sparse_clear_bit:
  assumes "m div 64 < length bits"
  shows "bs_elems (Sparse (bits[m div 64 := bits ! (m div 64) AND NOT (push_bit (m mod 64) 1)]) c) =
    bs_elems (Sparse bits c) - {m}"
proof (rule set_eqI)
  fix n
  show "n \<in> bs_elems (Sparse (bits[m div 64 := bits ! (m div 64) AND NOT (push_bit (m mod 64) 1)]) c) \<longleftrightarrow>
      n \<in> bs_elems (Sparse bits c) - {m}"
    unfolding sparse_update [OF assms] bit_and_not_mask [OF mod_small] Diff_iff singleton_iff
    unfolding sparse_elem
    using assms div_mod_eq [of n m] by metis
qed

lemma mark_members_spec:
  "\<forall>b \<in> set bs. unat b div 64 < length bits \<Longrightarrow>
   \<exists>bits'. mark_members bs bits = Some bits' \<and> length bits' = length bits \<and>
     bs_elems (Sparse bits' c) = bs_elems (Sparse bits c) \<union> unat ` set bs"
proof (induction bs arbitrary: bits)
  case (Cons b bs)
  let ?bits = "bits[unat b div 64 := bits ! (unat b div 64) OR push_bit (unat b mod 64) 1]"
  have "\<forall>b \<in> set bs. unat b div 64 < length ?bits" using Cons.prems by simp
  from Cons.IH [OF this] show ?case
    using Cons.prems sparse_set_bit [of "unat b" bits c]
    by (auto simp: get_at_in set_at_in simp del: bs_elems.simps)
qed simp

lemma word_index_bound: "n < k \<Longrightarrow> n div 64 < div_ceil k 64"
  using div_ceil_mult_ge [of 64 k] by (simp add: less_mult_imp_div_less)

lemma trailing_zeros_spec: "w \<noteq> 0 \<Longrightarrow> trailing_zeros w < 64 \<and> bit w (trailing_zeros w)"
proof -
  assume "w \<noteq> 0"
  then obtain i where i: "bit w i" using bit_eqI [of w 0] by auto
  then have "i < 64" using bit_imp_le_length [of w i] by simp
  let ?p = "\<lambda>i. \<not> bit w i"
  have "\<not> (\<forall>j \<in> set [0..<64]. ?p j)" using i \<open>i < 64\<close> by auto
  then have "takeWhile ?p [0..<64] \<noteq> [0..<64]" unfolding takeWhile_eq_all_conv .
  then have "length (takeWhile ?p [0..<64]) < length [0..<64]"
    by (metis length_takeWhile_le le_neq_implies_less takeWhile_eq_take take_all_iff nle_le)
  then show ?thesis using nth_length_takeWhile [of ?p "[0..<64]"] by (simp add: trailing_zeros_def)
qed

lemma sixty_four: "(64 :: nat) \<noteq> 0"
  by simp

lemma sparse_tail:
  "m \<in> bs_elems (Sparse ws c) \<longleftrightarrow> m + 64 \<in> bs_elems (Sparse (w # ws) c)"
  unfolding sparse_elem div_add_self2 [OF sixty_four] mod_add_self2 by simp

lemma sparse_zero_head:
  assumes "m \<in> bs_elems (Sparse (0 # ws) c)"
  shows "64 \<le> m"
proof (rule ccontr)
  assume "\<not> 64 \<le> m"
  then have "m div 64 = 0" by simp
  with assms show False unfolding sparse_elem by simp
qed

lemma sparse_single_tail:
  assumes "bs_elems (Sparse (0 # ws) c) = {n}"
  shows "64 \<le> n" and "bs_elems (Sparse ws c) = {n - 64}"
proof -
  show n: "64 \<le> n" using sparse_zero_head [of n ws c] unfolding assms by blast
  show "bs_elems (Sparse ws c) = {n - 64}"
  proof (rule set_eqI)
    fix m
    have "m \<in> bs_elems (Sparse ws c) \<longleftrightarrow> m + 64 = n" unfolding sparse_tail [of m ws c 0] assms by blast
    also have "\<dots> \<longleftrightarrow> m = n - 64" using n by linarith
    finally show "m \<in> bs_elems (Sparse ws c) \<longleftrightarrow> m \<in> {n - 64}" by blast
  qed
qed

lemma scan_words_single:
  "bs_elems (Sparse ws c) = {n} \<Longrightarrow> scan_words wi ws = Some (word_of_nat (wi * 64 + n))"
proof (induction ws arbitrary: wi n)
  case Nil
  then show ?case by simp
next
  case (Cons w ws)
  show ?case
  proof (cases "w = 0")
    case True
    note tail = sparse_single_tail [OF Cons.prems [unfolded True]]
    have "(wi + 1) * 64 + (n - 64) = wi * 64 + n" using tail(1) by simp
    with Cons.IH [OF tail(2), of "wi + 1"] show ?thesis unfolding True scan_words.simps by (simp only: simp_thms if_False)
  next
    case False
    have "trailing_zeros w \<in> bs_elems (Sparse (w # ws) c)"
      using trailing_zeros_spec [OF False] unfolding sparse_elem by simp
    then have "trailing_zeros w = n" unfolding Cons.prems by blast
    then show ?thesis using False by (simp del: of_nat_add of_nat_mult)
  qed
qed

section \<open>The interface\<close>

text \<open>A mutable set of block indices below \<open>k\<close>, as the peeling decoder uses it.\<close>

locale index_set =
  fixes k :: usize
    and mk :: "u32 list \<Rightarrow> 's option"
    and size_of :: "'s \<Rightarrow> usize"
    and remove_one :: "'s \<Rightarrow> u32 \<Rightarrow> 's option"
    and only :: "'s \<Rightarrow> u32 option"
    and elems :: "'s \<Rightarrow> nat set"
    and invar :: "'s \<Rightarrow> bool"
  assumes mk_spec: "distinct bs \<Longrightarrow> unat ` set bs \<subseteq> {..<k} \<Longrightarrow>
      \<exists>s. mk bs = Some s \<and> invar s \<and> elems s = unat ` set bs"
    and size_spec: "invar s \<Longrightarrow> size_of s = card (elems s)"
    and remove_spec: "invar s \<Longrightarrow> unat b < k \<Longrightarrow>
      \<exists>s'. remove_one s b = Some s' \<and> invar s' \<and> elems s' = elems s - {unat b}"
    and only_spec: "invar s \<Longrightarrow> elems s = {n} \<Longrightarrow> \<exists>r. only s = Some r \<and> unat r = n"
    and elems_below: "invar s \<Longrightarrow> elems s \<subseteq> {..<k}"
begin

lemma finite_elems: "invar s \<Longrightarrow> finite (elems s)"
  using elems_below finite_subset by blast

text \<open>Removing a member from a set of at least two leaves one to report, or still two.\<close>

lemma remove_member:
  assumes "invar s" and "unat b \<in> elems s" and "2 \<le> card (elems s)"
  shows "\<exists>s'. remove_one s b = Some s' \<and> invar s' \<and> elems s' = elems s - {unat b} \<and>
    size_of s' = card (elems s) - 1 \<and>
    (size_of s' = 1 \<longrightarrow> (\<exists>r. only s' = Some r \<and> elems s' = {unat r}))"
proof -
  have "unat b < k" using assms(1,2) elems_below by blast
  from remove_spec [OF assms(1) this] obtain s' where
    s': "remove_one s b = Some s'" "invar s'" "elems s' = elems s - {unat b}" by blast
  have len: "size_of s' = card (elems s) - 1"
    using size_spec [OF s'(2)] s'(3) assms(2) finite_elems [OF assms(1)] by simp
  have "\<exists>r. only s' = Some r \<and> elems s' = {unat r}" if one: "size_of s' = 1"
  proof -
    obtain n where "elems s' = {n}" using one size_spec [OF s'(2)] by (auto simp: card_1_singleton_iff)
    with only_spec [OF s'(2)] show ?thesis by blast
  qed
  with s' len show ?thesis by blast
qed

end

lemma bs_new_spec:
  assumes "distinct bs" and "unat ` set bs \<subseteq> {..<k}"
  shows "\<exists>s. bs_new k bs = Some s \<and> bs_ok k s \<and> bs_elems s = unat ` set bs"
proof (cases "DENSE_LIMIT < length bs")
  case True
  have "\<forall>b \<in> set bs. unat b div 64 < length (replicate (div_ceil k 64) (0 :: u64))"
    using assms(2) word_index_bound by auto
  from mark_members_spec [OF this, of "length bs"] obtain bits where
    bits: "mark_members bs (replicate (div_ceil k 64) 0) = Some bits" "length bits = div_ceil k 64"
      "bs_elems (Sparse bits (length bs)) = bs_elems (Sparse (replicate (div_ceil k 64) 0) (length bs)) \<union> unat ` set bs"
    by auto
  have "bs_elems (Sparse (replicate (div_ceil k 64) 0) (length bs)) = {}" by simp
  with bits(3) have el: "bs_elems (Sparse bits (length bs)) = unat ` set bs" by (simp only: Un_empty_left)
  moreover have "length bs = card (unat ` set bs)"
    using assms(1) by (simp add: card_image [OF unat_inj_on] distinct_card)
  ultimately have "bs_ok k (Sparse bits (length bs))"
    using bits(2) assms(2) by (simp only: bs_ok.simps simp_thms)
  then show ?thesis using True bits(1) el by (simp add: bs_new_def del: bs_elems.simps bs_ok.simps)
next
  case False
  then show ?thesis using assms by (simp add: bs_new_def)
qed

lemma bs_remove_spec:
  assumes "bs_ok k s" and "unat b < k"
  shows "\<exists>s'. bs_remove s b = Some s' \<and> bs_ok k s' \<and> bs_elems s' = bs_elems s - {unat b}"
proof (cases s)
  case (Dense v)
  show ?thesis
  proof (cases "position v b")
    case None
    then have "b \<notin> set v" by (simp add: position_None)
    then have "unat ` set v - {unat b} = unat ` set v" by (auto dest: word_unat_eq_iff [THEN iffD2])
    then show ?thesis using Dense None assms by simp
  next
    case (Some i)
    then have i: "i < length v" "v ! i = b" using position_Some by blast+
    have "distinct v" using assms(1) Dense by simp
    from swap_remove_spec [OF this i(1)] obtain ys where
      "swap_remove v i = Some ys" "distinct ys" "set ys = set v - {b}" using i(2) by blast
    then show ?thesis using Dense Some assms(1) by (auto simp: word_unat_eq_iff)
  qed
next
  case (Sparse bits count)
  have len: "unat b div 64 < length bits" using assms Sparse word_index_bound by simp
  let ?w = "bits ! (unat b div 64)" and ?m = "unat b mod 64"
  have mem: "unat b \<in> bs_elems s \<longleftrightarrow> bit ?w ?m" using Sparse len by simp
  show ?thesis
  proof (cases "bit ?w ?m")
    case True
    let ?s = "Sparse (bits[unat b div 64 := ?w AND NOT (push_bit ?m 1)]) (count - 1)"
    have fin: "finite (bs_elems s)" using bs_elems_finite assms(1) by blast
    have el: "bs_elems ?s = bs_elems s - {unat b}"
      using sparse_clear_bit [OF len] Sparse by simp
    have c: "count = card (bs_elems s)" using assms(1) Sparse by simp
    then have "0 < count" using fin mem True by (auto simp: card_gt_0_iff simp del: bs_elems.simps)
    moreover have "card (bs_elems s - {unat b}) = count - 1"
      using mem True c by (simp only: card_Diff_singleton)
    then have "count - 1 = card (bs_elems ?s)" unfolding el ..
    moreover have "bs_elems ?s \<subseteq> {..<k}" unfolding el using bs_elems_finite [OF assms(1)] by blast
    ultimately show ?thesis
      using True len el Sparse assms(1)
      by (simp add: get_at_in set_at_in checked_sub_def and_exp_eq_0_iff_not_bit Suc_le_eq Let_def del: bs_elems.simps)
  next
    case False
    then have "bs_elems s - {unat b} = bs_elems s" using mem by (simp del: bs_elems.simps)
    then show ?thesis using False len Sparse assms(1)
      by (simp add: get_at_in and_exp_eq_0_iff_not_bit Let_def del: bs_elems.simps)
  qed
qed

lemma bs_single_spec:
  assumes "bs_ok k s" and "bs_elems s = {n}" and "k < 2 ^ 32"
  shows "\<exists>r. bs_single s = Some r \<and> unat r = n"
proof (cases s)
  case (Dense v)
  then have "card (unat ` set v) = 1" using assms(2) by simp
  then have "length v = 1" using Dense assms(1) by (simp add: card_image [OF unat_inj_on] distinct_card)
  then obtain x where "v = [x]" by (auto simp: length_Suc_conv)
  then show ?thesis using Dense assms(2) by (auto simp: get_at_def)
next
  case (Sparse bits c)
  have n: "n < 2 ^ 32" using bs_elems_finite [OF assms(1)] assms(2,3) by auto
  then have "scan_words 0 bits = Some (word_of_nat n)"
    using scan_words_single [of bits c n 0] Sparse assms(2) by (simp del: bs_elems.simps)
  then show ?thesis using Sparse n by (simp add: unat_of_nat)
qed

text \<open>The two representations keep the laws for every block count of the wire format.\<close>

interpretation blocks: index_set "k mod 2 ^ 32" "bs_new (k mod 2 ^ 32)" bs_len bs_remove bs_single bs_elems
    "bs_ok (k mod 2 ^ 32)" for k
proof unfold_locales
  fix bs :: "u32 list"
  assume "distinct bs" "unat ` set bs \<subseteq> {..<k mod 2 ^ 32}"
  then show "\<exists>s. bs_new (k mod 2 ^ 32) bs = Some s \<and> bs_ok (k mod 2 ^ 32) s \<and> bs_elems s = unat ` set bs"
    by (rule bs_new_spec)
next
  fix s n
  assume "bs_ok (k mod 2 ^ 32) s" "bs_elems s = {n}"
  then show "\<exists>r. bs_single s = Some r \<and> unat r = n"
    by (rule bs_single_spec) (rule mod_less_divisor, simp)
qed (use bs_len_card bs_remove_spec bs_elems_finite in blast)+

section \<open>Property\<close>

text \<open>C29: removing a member from an index set of two or more never panics and shrinks the set by
  exactly that block, in the vector and in the bitmap representation; when one block is left, it is
  the one reported.\<close>

theorem block_set_remove_member:
  assumes "k < 2 ^ 32" and "distinct members" and "unat ` set members \<subseteq> {..<k}"
    and "b \<in> set members" and "2 \<le> length members"
  shows "\<exists>s s'. bs_new k members = Some s \<and> bs_len s = length members \<and> bs_remove s b = Some s' \<and>
    bs_elems s' = unat ` set members - {unat b} \<and> bs_len s' = length members - 1 \<and>
    (bs_len s' = 1 \<longrightarrow> (\<exists>r. bs_single s' = Some r \<and> set members = {b, r}))"
proof -
  have k: "k mod 2 ^ 32 = k" using assms(1) by (rule mod_less)
  obtain s where s: "bs_new k members = Some s" "bs_ok k s" "bs_elems s = unat ` set members"
    using blocks.mk_spec [of members k, unfolded k, OF assms(2,3)] by blast
  have c: "card (bs_elems s) = length members"
    using assms(2) s(3) by (simp add: card_image [OF unat_inj_on] distinct_card)
  have "unat b \<in> bs_elems s" "2 \<le> card (bs_elems s)" using assms(4,5) s(3) c by simp_all
  from blocks.remove_member [of k, unfolded k, OF s(2) this] obtain s' where
    s': "bs_remove s b = Some s'" "bs_elems s' = bs_elems s - {unat b}" "bs_len s' = card (bs_elems s) - 1"
      "bs_len s' = 1 \<longrightarrow> (\<exists>r. bs_single s' = Some r \<and> bs_elems s' = {unat r})" by blast
  have pair: "set members = {b, r}" if "bs_elems s' = {unat r}" for r
  proof -
    have "unat ` set members = insert (unat b) (unat ` set members - {unat b})" using assms(4) by blast
    also have "\<dots> = unat ` {b, r}" using that s'(2) s(3) by simp
    finally have "unat ` set members = unat ` {b, r}" .
    then show ?thesis unfolding inj_image_eq_iff [OF unat_inj_on [of UNIV]] .
  qed
  then have "bs_len s' = 1 \<longrightarrow> (\<exists>r. bs_single s' = Some r \<and> set members = {b, r})" using s'(4) by blast
  moreover have "bs_len s = length members" using bs_len_card [OF s(2)] c by simp
  ultimately show ?thesis using s s'(1-3) c
    by (intro exI [of _ s] exI [of _ s'] conjI) simp_all
qed

theorem block_set_remove_member_witness:
  "\<exists>s s'. bs_new 9 [3, 8] = Some s \<and> bs_remove s 3 = Some s' \<and> bs_single s' = Some 8"
proof -
  obtain s s' where s: "bs_new 9 [3, 8] = Some s" "bs_remove s 3 = Some s'" "bs_len s' = length [3, 8 :: u32] - 1"
    "bs_len s' = 1 \<longrightarrow> (\<exists>r. bs_single s' = Some r \<and> set [3, 8] = {3, r})"
    using block_set_remove_member [of 9 "[3, 8]" 3] by auto
  then obtain r where "bs_single s' = Some r" "set [3, 8] = {3, r}" by auto
  then have "r = 8" by (auto simp: insert_eq_iff doubleton_eq_iff)
  with s \<open>bs_single s' = Some r\<close> show ?thesis by blast
qed

end
