(* ===== verification/Decoder.thy ===== *)
theory Decoder
  imports U32Set Encoder Blockset
begin

text \<open>
  The peeling decoder (\<open>LtDecoder\<close> of \<open>src/fountain.rs\<close>): its state, its constructors,
  \<open>add_frame\<close>, the \<open>resolve\<close> cascade and \<open>assemble\<close>. Values live in one flat word arena
  and are named by their offset; a pending equation holds the set of its unsolved blocks and the
  offset of its value; \<open>by_block\<close> lists the equations that wait for a block. Every index, slice
  and \<open>expect\<close> of the source is a branch that may return \<open>None\<close>. The work list of \<open>resolve\<close>
  is a list whose head is the top of the source's stack. Counters are unbounded: none of them can
  reach the width of \<open>usize\<close> before its limit check applies, except \<open>frames_dup\<close> and
  \<open>frames_dropped\<close>, which count calls.
\<close>

section \<open>State\<close>

definition MAX_PENDING_EDGES_PER_BLOCK :: usize where "MAX_PENDING_EDGES_PER_BLOCK = 64"

record pending_frame =
  pf_idx :: block_set_rep
  pf_off :: usize
  pf_active :: bool

record lt_decoder =
  ld_k :: usize
  ld_block_len :: usize
  ld_words :: usize
  ld_session_id :: u32
  ld_total_len :: usize
  ld_sys_span :: usize
  ld_causal :: bool
  ld_cdf :: degree_cdf
  ld_solved :: "usize option list"
  ld_solved_count :: usize
  ld_frames :: "pending_frame list"
  ld_by_block :: "usize list list"
  ld_seen :: u32_set
  ld_idx :: "u32 list"
  ld_idx_scratch :: "u32 list"
  ld_arena :: "u32 list"
  ld_max_arena_words :: usize
  ld_max_pending_edges :: usize
  ld_pending_edges :: usize
  ld_frames_new :: usize
  ld_frames_dup :: usize
  ld_frames_dropped :: usize

definition decoder_with_mode :: "'m math_platform_scheme \<Rightarrow> usize \<Rightarrow> usize \<Rightarrow> u32 \<Rightarrow> usize \<Rightarrow> usize \<Rightarrow> bool \<Rightarrow>
    lt_decoder result option" where
  "decoder_with_mode P k block_len session_id total_len sys_span causal =
     (if k = 0 \<or> block_len = 0 \<or> total_len = 0 then Some (Inl InvalidStream)
      else if MAX_SOURCE_BLOCKS < k \<or> 0xffff < block_len then Some (Inl InvalidStream)
      else if MAX_STREAM_BYTES < total_len then Some (Inl (TooLarge total_len MAX_STREAM_BYTES))
      else if k \<noteq> div_ceil total_len block_len then Some (Inl InvalidStream)
      else do {
        let words = div_ceil block_len 4;
        cdf \<leftarrow> degree_cdf_new P k;
        Some (Inr \<lparr>ld_k = k, ld_block_len = block_len, ld_words = words, ld_session_id = session_id,
          ld_total_len = total_len, ld_sys_span = sys_span, ld_causal = causal, ld_cdf = cdf,
          ld_solved = replicate k None, ld_solved_count = 0, ld_frames = [],
          ld_by_block = replicate k [], ld_seen = set_with_capacity k, ld_idx = [],
          ld_idx_scratch = [], ld_arena = [],
          ld_max_arena_words = saturating_mul (saturating_mul k words) 4,
          ld_max_pending_edges = saturating_mul k MAX_PENDING_EDGES_PER_BLOCK,
          ld_pending_edges = 0, ld_frames_new = 0, ld_frames_dup = 0, ld_frames_dropped = 0\<rparr>) })"

definition decoder_try_new where
  "decoder_try_new P k block_len session_id total_len =
     decoder_with_mode P k block_len session_id total_len 0 False"

definition decoder_try_new_systematic where
  "decoder_try_new_systematic P k block_len session_id total_len =
     decoder_with_mode P k block_len session_id total_len k False"

definition decoder_try_new_causal where
  "decoder_try_new_causal P k block_len session_id total_len =
     decoder_with_mode P k block_len session_id total_len k True"

definition decoder_new where
  "decoder_new P k block_len session_id total_len =
     expect_ok (decoder_try_new P k block_len session_id total_len)"

definition decoder_new_systematic where
  "decoder_new_systematic P k block_len session_id total_len =
     expect_ok (decoder_try_new_systematic P k block_len session_id total_len)"

definition decoder_new_causal where
  "decoder_new_causal P k block_len session_id total_len =
     expect_ok (decoder_try_new_causal P k block_len session_id total_len)"

definition is_complete :: "lt_decoder \<Rightarrow> bool" where
  "is_complete d \<longleftrightarrow> ld_k d \<le> ld_solved_count d"

definition decoder_is_systematic :: "lt_decoder \<Rightarrow> bool" where
  "decoder_is_systematic d \<longleftrightarrow> 0 < ld_sys_span d \<and> \<not> ld_causal d"

definition decoder_is_causal :: "lt_decoder \<Rightarrow> bool" where
  "decoder_is_causal d = ld_causal d"

definition decoder_frames_new :: "lt_decoder \<Rightarrow> usize" where
  "decoder_frames_new d = ld_frames_new d"

definition decoder_frames_dup :: "lt_decoder \<Rightarrow> usize" where
  "decoder_frames_dup d = ld_frames_dup d"

definition decoder_frames_dropped :: "lt_decoder \<Rightarrow> usize" where
  "decoder_frames_dropped d = ld_frames_dropped d"

definition decoder_solved_count :: "lt_decoder \<Rightarrow> usize" where
  "decoder_solved_count d = ld_solved_count d"

section \<open>The cascade\<close>

definition xor_at :: "'m platform_scheme \<Rightarrow> u32 list \<Rightarrow> usize \<Rightarrow> usize \<Rightarrow> usize \<Rightarrow> u32 list option" where
  "xor_at P arena a b words =
     (if a = b \<or> length arena < max a b then None
      else if a < b then do {
        let left = take b arena;
        let right = drop b arena;
        dst \<leftarrow> slice left a (a + words);
        src \<leftarrow> slice right 0 words;
        v \<leftarrow> xor_into P dst src;
        left \<leftarrow> splice left a v;
        Some (left @ right) }
      else do {
        let left = take a arena;
        let right = drop a arena;
        dst \<leftarrow> slice right 0 words;
        src \<leftarrow> slice left b (b + words);
        v \<leftarrow> xor_into P dst src;
        right \<leftarrow> splice right 0 v;
        Some (left @ right) })"

text \<open>One waiting equation: cancel the solved block from its value and its index set, retire it when
  at most one block is left, and hand that block on.\<close>

definition settle :: "lt_decoder \<Rightarrow> pending_frame \<Rightarrow> (u32 \<times> usize) list \<Rightarrow>
    (pending_frame \<times> (u32 \<times> usize) list) option" where
  "settle d frame queue =
     (if bs_len (pf_idx frame) = 0 then Some (frame\<lparr>pf_active := False\<rparr>, queue)
      else if bs_len (pf_idx frame) = 1 then do {
        r \<leftarrow> bs_single (pf_idx frame);
        s \<leftarrow> get_at (ld_solved d) (unat r);
        Some (frame\<lparr>pf_active := False\<rparr>, if s = None then (r, pf_off frame) # queue else queue) }
      else Some (frame, queue))"

fun wake :: "'m platform_scheme \<Rightarrow> u32 \<Rightarrow> usize list \<Rightarrow> lt_decoder \<Rightarrow> (u32 \<times> usize) list \<Rightarrow>
    (lt_decoder \<times> (u32 \<times> usize) list) option" where
  "wake P b [] d queue = Some (d, queue)"
| "wake P b (frame_id # waiting) d queue = do {
     frame \<leftarrow> get_at (ld_frames d) frame_id;
     if \<not> pf_active frame then wake P b waiting d queue
     else do {
       stored \<leftarrow> get_at (ld_solved d) (unat b);
       s_off \<leftarrow> stored;
       arena \<leftarrow> xor_at P (ld_arena d) (pf_off frame) s_off (ld_words d);
       idx \<leftarrow> bs_remove (pf_idx frame) b;
       (frame, queue) \<leftarrow> settle d (frame\<lparr>pf_idx := idx\<rparr>) queue;
       frames \<leftarrow> set_at (ld_frames d) frame_id frame;
       wake P b waiting (d\<lparr>ld_arena := arena, ld_frames := frames\<rparr>) queue } }"

partial_function (option) resolve_loop :: "'m platform_scheme \<Rightarrow> lt_decoder \<Rightarrow> (u32 \<times> usize) list \<Rightarrow>
    lt_decoder option" where
  "resolve_loop P d queue =
     (case queue of
        [] \<Rightarrow> Some d
      | (b, off) # queue \<Rightarrow> do {
          stored \<leftarrow> get_at (ld_solved d) (unat b);
          if stored \<noteq> None then resolve_loop P d queue
          else do {
            solved \<leftarrow> set_at (ld_solved d) (unat b) (Some off);
            waiting \<leftarrow> get_at (ld_by_block d) (unat b);
            by_block \<leftarrow> set_at (ld_by_block d) (unat b) [];
            (d, queue) \<leftarrow> wake P b waiting
              (d\<lparr>ld_solved := solved, ld_solved_count := ld_solved_count d + 1, ld_by_block := by_block\<rparr>) queue;
            resolve_loop P d queue } })"

declare resolve_loop.simps [code]

definition resolve :: "'m platform_scheme \<Rightarrow> lt_decoder \<Rightarrow> u32 \<Rightarrow> usize \<Rightarrow> lt_decoder option" where
  "resolve P d b0 off0 = resolve_loop P d [(b0, off0)]"

section \<open>Adding a frame\<close>

definition decoder_indices :: "lt_decoder \<Rightarrow> u32 \<Rightarrow> (u32 list \<times> u32 list) option" where
  "decoder_indices d seq =
     (if unat seq < ld_sys_span d \<and> \<not> ld_causal d then
        (if ld_k d = 0 then None
         else Some ([word_of_nat (unat seq mod ld_k d)], ld_idx_scratch d))
      else if unat seq < ld_sys_span d then
        Some ((if seq \<noteq> 0 then [seq - 1] else []) @ [seq], ld_idx_scratch d)
      else frame_indices_into (ld_idx d) (ld_idx_scratch d) (ld_cdf d) (ld_session_id d) seq)"

fun keep_unsolved :: "usize option list \<Rightarrow> u32 list \<Rightarrow> u32 list option" where
  "keep_unsolved solved [] = Some []"
| "keep_unsolved solved (b # bs) = do {
     s \<leftarrow> get_at solved (unat b);
     rest \<leftarrow> keep_unsolved solved bs;
     Some (if s = None then b # rest else rest) }"

fun cancel_solved :: "'m platform_scheme \<Rightarrow> usize option list \<Rightarrow> usize \<Rightarrow> usize \<Rightarrow> u32 list \<Rightarrow> u32 list \<Rightarrow>
    u32 list option" where
  "cancel_solved P solved words off [] arena = Some arena"
| "cancel_solved P solved words off (b # bs) arena = do {
     s \<leftarrow> get_at solved (unat b);
     arena \<leftarrow> (case s of None \<Rightarrow> Some arena | Some s_off \<Rightarrow> xor_at P arena off s_off words);
     cancel_solved P solved words off bs arena }"

fun enlist :: "usize \<Rightarrow> u32 list \<Rightarrow> usize list list \<Rightarrow> usize list list option" where
  "enlist frame_id [] by_block = Some by_block"
| "enlist frame_id (b # bs) by_block = do {
     ids \<leftarrow> get_at by_block (unat b);
     by_block \<leftarrow> set_at by_block (unat b) (ids @ [frame_id]);
     enlist frame_id bs by_block }"

text \<open>The value of a fresh frame: the block's bytes written over a zeroed slot of the arena.\<close>

definition load_block :: "usize \<Rightarrow> usize \<Rightarrow> u8 list \<Rightarrow> u32 list option" where
  "load_block words block_len block = do {
     let bytes = words_as_bytes (replicate words 0);
     dst \<leftarrow> slice bytes 0 block_len;
     src \<leftarrow> copy_from_slice dst block;
     bytes \<leftarrow> splice bytes 0 src;
     Some (bytes_as_words bytes) }"

definition add_frame :: "'m platform_scheme \<Rightarrow> lt_decoder \<Rightarrow> u32 \<Rightarrow> u8 list \<Rightarrow> lt_decoder option" where
  "add_frame P d seq block =
     (if length block \<noteq> ld_block_len d then Some (d\<lparr>ld_frames_dropped := ld_frames_dropped d + 1\<rparr>)
      else if is_complete d then Some d
      else do {
        dup \<leftarrow> set_contains (ld_seen d) seq;
        if dup then Some (d\<lparr>ld_frames_dup := ld_frames_dup d + 1\<rparr>)
        else do {
          (idx, scratch) \<leftarrow> decoder_indices d seq;
          let d = d\<lparr>ld_idx := idx, ld_idx_scratch := scratch\<rparr>;
          unsolved \<leftarrow> keep_unsolved (ld_solved d) idx;
          let new_edges = (if 1 < length unsolved then length unsolved else 0);
          if ld_max_arena_words d < saturating_add (length (ld_arena d)) (ld_words d) \<or>
             ld_max_pending_edges d < saturating_add (ld_pending_edges d) new_edges
          then Some (d\<lparr>ld_frames_dropped := ld_frames_dropped d + 1\<rparr>)
          else do {
            (inserted, seen) \<leftarrow> set_insert (ld_seen d) seq;
            if \<not> inserted then None
            else do {
              let d = d\<lparr>ld_seen := seen, ld_frames_new := ld_frames_new d + 1\<rparr>;
              if unsolved = [] then Some d
              else do {
                let off = length (ld_arena d);
                slot \<leftarrow> load_block (ld_words d) (ld_block_len d) block;
                arena \<leftarrow> cancel_solved P (ld_solved d) (ld_words d) off idx (ld_arena d @ slot);
                let d = d\<lparr>ld_arena := arena\<rparr>;
                if length unsolved = 1 then do {
                  b \<leftarrow> get_at unsolved 0;
                  resolve P d b off }
                else do {
                  let frame_id = length (ld_frames d);
                  by_block \<leftarrow> enlist frame_id unsolved (ld_by_block d);
                  set \<leftarrow> bs_new (ld_k d) unsolved;
                  Some (d\<lparr>ld_pending_edges := ld_pending_edges d + length unsolved,
                    ld_by_block := by_block,
                    ld_frames := ld_frames d @ [\<lparr>pf_idx = set, pf_off = off, pf_active = True\<rparr>]\<rparr>) } } } } } })"

section \<open>Assembly\<close>

fun place_blocks :: "lt_decoder \<Rightarrow> usize \<Rightarrow> usize option list \<Rightarrow> u8 list \<Rightarrow> u8 list option" where
  "place_blocks d b [] out = Some out"
| "place_blocks d b (value # values) out = do {
     out \<leftarrow> (case value of
        None \<Rightarrow> Some out
      | Some off \<Rightarrow> do {
          let start = b * ld_block_len d;
          rest \<leftarrow> checked_sub (ld_total_len d) start;
          let len = min (ld_block_len d) rest;
          words \<leftarrow> slice (ld_arena d) off (off + ld_words d);
          src \<leftarrow> slice (words_as_bytes words) 0 len;
          splice out start src });
     place_blocks d (b + 1) values out }"

text \<open>The outer option is the panic, the inner one the source's result.\<close>

definition assemble :: "lt_decoder \<Rightarrow> u8 list option option" where
  "assemble d =
     (if \<not> is_complete d then Some None
      else map_option Some (place_blocks d 0 (ld_solved d) (replicate (ld_total_len d) 0)))"

end
