(* ===== verification/Peeling.thy ===== *)
theory Peeling
  imports Simd
begin

text \<open>
  What peeling promises, without arenas or index structures. An abstract state holds the known
  blocks, the pending equations (the set of unknown blocks and the XOR of their values) and a work
  list of derived values. One \<open>peel\<close> step takes a derived value off the list: a known block is
  skipped, an unknown one becomes known and is cancelled from every pending equation, and an
  equation left with a single block moves to the work list. Rule induction gives the two facts the
  decoder rests on: values derived from consistent equations are the source blocks, and when the work
  list is empty exactly the blocks that peeling can derive from the accepted equations are known.
\<close>

section \<open>Abstract states and steps\<close>

type_synonym val = "u32 list"
type_synonym pending = "nat \<Rightarrow> (nat set \<times> val) option"
type_synonym peel_state = "(nat \<Rightarrow> val option) \<times> pending \<times> (nat \<times> val) list"

definition cancel :: "nat \<Rightarrow> val \<Rightarrow> nat set \<times> val \<Rightarrow> (nat set \<times> val) option" where
  "cancel b v eqn = (case eqn of (S, u) \<Rightarrow>
     if b \<notin> S then Some (S, u)
     else if 2 \<le> card (S - {b}) then Some (S - {b}, xor_words u v) else None)"

definition absorb :: "nat \<Rightarrow> val \<Rightarrow> pending \<Rightarrow> pending" where
  "absorb b v p f = (case p f of None \<Rightarrow> None | Some eqn \<Rightarrow> cancel b v eqn)"

definition releases :: "nat \<Rightarrow> val \<Rightarrow> pending \<Rightarrow> (nat \<times> val) set" where
  "releases b v p = {(r, xor_words u v) | r u. \<exists>f S. p f = Some (S, u) \<and> b \<in> S \<and> S - {b} = {r}}"

lemma absorb_SomeD: "absorb b v p f = Some eqn \<Longrightarrow> \<exists>S u. p f = Some (S, u) \<and> cancel b v (S, u) = Some eqn"
  by (auto simp: absorb_def split: option.splits)

inductive peel :: "peel_state \<Rightarrow> peel_state \<Rightarrow> bool" where
  skip: "b \<in> dom K \<Longrightarrow> peel (K, p, (b, v) # Q) (K, p, Q)"
| take: "b \<notin> dom K \<Longrightarrow> set Q' = set Q \<union> releases b v p \<Longrightarrow>
    peel (K, p, (b, v) # Q) (K(b \<mapsto> v), absorb b v p, Q')"

inductive_cases peelE: "peel s t"
inductive_simps peel_done: "peel (K, p, []) t"

section \<open>XOR over a set of blocks\<close>

definition xor_set :: "(nat \<Rightarrow> val) \<Rightarrow> nat \<Rightarrow> nat set \<Rightarrow> val" where
  "xor_set X w S = Finite_Set.fold (\<lambda>b acc. xor_words acc (X b)) (replicate w 0) S"

lemma xor_words_assoc: "xor_words (xor_words a b) c = xor_words a (xor_words b c)"
  by (rule nth_equalityI) (simp_all add: xor.assoc)

lemma xor_words_comm: "xor_words a b = xor_words b a"
  by (rule nth_equalityI) (simp_all add: xor.commute)

lemma xor_words_swap: "xor_words (xor_words a b) c = xor_words (xor_words a c) b"
  by (simp only: xor_words_assoc xor_words_comm [of b c])

lemma xor_words_cancel: "length a = length b \<Longrightarrow> xor_words (xor_words a b) b = a"
  by (rule nth_equalityI) (simp_all add: xor.assoc)

lemma xor_words_zero: "xor_words (replicate (length a) 0) a = a"
  by (rule nth_equalityI) simp_all

lemma xor_commutes: "comp_fun_commute_on UNIV (\<lambda>b acc. xor_words acc (X b))"
  by unfold_locales (auto simp: fun_eq_iff intro: xor_words_swap)

lemma xor_set_empty [simp]: "xor_set X w {} = replicate w 0"
  by (simp add: xor_set_def)

lemma xor_set_insert: "finite S \<Longrightarrow> b \<notin> S \<Longrightarrow> xor_set X w (insert b S) = xor_words (xor_set X w S) (X b)"
  unfolding xor_set_def by (rule comp_fun_commute_on.fold_insert [OF xor_commutes]) simp_all

lemma length_xor_set:
  assumes "\<And>b. length (X b) = w"
  shows "finite S \<Longrightarrow> length (xor_set X w S) = w"
  by (induction S rule: finite_induct) (simp_all add: xor_set_insert assms)

lemma xor_set_single:
  assumes "\<And>b. length (X b) = w"
  shows "xor_set X w {b} = X b"
  using xor_words_zero [of "X b"] by (simp add: xor_set_insert assms)

lemma xor_set_remove:
  assumes "\<And>b. length (X b) = w" and "finite S" and "b \<in> S"
  shows "xor_words (xor_set X w S) (X b) = xor_set X w (S - {b})"
proof -
  have "xor_set X w S = xor_words (xor_set X w (S - {b})) (X b)"
    using xor_set_insert [of "S - {b}" b X w] assms(2,3) by (simp add: insert_absorb)
  then show ?thesis using assms length_xor_set [OF assms(1)] by (simp add: xor_words_cancel)
qed

lemma xor_set_fold:
  assumes "\<And>b. length (X b) = w"
  shows "distinct bs \<Longrightarrow> finite S \<Longrightarrow> set bs \<inter> S = {} \<Longrightarrow>
    foldl (\<lambda>acc b. xor_words acc (X b)) (xor_set X w S) bs = xor_set X w (S \<union> set bs)"
proof (induction bs arbitrary: S)
  case (Cons b bs)
  have "xor_words (xor_set X w S) (X b) = xor_set X w (insert b S)"
    using Cons.prems by (simp add: xor_set_insert)
  then show ?case using Cons.IH [of "insert b S"] Cons.prems by simp
qed simp

section \<open>Values\<close>

text \<open>A state agrees with the source \<open>X\<close> when each of its values is the one \<open>X\<close> gives.\<close>

definition agrees :: "(nat \<Rightarrow> val) \<Rightarrow> nat \<Rightarrow> peel_state \<Rightarrow> bool" where
  "agrees X w st = (case st of (K, p, Q) \<Rightarrow>
     (\<forall>b v. K b = Some v \<longrightarrow> v = X b) \<and>
     (\<forall>f S u. p f = Some (S, u) \<longrightarrow> finite S \<and> u = xor_set X w S) \<and>
     (\<forall>(b, v) \<in> set Q. v = X b))"

lemma agrees_peel:
  assumes "\<And>b. length (X b) = w"
  shows "peel s t \<Longrightarrow> agrees X w s \<Longrightarrow> agrees X w t"
proof (induction rule: peel.induct)
  case (skip b K p v Q)
  then show ?case by (simp add: agrees_def)
next
  case (take b K Q' Q v p)
  have v: "v = X b" using take.prems by (simp add: agrees_def)
  have pend: "finite S \<and> u = xor_set X w S" if "absorb b v p f = Some (S, u)" for f S u
  proof -
    from absorb_SomeD [OF that] obtain S0 u0 where p: "p f = Some (S0, u0)" by blast
    then have "finite S0" "u0 = xor_set X w S0" using take.prems by (auto simp: agrees_def)
    with that p v show ?thesis
      by (auto simp: absorb_def cancel_def xor_set_remove [where X = X, OF assms] split: if_splits)
  qed
  have "u = X r" if "(r, u) \<in> set Q'" for r u
  proof (cases "(r, u) \<in> set Q")
    case True
    then show ?thesis using take.prems by (auto simp: agrees_def)
  next
    case False
    then have "(r, u) \<in> releases b v p" using that take.hyps(2) by auto
    then obtain f S u0 where r: "p f = Some (S, u0)" "b \<in> S" "S - {b} = {r}" "u = xor_words u0 v"
      unfolding releases_def by blast
    then have "finite S" "u0 = xor_set X w S" using take.prems by (auto simp: agrees_def)
    then have "u = xor_set X w {r}" using r v xor_set_remove [where X = X and S = S and b = b, OF assms] by simp
    then show ?thesis by (simp add: xor_set_single [where X = X, OF assms])
  qed
  with v pend take.prems show ?case by (auto simp: agrees_def)
qed

lemma agrees_peels:
  assumes "\<And>b. length (X b) = w"
  shows "peel\<^sup>*\<^sup>* s t \<Longrightarrow> agrees X w s \<Longrightarrow> agrees X w t"
  by (induction rule: rtranclp_induct) (auto intro: agrees_peel [OF assms])

section \<open>What can be derived\<close>

inductive_set peelable :: "nat set set \<Rightarrow> nat set" for eqs where
  "E \<in> eqs \<Longrightarrow> r \<in> E \<Longrightarrow> (\<And>x. x \<in> E \<Longrightarrow> x \<noteq> r \<Longrightarrow> x \<in> peelable eqs) \<Longrightarrow> r \<in> peelable eqs"

lemma peelable_mono: "eqs \<subseteq> eqs' \<Longrightarrow> peelable eqs \<subseteq> peelable eqs'"
proof
  fix r assume sub: "eqs \<subseteq> eqs'" and "r \<in> peelable eqs"
  from this(2) show "r \<in> peelable eqs'"
    by (induction rule: peelable.induct) (use sub in \<open>auto intro: peelable.intros\<close>)
qed

text \<open>The state has seen exactly the equations \<open>eqs\<close>: its knowledge is derivable, each pending
  equation is one of them without its known blocks, and every one of them is pending or accounted
  for by known blocks and the work list.\<close>

definition tracks :: "nat set set \<Rightarrow> peel_state \<Rightarrow> bool" where
  "tracks eqs st = (case st of (K, p, Q) \<Rightarrow>
     dom K \<subseteq> peelable eqs \<and> fst ` set Q \<subseteq> peelable eqs \<and>
     (\<forall>f S u. p f = Some (S, u) \<longrightarrow> 2 \<le> card S \<and> (\<exists>E \<in> eqs. S = E - dom K)) \<and>
     (\<forall>E \<in> eqs. (\<exists>f u. p f = Some (E - dom K, u)) \<or> E \<subseteq> dom K \<union> fst ` set Q))"

lemma tracksD:
  assumes "tracks eqs (K, p, Q)"
  shows "dom K \<subseteq> peelable eqs" and "fst ` set Q \<subseteq> peelable eqs"
    and "p f = Some (S, u) \<Longrightarrow> 2 \<le> card S \<and> (\<exists>E \<in> eqs. S = E - dom K)"
    and "E \<in> eqs \<Longrightarrow> (\<exists>f u. p f = Some (E - dom K, u)) \<or> E \<subseteq> dom K \<union> fst ` set Q"
  using assms unfolding tracks_def prod.case by blast+

lemma tracksI:
  assumes "dom K \<subseteq> peelable eqs" and "fst ` set Q \<subseteq> peelable eqs"
    and "\<And>f S u. p f = Some (S, u) \<Longrightarrow> 2 \<le> card S \<and> (\<exists>E \<in> eqs. S = E - dom K)"
    and "\<And>E. E \<in> eqs \<Longrightarrow> (\<exists>f u. p f = Some (E - dom K, u)) \<or> E \<subseteq> dom K \<union> fst ` set Q"
  shows "tracks eqs (K, p, Q)"
proof -
  have "\<forall>f S u. p f = Some (S, u) \<longrightarrow> 2 \<le> card S \<and> (\<exists>E \<in> eqs. S = E - dom K)"
    by (intro allI impI assms(3))
  moreover have "\<forall>E \<in> eqs. (\<exists>f u. p f = Some (E - dom K, u)) \<or> E \<subseteq> dom K \<union> fst ` set Q"
    by (intro ballI assms(4))
  ultimately show ?thesis using assms(1,2) unfolding tracks_def prod.case by (intro conjI)
qed

lemma tracks_peel: "peel s t \<Longrightarrow> tracks eqs s \<Longrightarrow> tracks eqs t"
proof (induction rule: peel.induct)
  case (skip b K p v Q)
  note t = tracksD [OF skip.prems, unfolded list.set image_insert fst_conv]
  show ?case
  proof (rule tracksI)
    show "dom K \<subseteq> peelable eqs" by (rule t(1))
    show "fst ` set Q \<subseteq> peelable eqs" using t(2) by blast
    show "2 \<le> card S \<and> (\<exists>E \<in> eqs. S = E - dom K)" if "p f = Some (S, u)" for f S u
      using t(3) [OF that] .
    show "(\<exists>f u. p f = Some (E - dom K, u)) \<or> E \<subseteq> dom K \<union> fst ` set Q" if "E \<in> eqs" for E
      using t(4) [OF that] skip.hyps by blast
  qed
next
  case (take b K Q' Q v p)
  let ?K = "K(b \<mapsto> v)"
  have dom: "dom ?K = insert b (dom K)" by simp
  note t = tracksD [OF take.prems, unfolded list.set image_insert fst_conv]
  have queue: "fst ` set Q' \<subseteq> peelable eqs"
  proof -
    have "r \<in> peelable eqs" if "(r, u) \<in> releases b v p" for r u
    proof -
      from that obtain f S u0 where r: "p f = Some (S, u0)" "b \<in> S" "S - {b} = {r}"
        unfolding releases_def by blast
      then obtain E where E: "E \<in> eqs" "S = E - dom K" using t(3) by blast
      have "x \<in> peelable eqs" if "x \<in> E" "x \<noteq> r" for x
      proof (cases "x \<in> dom K")
        case True
        then show ?thesis using t(1) by blast
      next
        case False
        then have "x = b" using that E(2) r(3) by blast
        then show ?thesis using t(2) by blast
      qed
      moreover have "r \<in> E" using r(3) E(2) by blast
      ultimately show ?thesis using E(1) peelable.intros by blast
    qed
    then show ?thesis using t(2) take.hyps(2) by auto
  qed
  have pend: "2 \<le> card S \<and> (\<exists>E \<in> eqs. S = E - dom ?K)" if "absorb b v p f = Some (S, u)" for f S u
  proof -
    from absorb_SomeD [OF that] obtain S0 u0 where p: "p f = Some (S0, u0)" by blast
    then obtain E where E: "E \<in> eqs" "S0 = E - dom K" "2 \<le> card S0" using t(3) by blast
    show ?thesis
    proof (cases "b \<in> S0")
      case True
      then have "2 \<le> card S" "S = S0 - {b}" using that p by (auto simp: absorb_def cancel_def split: if_splits)
      then show ?thesis using E unfolding dom by blast
    next
      case False
      then have "S = S0" using that p by (simp add: absorb_def cancel_def)
      moreover have "E - dom K = E - dom ?K" using False E(2) unfolding dom by blast
      ultimately show ?thesis using E by metis
    qed
  qed
  have cover: "(\<exists>f u. absorb b v p f = Some (E - dom ?K, u)) \<or> E \<subseteq> dom ?K \<union> fst ` set Q'" if "E \<in> eqs" for E
  proof (cases "\<exists>f u. p f = Some (E - dom K, u)")
    case True
    then obtain f u where p: "p f = Some (E - dom K, u)" by blast
    show ?thesis
    proof (cases "b \<in> E - dom K")
      case out: False
      then have "E - dom ?K = E - dom K" unfolding dom by blast
      then have "absorb b v p f = Some (E - dom ?K, u)" using p out by (simp add: absorb_def cancel_def)
      then show ?thesis by blast
    next
      case inE: True
      have less: "E - dom ?K = (E - dom K) - {b}" unfolding dom by blast
      show ?thesis
      proof (cases "2 \<le> card (E - dom ?K)")
        case True
        then have "absorb b v p f = Some (E - dom ?K, xor_words u v)"
          using p inE unfolding less by (simp add: absorb_def cancel_def)
        then show ?thesis by blast
      next
        case False
        have "2 \<le> card (E - dom K)" using t(3) [OF p] by blast
        moreover have "card (E - dom ?K) = card (E - dom K) - 1"
          unfolding less using inE by (rule card_Diff_singleton)
        ultimately have "card (E - dom ?K) = 1" using False by linarith
        then obtain r where r: "E - dom ?K = {r}" by (auto simp: card_1_singleton_iff)
        then have "(r, xor_words u v) \<in> releases b v p" using p inE unfolding less releases_def by blast
        then have "(r, xor_words u v) \<in> set Q'" using take.hyps(2) by blast
        then have "r \<in> fst ` set Q'" by force
        then show ?thesis using r by blast
      qed
    qed
  next
    case False
    then have "E \<subseteq> dom K \<union> insert b (fst ` set Q)" using t(4) [OF that] by blast
    then show ?thesis using take.hyps(2) unfolding dom by auto
  qed
  show ?case
  proof (rule tracksI)
    show "dom ?K \<subseteq> peelable eqs" using t(1,2) unfolding dom by blast
  qed (fact queue, fact pend, fact cover)
qed

lemma tracks_peels: "peel\<^sup>*\<^sup>* s t \<Longrightarrow> tracks eqs s \<Longrightarrow> tracks eqs t"
  by (induction rule: rtranclp_induct) (auto intro: tracks_peel)

text \<open>With an empty work list, nothing derivable is left unknown.\<close>

lemma tracks_complete: "tracks eqs (K, p, []) \<Longrightarrow> dom K = peelable eqs"
proof
  assume t: "tracks eqs (K, p, [])"
  then show "dom K \<subseteq> peelable eqs" by (simp add: tracks_def)
  show "peelable eqs \<subseteq> dom K"
  proof
    fix r assume "r \<in> peelable eqs"
    then show "r \<in> dom K"
    proof (induction rule: peelable.induct)
      case (1 E r)
      have "\<not> (\<exists>f u. p f = Some (E - dom K, u))"
      proof
        assume "\<exists>f u. p f = Some (E - dom K, u)"
        then have "2 \<le> card (E - dom K)" using tracksD(3) [OF t] by blast
        moreover have "E - dom K \<subseteq> {r}" using 1 by blast
        ultimately show False using card_mono [of "{r}" "E - dom K"] by simp
      qed
      then have "E \<subseteq> dom K" using t 1 by (auto simp: tracks_def)
      then show ?case using 1 by blast
    qed
  qed
qed

text \<open>Adding an equation to a quiescent state.\<close>

lemma tracks_more: "tracks eqs (K, p, []) \<Longrightarrow> E \<subseteq> dom K \<Longrightarrow> tracks (insert E eqs) (K, p, [])"
  using peelable_mono [of eqs "insert E eqs"] unfolding tracks_def by auto

lemma tracks_pend:
  assumes "tracks eqs (K, p, [])" and "2 \<le> card (E - dom K)" and "p f = None"
  shows "tracks (insert E eqs) (K, p(f \<mapsto> (E - dom K, u)), [])"
proof -
  have "dom K \<subseteq> peelable (insert E eqs)"
    using assms(1) peelable_mono [of eqs "insert E eqs"] by (auto simp: tracks_def)
  moreover have "(\<exists>g v. (p(f \<mapsto> (E - dom K, u))) g = Some (F - dom K, v)) \<or> F \<subseteq> dom K"
    if F: "F \<in> insert E eqs" for F
  proof (cases "F = E")
    case True
    then show ?thesis by auto
  next
    case False
    then have "(\<exists>g v. p g = Some (F - dom K, v)) \<or> F \<subseteq> dom K" using assms(1) F by (auto simp: tracks_def)
    then show ?thesis using assms(3) by (metis fun_upd_other option.distinct(1))
  qed
  moreover have "2 \<le> card S \<and> (\<exists>F \<in> insert E eqs. S = F - dom K)"
    if "(p(f \<mapsto> (E - dom K, u))) g = Some (S, v)" for g S v
  proof (cases "g = f")
    case True
    then show ?thesis using that assms(2) by auto
  next
    case False
    then have "p g = Some (S, v)" using that by simp
    from tracksD(3) [OF assms(1) this] show ?thesis by blast
  qed
  ultimately show ?thesis by (intro tracksI) simp_all
qed

lemma tracks_start:
  assumes "tracks eqs (K, p, [])" and "E - dom K = {b}"
  shows "tracks (insert E eqs) (K, p, [(b, v)])"
proof -
  have known: "dom K \<subseteq> peelable (insert E eqs)"
    using assms(1) peelable_mono [of eqs "insert E eqs"] by (auto simp: tracks_def)
  have "b \<in> peelable (insert E eqs)"
    by (rule peelable.intros [of E]) (use assms(2) known in auto)
  then show ?thesis using assms known unfolding tracks_def by auto
qed

end
