(* ===== verification/Cascade.thy ===== *)
theory Cascade
  imports Decoder Peeling
begin

text \<open>
  The decoder's cascade implements abstract peeling. The first part treats the arena as a map from
  aligned offsets to slots. The second states the structural invariant of the decoder, with the
  frames that a solved block has yet to wake; the third abstracts a decoder and its work list to a
  state of \<open>Peeling\<close> and shows that \<open>wake\<close> and \<open>resolve_loop\<close> never panic, always return, keep
  the invariant and make abstract peeling steps.
\<close>

section \<open>The arena as slots\<close>

definition slot_at :: "usize \<Rightarrow> u32 list \<Rightarrow> usize \<Rightarrow> val" where
  "slot_at w arena off = take w (drop off arena)"

definition aligned :: "usize \<Rightarrow> u32 list \<Rightarrow> usize \<Rightarrow> bool" where
  "aligned w arena off \<longleftrightarrow> w dvd off \<and> off + w \<le> length arena"

definition put_at :: "usize \<Rightarrow> u32 list \<Rightarrow> usize \<Rightarrow> val \<Rightarrow> u32 list" where
  "put_at w arena off v = take off arena @ v @ drop (off + w) arena"

lemma length_slot_at [simp]: "aligned w arena off \<Longrightarrow> length (slot_at w arena off) = w"
  by (auto simp: aligned_def slot_at_def)

lemma length_put_at [simp]: "aligned w arena off \<Longrightarrow> length v = w \<Longrightarrow> length (put_at w arena off v) = length arena"
  by (simp add: aligned_def put_at_def)

lemma aligned_put_at [simp]: "aligned w arena a \<Longrightarrow> length v = w \<Longrightarrow> aligned w (put_at w arena a v) b = aligned w arena b"
  by (simp add: aligned_def put_at_def)

lemma aligned_gap:
  assumes "aligned w arena a" and "aligned w arena b" and "a < b"
  shows "a + w \<le> b"
proof -
  obtain i j where "a = w * i" "b = w * j" using assms(1,2) unfolding aligned_def by (auto elim!: dvdE)
  moreover from this assms(3) have "i < j" by simp
  then have "w * Suc i \<le> w * j" by (intro mult_le_mono2) simp
  ultimately show ?thesis by simp
qed

lemma slot_put_same: "aligned w arena a \<Longrightarrow> length v = w \<Longrightarrow> slot_at w (put_at w arena a v) a = v"
  by (simp add: aligned_def slot_at_def put_at_def)

lemma slot_put_other:
  assumes "aligned w arena a" and "aligned w arena b" and "a \<noteq> b" and "length v = w"
  shows "slot_at w (put_at w arena a v) b = slot_at w arena b"
proof (cases "a < b")
  case True
  then have g: "a + w \<le> b" using aligned_gap assms by blast
  have "length (take a arena) = a" using assms(1) by (simp add: aligned_def)
  then have "drop b (put_at w arena a v) = drop (b - (a + w)) (drop (a + w) arena)"
    using g assms(4) by (simp add: put_at_def)
  then show ?thesis using g by (simp add: slot_at_def)
next
  case False
  then have g: "b + w \<le> a" using aligned_gap assms by (meson linorder_neqE_nat)
  then have "take w (drop b (put_at w arena a v)) = take w (drop b (take a arena))"
    using assms(1) by (simp add: put_at_def aligned_def)
  also have "\<dots> = take w (drop b arena)" using g by (simp add: drop_take)
  finally show ?thesis by (simp add: slot_at_def)
qed

lemma put_at_slots:
  assumes "aligned w arena a" and "length v = w" and "aligned w arena b"
  shows "slot_at w (put_at w arena a v) b = (if b = a then v else slot_at w arena b)"
  using assms slot_put_same slot_put_other by metis

lemma xor_at_spec:
  assumes "aligned w arena a" and "aligned w arena b" and "a \<noteq> b"
  shows "xor_at P arena a b w = Some (put_at w arena a (xor_words (slot_at w arena a) (slot_at w arena b)))"
proof (cases "a < b")
  case True
  then have g: "a + w \<le> b" using aligned_gap assms by blast
  have len: "a + w \<le> length arena" "b + w \<le> length arena" using assms by (simp_all add: aligned_def)
  let ?v = "xor_words (slot_at w arena a) (slot_at w arena b)"
  have v: "length ?v = w" using assms by simp
  have "slice (take b arena) a (a + w) = Some (slot_at w arena a)"
    using g len by (simp add: slice_def slot_at_def drop_take)
  moreover have "slice (drop b arena) 0 w = Some (slot_at w arena b)"
    using len by (simp add: slice_def slot_at_def)
  moreover have "splice (take b arena) a ?v = Some (take a arena @ ?v @ drop (a + w) (take b arena))"
    using g len v by (simp add: splice_def min_def)
  moreover have "drop (a + w) (take b arena) @ drop b arena = drop (a + w) arena"
    using g append_take_drop_id [of "b - (a + w)" "drop (a + w) arena"] by (simp add: drop_take)
  ultimately show ?thesis using True g len assms v
    by (simp add: xor_at_def Let_def put_at_def)
next
  case False
  then have lt: "b < a" using assms(3) by simp
  then have g: "b + w \<le> a" using aligned_gap assms by blast
  have len: "a + w \<le> length arena" "b + w \<le> length arena" using assms by (simp_all add: aligned_def)
  let ?v = "xor_words (slot_at w arena a) (slot_at w arena b)"
  have v: "length ?v = w" using assms by simp
  have "slice (take a arena) b (b + w) = Some (slot_at w arena b)"
    using g len by (simp add: slice_def slot_at_def drop_take)
  moreover have "slice (drop a arena) 0 w = Some (slot_at w arena a)"
    using len by (simp add: slice_def slot_at_def)
  moreover have "splice (drop a arena) 0 ?v = Some (?v @ drop (a + w) arena)"
    using len v by (simp add: splice_def add.commute)
  ultimately show ?thesis using lt len assms v
    by (simp add: xor_at_def Let_def put_at_def)
qed

section \<open>The structural invariant\<close>

definition static_ok :: "lt_decoder \<Rightarrow> bool" where
  "static_ok d \<longleftrightarrow> 0 < ld_k d \<and> ld_k d \<le> MAX_SOURCE_BLOCKS \<and> 0 < ld_block_len d \<and> ld_block_len d \<le> 0xffff \<and>
     0 < ld_total_len d \<and> ld_total_len d \<le> MAX_STREAM_BYTES \<and>
     ld_k d = div_ceil (ld_total_len d) (ld_block_len d) \<and> ld_words d = div_ceil (ld_block_len d) 4 \<and>
     degree_cdf_ok (ld_cdf d) \<and> cdf_good (dc_cdf (ld_cdf d)) \<and> degree_cdf_k (ld_cdf d) = ld_k d \<and>
     ld_sys_span d \<le> ld_k d \<and>
     ld_max_arena_words d = 4 * (ld_k d * ld_words d) \<and> ld_max_pending_edges d = 64 * ld_k d"

definition solved_off :: "lt_decoder \<Rightarrow> nat \<Rightarrow> usize option" where
  "solved_off d b = (if b < length (ld_solved d) then ld_solved d ! b else None)"

definition live :: "lt_decoder \<Rightarrow> nat \<Rightarrow> bool" where
  "live d f \<longleftrightarrow> f < length (ld_frames d) \<and> pf_active (ld_frames d ! f)"

definition elems_of :: "lt_decoder \<Rightarrow> nat \<Rightarrow> nat set" where
  "elems_of d f = bs_elems (pf_idx (ld_frames d ! f))"

definition off_of :: "lt_decoder \<Rightarrow> nat \<Rightarrow> usize" where
  "off_of d f = pf_off (ld_frames d ! f)"

text \<open>Who owns a slot: a solved block, a live equation or an entry of the work list. No two owners
  share one.\<close>

datatype owner = Block nat | Equation nat | Work nat

fun owner_off :: "lt_decoder \<Rightarrow> (u32 \<times> usize) list \<Rightarrow> owner \<Rightarrow> usize option" where
  "owner_off d q (Block b) = solved_off d b"
| "owner_off d q (Equation f) = (if live d f then Some (off_of d f) else None)"
| "owner_off d q (Work i) = (if i < length q then Some (snd (q ! (length q - 1 - i))) else None)"

definition owners_ok :: "lt_decoder \<Rightarrow> (u32 \<times> usize) list \<Rightarrow> bool" where
  "owners_ok d q \<longleftrightarrow>
     (\<forall>x off. owner_off d q x = Some off \<longrightarrow> aligned (ld_words d) (ld_arena d) off) \<and>
     (\<forall>x y off. owner_off d q x = Some off \<and> owner_off d q y = Some off \<longrightarrow> x = y)"

text \<open>\<open>pend_ok b ids d\<close>: block \<open>b\<close> is solved and the frames of \<open>ids\<close> have yet to hear of it. With
  an empty list this is the invariant between two cascades.\<close>

definition pend_ok :: "nat \<Rightarrow> nat list \<Rightarrow> lt_decoder \<Rightarrow> bool" where
  "pend_ok b ids d \<longleftrightarrow> distinct ids \<and> (\<forall>f \<in> set ids. f < length (ld_frames d)) \<and>
     (ids \<noteq> [] \<longrightarrow> solved_off d b \<noteq> None) \<and>
     (\<forall>f. live d f \<longrightarrow> bs_ok (ld_k d) (pf_idx (ld_frames d ! f)) \<and> 2 \<le> card (elems_of d f) \<and>
        (f \<in> set ids \<longrightarrow> b \<in> elems_of d f) \<and>
        (\<forall>c \<in> elems_of d f. c = b \<and> f \<in> set ids \<or>
           solved_off d c = None \<and> f \<in> set (ld_by_block d ! c))) \<and>
     (\<forall>c < ld_k d. distinct (ld_by_block d ! c) \<and> (solved_off d c \<noteq> None \<longrightarrow> ld_by_block d ! c = []) \<and>
        (\<forall>f \<in> set (ld_by_block d ! c). f < length (ld_frames d) \<and> (live d f \<longrightarrow> c \<in> elems_of d f)))"

definition dec_ok :: "nat \<Rightarrow> nat list \<Rightarrow> lt_decoder \<Rightarrow> (u32 \<times> usize) list \<Rightarrow> bool" where
  "dec_ok b ids d q \<longleftrightarrow> static_ok d \<and> length (ld_solved d) = ld_k d \<and> length (ld_by_block d) = ld_k d \<and>
     ld_solved_count d = card {c. solved_off d c \<noteq> None} \<and> set_ok (ld_seen d) \<and>
     owners_ok d q \<and> pend_ok b ids d \<and> (\<forall>(r, off) \<in> set q. unat r < ld_k d)"

section \<open>Abstraction\<close>

definition known :: "lt_decoder \<Rightarrow> nat \<Rightarrow> val option" where
  "known d b = map_option (slot_at (ld_words d) (ld_arena d)) (solved_off d b)"

definition pending_of :: "lt_decoder \<Rightarrow> pending" where
  "pending_of d f = (if live d f then Some (elems_of d f, slot_at (ld_words d) (ld_arena d) (off_of d f)) else None)"

definition work_of :: "lt_decoder \<Rightarrow> (u32 \<times> usize) list \<Rightarrow> (nat \<times> val) list" where
  "work_of d q = map (\<lambda>(r, off). (unat r, slot_at (ld_words d) (ld_arena d) off)) q"

definition peel_of :: "lt_decoder \<Rightarrow> (u32 \<times> usize) list \<Rightarrow> peel_state" where
  "peel_of d q = (known d, pending_of d, work_of d q)"

lemma owner_slot:
  "owners_ok d q \<Longrightarrow> owner_off d q x = Some off \<Longrightarrow> aligned (ld_words d) (ld_arena d) off"
  by (simp add: owners_ok_def)

lemma owner_inj:
  "owners_ok d q \<Longrightarrow> owner_off d q x = Some off \<Longrightarrow> owner_off d q y = Some off \<Longrightarrow> x = y"
  unfolding owners_ok_def by blast

lemma work_owner: "i < length q \<Longrightarrow> owner_off d q (Work (length q - 1 - i)) = Some (snd (q ! i))"
  by auto

lemma words_pos: "static_ok d \<Longrightarrow> 0 < ld_words d"
  by (simp add: static_ok_def div_ceil_pos)

section \<open>Waking one equation\<close>

definition with_frame :: "lt_decoder \<Rightarrow> nat \<Rightarrow> u32 list \<Rightarrow> pending_frame \<Rightarrow> lt_decoder" where
  "with_frame d f arena fr = d\<lparr>ld_arena := arena, ld_frames := (ld_frames d)[f := fr]\<rparr>"

lemma with_frame_fields [simp]:
  "ld_arena (with_frame d f arena fr) = arena" "ld_words (with_frame d f arena fr) = ld_words d"
  "ld_k (with_frame d f arena fr) = ld_k d" "ld_by_block (with_frame d f arena fr) = ld_by_block d"
  "ld_solved (with_frame d f arena fr) = ld_solved d" "ld_seen (with_frame d f arena fr) = ld_seen d"
  "ld_solved_count (with_frame d f arena fr) = ld_solved_count d"
  "length (ld_frames (with_frame d f arena fr)) = length (ld_frames d)"
  "solved_off (with_frame d f arena fr) = solved_off d" "static_ok (with_frame d f arena fr) = static_ok d"
  by (simp_all add: with_frame_def solved_off_def fun_eq_iff static_ok_def)

lemma with_frame_views:
  assumes "f < length (ld_frames d)"
  shows "live (with_frame d f arena fr) g = (if g = f then pf_active fr else live d g)"
    and "elems_of (with_frame d f arena fr) g = (if g = f then bs_elems (pf_idx fr) else elems_of d g)"
    and "off_of (with_frame d f arena fr) g = (if g = f then pf_off fr else off_of d g)"
    and "ld_frames (with_frame d f arena fr) ! g = (if g = f then fr else ld_frames d ! g)"
  using assms by (auto simp: live_def elems_of_def off_of_def with_frame_def)

lemma with_frame_owners:
  assumes f: "f < length (ld_frames d)" and own: "owners_ok d q" and v: "length v = ld_words d"
    and off: "owner_off d q (Equation f) = Some off"
    and q': "q' = q \<and> pf_active fr \<or> q' = (r, off) # q \<and> \<not> pf_active fr" and fr: "pf_off fr = off"
  shows "owners_ok (with_frame d f (put_at (ld_words d) (ld_arena d) off v) fr) q'"
proof -
  let ?d = "with_frame d f (put_at (ld_words d) (ld_arena d) off v) fr"
  have al: "aligned (ld_words d) (ld_arena d) off" using owner_slot [OF own off] .
  text \<open>Each owner of the new state held its slot before, the new work entry through the equation.\<close>
  define was where "was x = (if q' = (r, off) # q \<and> \<not> pf_active fr \<and> x = Work (length q) then Equation f else x)" for x
  have old: "owner_off d q (was x) = Some o'" if "owner_off ?d q' x = Some o'" for x o'
  proof (cases x)
    case (Block b)
    then show ?thesis using that by (simp add: was_def)
  next
    case (Equation g)
    then show ?thesis using that off fr by (auto simp: was_def with_frame_views [OF f] split: if_splits)
  next
    case (Work i)
    then show ?thesis using that q' off
      by (auto simp: was_def nth_Cons' less_Suc_eq split: if_splits)
  qed
  have dead: "owner_off ?d q' (Equation f) = None" if "\<not> pf_active fr"
    using that by (simp add: with_frame_views [OF f])
  have inj: "x = y" if "was x = was y" "owner_off ?d q' x = Some o'" "owner_off ?d q' y = Some o'" for x y o'
    using that dead by (auto simp: was_def split: if_splits)
  have "x = y" if "owner_off ?d q' x = Some o'" "owner_off ?d q' y = Some o'" for x y o'
    using inj [OF _ that] owner_inj [OF own old [OF that(1)] old [OF that(2)]] by blast
  moreover have "aligned (ld_words ?d) (ld_arena ?d) o'" if "owner_off ?d q' x = Some o'" for x o'
    using owner_slot [OF own old [OF that]] al v by simp
  ultimately show ?thesis unfolding owners_ok_def by blast
qed

lemma with_frame_slots:
  assumes own: "owners_ok d q" and v: "length v = ld_words d"
    and off: "owner_off d q (Equation f) = Some off" and x: "owner_off d q x = Some o'"
  shows "slot_at (ld_words d) (put_at (ld_words d) (ld_arena d) off v) o' =
    (if x = Equation f then v else slot_at (ld_words d) (ld_arena d) o')"
proof -
  have "o' = off \<longleftrightarrow> x = Equation f" using owner_inj [OF own off] off x by auto
  then show ?thesis
    using put_at_slots [OF owner_slot [OF own off] v owner_slot [OF own x]] by simp
qed

lemma with_frame_pend:
  assumes ok: "pend_ok b (f # ids) d" and lv: "live d f" and by_b: "solved_off d b \<noteq> None"
    and idx: "bs_ok (ld_k d) (pf_idx fr)" "bs_elems (pf_idx fr) = elems_of d f - {b}"
    and act: "pf_active fr \<longrightarrow> 2 \<le> card (elems_of d f - {b})"
    and k: "\<forall>c \<in> elems_of d f. c < ld_k d"
  shows "pend_ok b ids (with_frame d f arena fr)"
proof -
  let ?d = "with_frame d f arena fr"
  have f: "f < length (ld_frames d)" using lv by (simp add: live_def)
  have p: "distinct (f # ids)" "\<forall>g \<in> set (f # ids). g < length (ld_frames d)"
    "\<And>g. live d g \<Longrightarrow> bs_ok (ld_k d) (pf_idx (ld_frames d ! g)) \<and> 2 \<le> card (elems_of d g) \<and>
        (g \<in> set (f # ids) \<longrightarrow> b \<in> elems_of d g) \<and>
        (\<forall>c \<in> elems_of d g. c = b \<and> g \<in> set (f # ids) \<or>
           solved_off d c = None \<and> g \<in> set (ld_by_block d ! c))"
    "\<And>c. c < ld_k d \<Longrightarrow> distinct (ld_by_block d ! c) \<and> (solved_off d c \<noteq> None \<longrightarrow> ld_by_block d ! c = []) \<and>
        (\<forall>g \<in> set (ld_by_block d ! c). g < length (ld_frames d) \<and> (live d g \<longrightarrow> c \<in> elems_of d g))"
    using ok unfolding pend_ok_def by blast+
  note views = with_frame_views [OF f, of arena fr]
  have live: "bs_ok (ld_k d) (pf_idx (ld_frames ?d ! g)) \<and> 2 \<le> card (elems_of ?d g) \<and>
        (g \<in> set ids \<longrightarrow> b \<in> elems_of ?d g) \<and>
        (\<forall>c \<in> elems_of ?d g. c = b \<and> g \<in> set ids \<or> solved_off d c = None \<and> g \<in> set (ld_by_block d ! c))"
    if "live ?d g" for g
  proof (cases "g = f")
    case True
    then show ?thesis using that p(1) p(3) [OF lv] idx act by (auto simp: views)
  next
    case False
    then have "live d g" using that by (simp add: views)
    then show ?thesis using p(3) [of g] False by (simp add: views)
  qed
  have lists: "distinct (ld_by_block d ! c) \<and> (solved_off d c \<noteq> None \<longrightarrow> ld_by_block d ! c = []) \<and>
        (\<forall>g \<in> set (ld_by_block d ! c). g < length (ld_frames d) \<and> (live ?d g \<longrightarrow> c \<in> elems_of ?d g))"
    if c: "c < ld_k d" for c
  proof -
    have "c \<noteq> b" if "f \<in> set (ld_by_block d ! c)"
      using that p(4) [OF c] by_b by auto
    then show ?thesis using p(4) [OF c] idx(2) lv by (auto simp: views)
  qed
  show ?thesis using p(1,2) by_b live lists unfolding pend_ok_def by simp
qed

definition cascaded :: "lt_decoder \<Rightarrow> lt_decoder \<Rightarrow> bool" where
  "cascaded d d' \<longleftrightarrow>
     d' = d\<lparr>ld_solved := ld_solved d', ld_solved_count := ld_solved_count d', ld_frames := ld_frames d',
       ld_by_block := ld_by_block d', ld_arena := ld_arena d'\<rparr> \<and>
     length (ld_arena d') = length (ld_arena d) \<and> length (ld_frames d') = length (ld_frames d)"

lemma cascaded_refl [simp]: "cascaded d d"
  by (simp add: cascaded_def)

lemma cascaded_trans: "cascaded d d' \<Longrightarrow> cascaded d' d'' \<Longrightarrow> cascaded d d''"
  by (cases d, cases d', cases d'') (simp add: cascaded_def)

lemma pend_live:
  assumes "dec_ok b ids d q" and "live d f"
  shows "f < length (ld_frames d)" and "bs_ok (ld_k d) (pf_idx (ld_frames d ! f))" and "2 \<le> card (elems_of d f)"
    and "f \<in> set ids \<Longrightarrow> b \<in> elems_of d f" and "\<forall>c \<in> elems_of d f. c < ld_k d"
    and "c \<in> elems_of d f \<Longrightarrow> c = b \<and> f \<in> set ids \<or> solved_off d c = None \<and> f \<in> set (ld_by_block d ! c)"
proof -
  have p: "pend_ok b ids d" using assms(1) by (simp add: dec_ok_def)
  show "f < length (ld_frames d)" using assms(2) by (simp add: live_def)
  show ok: "bs_ok (ld_k d) (pf_idx (ld_frames d ! f))" and "2 \<le> card (elems_of d f)"
    and "f \<in> set ids \<Longrightarrow> b \<in> elems_of d f"
    and "c \<in> elems_of d f \<Longrightarrow> c = b \<and> f \<in> set ids \<or> solved_off d c = None \<and> f \<in> set (ld_by_block d ! c)"
    using p assms(2) unfolding pend_ok_def by blast+
  show "\<forall>c \<in> elems_of d f. c < ld_k d" using bs_elems_finite [OF ok] unfolding elems_of_def by blast
qed

lemma listed_elem:
  assumes "dec_ok b ids d q" and "c < ld_k d" and "f \<in> set (ld_by_block d ! c)" and "live d f"
  shows "c \<in> elems_of d f"
proof -
  have "pend_ok b ids d" using assms(1) by (simp add: dec_ok_def)
  then show ?thesis using assms(2-4) unfolding pend_ok_def by blast
qed

lemma elems_solved:
  assumes "dec_ok b ids d q" and "solved_off d c \<noteq> None" and "live d f" and "c \<in> elems_of d f"
  shows "c = b" and "f \<in> set ids"
  using pend_live(6) [OF assms(1,3,4)] assms(2) by auto

lemma dec_small: "dec_ok b ids d q \<Longrightarrow> ld_k d < 2 ^ 32"
  using small_k by (simp add: dec_ok_def static_ok_def)

definition handed_on :: "nat \<Rightarrow> val \<Rightarrow> (nat set \<times> val) option \<Rightarrow> (nat \<times> val) set" where
  "handed_on b v eqn = {(r, xor_words u v) | r u. \<exists>S. eqn = Some (S, u) \<and> S - {b} = {r}}"

lemma settle_spec:
  assumes ok: "dec_ok b (f # ids) d q" and lv: "live d f"
    and idx: "bs_ok (ld_k d) idx" "bs_elems idx = elems_of d f - {b}"
  shows "\<exists>fr q' r. settle d ((ld_frames d ! f)\<lparr>pf_idx := idx\<rparr>) q = Some (fr, q') \<and>
    pf_idx fr = idx \<and> pf_off fr = off_of d f \<and>
    (if 2 \<le> card (elems_of d f - {b}) then pf_active fr \<and> q' = q
     else \<not> pf_active fr \<and> q' = (r, off_of d f) # q \<and> elems_of d f - {b} = {unat r})"
proof -
  note l = pend_live [OF ok lv]
  have b: "b \<in> elems_of d f" using l(4) by simp
  have fin: "finite (elems_of d f)" using bs_elems_finite [OF l(2)] by (simp add: elems_of_def)
  have "card (elems_of d f - {b}) = card (elems_of d f) - 1" using b by (rule card_Diff_singleton)
  then have pos: "1 \<le> card (elems_of d f - {b})" using l(3) by simp
  have len: "bs_len idx = card (elems_of d f - {b})" using bs_len_card [OF idx(1)] idx(2) by simp
  let ?fr = "(ld_frames d ! f)\<lparr>pf_idx := idx\<rparr>"
  show ?thesis
  proof (cases "2 \<le> card (elems_of d f - {b})")
    case True
    then show ?thesis using len lv by (simp add: settle_def off_of_def live_def)
  next
    case False
    then have one: "bs_len idx = 1" using len pos by simp
    then obtain n where n: "elems_of d f - {b} = {n}" using len by (auto simp: card_1_singleton_iff)
    have "bs_elems idx = {n}" using idx(2) n by simp
    from bs_single_spec [OF idx(1) this dec_small [OF ok]] obtain r where r: "bs_single idx = Some r" "unat r = n"
      by blast
    have mem: "n \<in> elems_of d f" "n \<noteq> b" using n by blast+
    then have "solved_off d n = None" "n < ld_k d" using l(5) l(6) [OF mem(1)] by auto
    moreover have "length (ld_solved d) = ld_k d" using ok by (simp add: dec_ok_def)
    ultimately have "get_at (ld_solved d) (unat r) = Some None" using r(2) by (simp add: get_at_def solved_off_def)
    then show ?thesis using False one r n
      by (intro exI [of _ "?fr\<lparr>pf_active := False\<rparr>"] exI [of _ "(r, off_of d f) # q"] exI [of _ r])
        (simp add: settle_def off_of_def)
  qed
qed

lemma wake_step:
  assumes ok: "dec_ok (unat B) (f # ids) d q" and v: "known d (unat B) = Some v"
  shows "\<exists>d' q'. (\<forall>rest. wake P B (f # rest) d q = wake P B rest d' q') \<and> dec_ok (unat B) ids d' q' \<and>
    cascaded d d' \<and> known d' = known d \<and>
    pending_of d' = (pending_of d)(f := Option.bind (pending_of d f) (cancel (unat B) v)) \<and>
    set (work_of d' q') = set (work_of d q) \<union> handed_on (unat B) v (pending_of d f)"
proof -
  let ?b = "unat B"
  have own: "owners_ok d q" and pend: "pend_ok ?b (f # ids) d" using ok by (simp_all add: dec_ok_def)
  have f: "f < length (ld_frames d)" using pend by (simp add: pend_ok_def)
  obtain so where so: "solved_off d ?b = Some so" "v = slot_at (ld_words d) (ld_arena d) so"
    using v by (auto simp: known_def)
  have bk: "?b < length (ld_solved d)" "ld_solved d ! ?b = Some so"
    using so(1) by (auto simp: solved_off_def split: if_splits)
  show ?thesis
  proof (cases "live d f")
    case False
    then have "pf_active (ld_frames d ! f) = False" using f by (simp add: live_def)
    then have "wake P B (f # rest) d q = wake P B rest d q" for rest using f by (simp add: get_at_in)
    moreover have "pend_ok ?b ids d"
    proof -
      have "bs_ok (ld_k d) (pf_idx (ld_frames d ! g)) \<and> 2 \<le> card (elems_of d g) \<and>
          (g \<in> set ids \<longrightarrow> ?b \<in> elems_of d g) \<and>
          (\<forall>c \<in> elems_of d g. c = ?b \<and> g \<in> set ids \<or> solved_off d c = None \<and> g \<in> set (ld_by_block d ! c))"
        if g: "live d g" for g
      proof -
        have "g \<noteq> f" using g False by blast
        then show ?thesis using pend_live(2-4) [OF ok g] pend_live(6) [OF ok g] by auto
      qed
      then show ?thesis using pend so(1) unfolding pend_ok_def by simp
    qed
    ultimately show ?thesis using ok False
      by (intro exI [of _ d] exI [of _ q]) (auto simp: dec_ok_def pending_of_def handed_on_def fun_eq_iff)
  next
    case True
    note l = pend_live [OF ok True]
    have bin: "?b \<in> elems_of d f" using l(4) by simp
    have bk': "unat B < ld_k d" using l(5) bin by blast
    obtain idx where idx: "bs_remove (pf_idx (ld_frames d ! f)) B = Some idx" "bs_ok (ld_k d) idx"
      "bs_elems idx = elems_of d f - {?b}"
      using bs_remove_spec [OF l(2) bk'] by (auto simp: elems_of_def)
    obtain fr q' r where st: "settle d ((ld_frames d ! f)\<lparr>pf_idx := idx\<rparr>) q = Some (fr, q')"
      "pf_idx fr = idx" "pf_off fr = off_of d f"
      "if 2 \<le> card (elems_of d f - {?b}) then pf_active fr \<and> q' = q
       else \<not> pf_active fr \<and> q' = (r, off_of d f) # q \<and> elems_of d f - {?b} = {unat r}"
      using settle_spec [OF ok True idx(2,3)] by blast
    let ?u = "slot_at (ld_words d) (ld_arena d) (off_of d f)"
    let ?arena = "put_at (ld_words d) (ld_arena d) (off_of d f) (xor_words ?u v)"
    let ?d = "with_frame d f ?arena fr"
    have off: "owner_off d q (Equation f) = Some (off_of d f)" using True by simp
    have sol: "owner_off d q (Block ?b) = Some so" using so(1) by simp
    have ne: "off_of d f \<noteq> so"
    proof
      assume eq: "off_of d f = so"
      have "Equation f = Block ?b" by (rule owner_inj [OF own off]) (simp only: sol eq)
      then show False by simp
    qed
    have al: "aligned (ld_words d) (ld_arena d) (off_of d f)" "aligned (ld_words d) (ld_arena d) so"
      using owner_slot [OF own off] owner_slot [OF own sol] .
    have lv: "length (xor_words ?u v) = ld_words d" using al by (simp add: so(2))
    have xor: "xor_at P (ld_arena d) (off_of d f) so (ld_words d) = Some ?arena"
      using xor_at_spec [OF al ne] by (simp add: so(2))
    have run: "wake P B (f # rest) d q = wake P B rest ?d q'" for rest
    proof -
      have "get_at (ld_frames d) f = Some (ld_frames d ! f)" "pf_active (ld_frames d ! f)"
        using f True by (simp_all add: get_at_in live_def)
      then show ?thesis
        using bk xor idx(1) st(1) f by (simp add: get_at_in set_at_in off_of_def with_frame_def)
    qed
    have qs: "q' = q \<and> pf_active fr \<or> q' = (r, off_of d f) # q \<and> \<not> pf_active fr"
      using st(4) by (simp split: if_splits)
    have own': "owners_ok ?d q'" by (rule with_frame_owners [OF f own lv off qs st(3)])
    have pend': "pend_ok ?b ids ?d"
      by (rule with_frame_pend [OF pend True]) (use so(1) idx st l(5) in \<open>auto split: if_splits\<close>)
    have slots: "slot_at (ld_words d) ?arena o' =
        (if x = Equation f then xor_words ?u v else slot_at (ld_words d) (ld_arena d) o')"
      if "owner_off d q x = Some o'" for x o'
      by (rule with_frame_slots [OF own lv off that])
    have range: "\<forall>(r, off) \<in> set q'. unat r < ld_k d"
    proof -
      have "unat r < ld_k d" if "elems_of d f - {?b} = {unat r}" using that l(5) by blast
      then show ?thesis using ok st(4) by (auto simp: dec_ok_def split: if_splits)
    qed
    have ok': "dec_ok ?b ids ?d q'" using ok own' pend' range by (simp add: dec_ok_def)
    have known: "known ?d = known d"
    proof
      fix c
      show "known ?d c = known d c"
        using slots [of "Block c"] by (cases "solved_off d c") (simp_all add: known_def)
    qed
    have pending: "pending_of ?d = (pending_of d)(f := Option.bind (pending_of d f) (cancel ?b v))"
    proof
      fix g
      show "pending_of ?d g = ((pending_of d)(f := Option.bind (pending_of d f) (cancel ?b v))) g"
      proof (cases "g = f")
        case True
        then show ?thesis
          using \<open>live d f\<close> st idx(3) bin slots [OF off]
          by (auto simp: pending_of_def with_frame_views [OF f] cancel_def split: if_splits)
      next
        case False
        then show ?thesis using slots [of "Equation g"]
          by (simp add: pending_of_def with_frame_views [OF f])
      qed
    qed
    have work: "work_of ?d q = work_of d q"
    proof -
      have "slot_at (ld_words d) ?arena o' = slot_at (ld_words d) (ld_arena d) o'" if "(c, o') \<in> set q" for c o'
      proof -
        from that obtain i where "i < length q" "q ! i = (c, o')" unfolding in_set_conv_nth by blast
        then show ?thesis using slots [OF work_owner [of i q d]] by simp
      qed
      then show ?thesis by (auto simp: work_of_def)
    qed
    have "set (work_of ?d q') = set (work_of d q) \<union> handed_on ?b v (pending_of d f)"
    proof (cases "2 \<le> card (elems_of d f - {?b})")
      case many: True
      then have "q' = q" using st(4) by simp
      moreover have "elems_of d f - {?b} \<noteq> {c}" for c
      proof
        assume e: "elems_of d f - {?b} = {c}"
        show False using many unfolding e by simp
      qed
      ultimately show ?thesis using work True by (auto simp: handed_on_def pending_of_def)
    next
      case False
      then have r: "q' = (r, off_of d f) # q" "elems_of d f - {?b} = {unat r}" using st(4) by simp_all
      have "work_of ?d q' = (unat r, xor_words ?u v) # work_of d q"
        using work slots [OF off] unfolding r(1) by (simp add: work_of_def)
      moreover have "handed_on ?b v (pending_of d f) = {(unat r, xor_words ?u v)}"
        using True r(2) by (auto simp: handed_on_def pending_of_def)
      ultimately show ?thesis by simp
    qed
    moreover have "cascaded d ?d" using al lv by (simp add: cascaded_def with_frame_def)
    ultimately show ?thesis using ok' known pending
      by (intro exI [of _ ?d] exI [of _ q'] conjI allI run)
  qed
qed

section \<open>Waking every equation of a block\<close>

lemma wake_spec:
  assumes "dec_ok (unat B) ids d q" and "known d (unat B) = Some v"
  shows "\<exists>d' q'. wake P B ids d q = Some (d', q') \<and> dec_ok (unat B) [] d' q' \<and> cascaded d d' \<and>
    known d' = known d \<and>
    pending_of d' = (\<lambda>g. if g \<in> set ids then Option.bind (pending_of d g) (cancel (unat B) v) else pending_of d g) \<and>
    set (work_of d' q') = set (work_of d q) \<union> (\<Union>g \<in> set ids. handed_on (unat B) v (pending_of d g))"
  using assms
proof (induction ids arbitrary: d q)
  case Nil
  then show ?case by (intro exI [of _ d] exI [of _ q]) simp
next
  case (Cons f ids)
  have fresh: "f \<notin> set ids" using Cons.prems(1) by (simp add: dec_ok_def pend_ok_def)
  from wake_step [OF Cons.prems] obtain d1 q1 where one:
    "\<And>rest. wake P B (f # rest) d q = wake P B rest d1 q1" "dec_ok (unat B) ids d1 q1" "cascaded d d1"
    "known d1 = known d" "pending_of d1 = (pending_of d)(f := Option.bind (pending_of d f) (cancel (unat B) v))"
    "set (work_of d1 q1) = set (work_of d q) \<union> handed_on (unat B) v (pending_of d f)" by blast
  have "known d1 (unat B) = Some v" using one(4) Cons.prems(2) by simp
  from Cons.IH [OF one(2) this] obtain d' q' where rest:
    "wake P B ids d1 q1 = Some (d', q')" "dec_ok (unat B) [] d' q'" "cascaded d1 d'" "known d' = known d1"
    "pending_of d' = (\<lambda>g. if g \<in> set ids then Option.bind (pending_of d1 g) (cancel (unat B) v) else pending_of d1 g)"
    "set (work_of d' q') = set (work_of d1 q1) \<union> (\<Union>g \<in> set ids. handed_on (unat B) v (pending_of d1 g))" by blast
  have "pending_of d' = (\<lambda>g. if g \<in> set (f # ids) then Option.bind (pending_of d g) (cancel (unat B) v) else pending_of d g)"
    unfolding rest(5) one(5) using fresh by auto
  moreover have "(\<Union>g \<in> set ids. handed_on (unat B) v (pending_of d1 g)) = (\<Union>g \<in> set ids. handed_on (unat B) v (pending_of d g))"
    unfolding one(5) using fresh by (intro SUP_cong) auto
  ultimately show ?case
    using one(1,3,4,6) rest(1-4,6) cascaded_trans [OF one(3) rest(3)]
    by (intro exI [of _ d'] exI [of _ q']) auto
qed

section \<open>The cascade refines peeling\<close>

definition solve_block :: "lt_decoder \<Rightarrow> nat \<Rightarrow> usize \<Rightarrow> lt_decoder" where
  "solve_block d b off = d\<lparr>ld_solved := (ld_solved d)[b := Some off], ld_solved_count := ld_solved_count d + 1,
     ld_by_block := (ld_by_block d)[b := []]\<rparr>"

lemma solve_block_views:
  assumes "b < length (ld_solved d)"
  shows "solved_off (solve_block d b off) c = (if c = b then Some off else solved_off d c)"
    and "live (solve_block d b off) = live d" and "elems_of (solve_block d b off) = elems_of d"
    and "off_of (solve_block d b off) = off_of d" and "ld_arena (solve_block d b off) = ld_arena d"
    and "ld_words (solve_block d b off) = ld_words d" and "ld_k (solve_block d b off) = ld_k d"
    and "ld_frames (solve_block d b off) = ld_frames d" and "ld_seen (solve_block d b off) = ld_seen d"
    and "static_ok (solve_block d b off) = static_ok d"
  using assms by (auto simp: solve_block_def solved_off_def live_def elems_of_def off_of_def fun_eq_iff static_ok_def)

lemma solved_below: "dec_ok b ids d q \<Longrightarrow> {c. solved_off d c \<noteq> None} \<subseteq> {..<ld_k d}"
  by (auto simp: dec_ok_def solved_off_def split: if_splits)

lemma solve_block_ok:
  assumes ok: "dec_ok b0 [] d ((B, off) # q)" and new: "solved_off d (unat B) = None"
  shows "dec_ok (unat B) (ld_by_block d ! unat B) (solve_block d (unat B) off) q"
proof -
  let ?b = "unat B" and ?d = "solve_block d (unat B) off"
  have k: "?b < ld_k d" "length (ld_solved d) = ld_k d" "length (ld_by_block d) = ld_k d"
    using ok by (auto simp: dec_ok_def)
  have bl: "?b < length (ld_solved d)" using k by simp
  note views = solve_block_views [OF bl, of off]
  have own: "owners_ok d ((B, off) # q)" using ok by (simp add: dec_ok_def)
  define was where "was x = (if x = Block ?b then Work (length q) else x)" for x
  have old: "owner_off d ((B, off) # q) (was x) = Some o'" if "owner_off ?d q x = Some o'" for x o'
    using that by (cases x) (auto simp: was_def views nth_Cons' split: if_splits)
  have fresh: "owner_off ?d q (Work (length q)) = None" by simp
  have inj: "x = y" if "was x = was y" "owner_off ?d q x = Some o'" "owner_off ?d q y = Some o'" for x y o'
    using that fresh by (auto simp: was_def split: if_splits)
  have own': "owners_ok ?d q"
  proof -
    have "x = y" if "owner_off ?d q x = Some o'" "owner_off ?d q y = Some o'" for x y o'
      using inj [OF _ that] owner_inj [OF own old [OF that(1)] old [OF that(2)]] by blast
    moreover have "aligned (ld_words ?d) (ld_arena ?d) o'" if "owner_off ?d q x = Some o'" for x o'
      using owner_slot [OF own old [OF that]] by (simp add: views)
    ultimately show ?thesis unfolding owners_ok_def by blast
  qed
  have cnt: "card {c. solved_off ?d c \<noteq> None} = card {c. solved_off d c \<noteq> None} + 1"
  proof -
    have "{c. solved_off ?d c \<noteq> None} = insert ?b {c. solved_off d c \<noteq> None}" by (auto simp: views)
    moreover have "finite {c. solved_off d c \<noteq> None}" using solved_below [OF ok] finite_subset by blast
    ultimately show ?thesis using new by simp
  qed
  have p: "pend_ok b0 [] d" using ok by (simp add: dec_ok_def)
  have lists: "distinct (ld_by_block d ! c) \<and> (solved_off d c \<noteq> None \<longrightarrow> ld_by_block d ! c = []) \<and>
      (\<forall>g \<in> set (ld_by_block d ! c). g < length (ld_frames d) \<and> (live d g \<longrightarrow> c \<in> elems_of d g))"
    if "c < ld_k d" for c using p that unfolding pend_ok_def by blast
  have by_block: "ld_by_block ?d ! c = (if c = ?b then [] else ld_by_block d ! c)" for c
    using k by (simp add: solve_block_def nth_list_update)
  have live: "bs_ok (ld_k d) (pf_idx (ld_frames d ! g)) \<and> 2 \<le> card (elems_of d g) \<and>
      (g \<in> set (ld_by_block d ! ?b) \<longrightarrow> ?b \<in> elems_of d g) \<and>
      (\<forall>c \<in> elems_of d g. c = ?b \<and> g \<in> set (ld_by_block d ! ?b) \<or>
         solved_off ?d c = None \<and> g \<in> set (ld_by_block ?d ! c))" if g: "live d g" for g
  proof -
    note l = pend_live [OF ok g]
    have "?b \<in> elems_of d g" if "g \<in> set (ld_by_block d ! ?b)" using lists [OF k(1)] that g by blast
    moreover have "c = ?b \<and> g \<in> set (ld_by_block d ! ?b) \<or>
         solved_off ?d c = None \<and> g \<in> set (ld_by_block ?d ! c)" if "c \<in> elems_of d g" for c
      using l(6) [OF that] by (auto simp: views by_block)
    ultimately show ?thesis using l(2,3) by blast
  qed
  have "pend_ok ?b (ld_by_block d ! ?b) ?d"
    using lists [OF k(1)] live lists unfolding pend_ok_def
    by (auto simp: views by_block split: if_splits)
  moreover have "ld_solved_count ?d = card {c. solved_off ?d c \<noteq> None}"
    unfolding cnt using ok by (simp add: dec_ok_def solve_block_def)
  moreover have "length (ld_solved ?d) = ld_k d" "length (ld_by_block ?d) = ld_k d" using k by (simp_all add: solve_block_def)
  ultimately show ?thesis using ok own' by (simp add: dec_ok_def views)
qed

lemma work_of_Cons: "work_of d ((B, off) # q) = (unat B, slot_at (ld_words d) (ld_arena d) off) # work_of d q"
  by (simp add: work_of_def)

text \<open>Taking one entry off the work list is one abstract peeling step.\<close>

lemma take_step:
  assumes ok: "dec_ok b0 [] d ((B, off) # q)" and new: "solved_off d (unat B) = None"
  shows "\<exists>d' q'. resolve_loop P d ((B, off) # q) = resolve_loop P d' q' \<and> dec_ok (unat B) [] d' q' \<and>
    cascaded d d' \<and> peel (peel_of d ((B, off) # q)) (peel_of d' q') \<and>
    {c. solved_off d' c \<noteq> None} = insert (unat B) {c. solved_off d c \<noteq> None}"
proof -
  let ?b = "unat B" and ?d = "solve_block d (unat B) off" and ?ids = "ld_by_block d ! unat B"
  let ?v = "slot_at (ld_words d) (ld_arena d) off"
  have k: "?b < length (ld_solved d)" "?b < length (ld_by_block d)" using ok by (auto simp: dec_ok_def)
  note views = solve_block_views [OF k(1), of off]
  have known: "known ?d = (known d)(?b \<mapsto> ?v)" by (auto simp: known_def views fun_eq_iff)
  have same: "pending_of ?d = pending_of d" "work_of ?d q = work_of d q"
    by (simp_all add: pending_of_def work_of_def views fun_eq_iff)
  have "known ?d ?b = Some ?v" by (simp add: known)
  note ws = wake_spec [OF solve_block_ok [OF ok new] this, of P, unfolded known same]
  then obtain d' q' where w:
    "wake P B ?ids ?d q = Some (d', q')" "dec_ok ?b [] d' q'" "cascaded ?d d'" "known d' = (known d)(?b \<mapsto> ?v)"
    "pending_of d' = (\<lambda>g. if g \<in> set ?ids then Option.bind (pending_of d g) (cancel ?b ?v) else pending_of d g)"
    "set (work_of d' q') = set (work_of d q) \<union> (\<Union>g \<in> set ?ids. handed_on ?b ?v (pending_of d g))"
    by (elim exE conjE) (rule that)
  have run: "resolve_loop P d ((B, off) # q) = resolve_loop P d' q'"
    using k new w(1) by (subst resolve_loop.simps)
      (simp add: get_at_in set_at_in solve_block_def solved_off_def)
  have waits: "?b \<in> S \<longleftrightarrow> g \<in> set ?ids" if p: "pending_of d g = Some (S, u)" for g S u
  proof -
    have g: "live d g" "S = elems_of d g" using p by (auto simp: pending_of_def split: if_splits)
    have "?b < ld_k d" using k(1) ok by (simp add: dec_ok_def)
    then have "?b \<in> elems_of d g" if "g \<in> set ?ids" using listed_elem [OF ok _ that g(1)] by blast
    moreover have "g \<in> set ?ids" if "?b \<in> elems_of d g" using pend_live(6) [OF ok g(1) that] by simp
    ultimately show ?thesis using g(2) by blast
  qed
  have absorb: "pending_of d' = absorb ?b ?v (pending_of d)"
  proof
    fix g
    show "pending_of d' g = absorb ?b ?v (pending_of d) g"
    proof (cases "pending_of d g")
      case None
      then show ?thesis by (simp add: w(5) absorb_def)
    next
      case (Some eqn)
      then obtain S u where "pending_of d g = Some (S, u)" by (cases eqn) simp
      then show ?thesis using waits [of g S u] by (auto simp: w(5) absorb_def cancel_def)
    qed
  qed
  have rel: "(\<Union>g \<in> set ?ids. handed_on ?b ?v (pending_of d g)) = releases ?b ?v (pending_of d)"
    unfolding handed_on_def releases_def using waits by fast
  have notin: "?b \<notin> dom (known d)" using new by (auto simp: known_def)
  have "peel (peel_of d ((B, off) # q)) (peel_of d' q')"
    unfolding peel_of_def work_of_Cons w(4) absorb using notin w(6) rel by (intro peel.take) simp_all
  moreover have "cascaded d d'" using w(3) by (cases d, cases d') (simp add: cascaded_def solve_block_def)
  moreover have "{c. solved_off d' c \<noteq> None} = insert ?b {c. solved_off d c \<noteq> None}"
  proof -
    have dom: "dom (known e) = {c. solved_off e c \<noteq> None}" for e by (auto simp: known_def)
    show ?thesis using w(4) unfolding dom [symmetric] by simp
  qed
  ultimately show ?thesis using run w(2) by blast
qed

lemma pend_ok_any: "pend_ok b [] d = pend_ok b' [] d"
  by (simp add: pend_ok_def)

lemma dec_ok_any: "dec_ok b [] d q = dec_ok b' [] d q"
  by (simp add: dec_ok_def pend_ok_any [of b _ b'])

lemma owners_ok_tl: "owners_ok d (x # q) \<Longrightarrow> owners_ok d q"
proof -
  assume own: "owners_ok d (x # q)"
  have "owner_off d (x # q) y = Some o'" if "owner_off d q y = Some o'" for y o'
    using that by (cases y) (auto simp: nth_Cons' split: if_splits)
  then show ?thesis using own unfolding owners_ok_def by blast
qed

lemma skip_step:
  assumes ok: "dec_ok b0 [] d ((B, off) # q)" and old: "solved_off d (unat B) \<noteq> None"
  shows "resolve_loop P d ((B, off) # q) = resolve_loop P d q \<and> dec_ok b0 [] d q \<and>
    peel (peel_of d ((B, off) # q)) (peel_of d q)"
proof -
  have "get_at (ld_solved d) (unat B) = Some (solved_off d (unat B))"
    using old by (auto simp: get_at_def solved_off_def split: if_splits)
  then have "resolve_loop P d ((B, off) # q) = resolve_loop P d q"
    using old by (subst resolve_loop.simps) simp
  moreover have "dec_ok b0 [] d q" using ok owners_ok_tl by (auto simp: dec_ok_def)
  moreover have "unat B \<in> dom (known d)" using old by (auto simp: known_def)
  then have "peel (peel_of d ((B, off) # q)) (peel_of d q)"
    unfolding peel_of_def work_of_Cons by (rule peel.skip)
  ultimately show ?thesis by blast
qed

lemma resolve_loop_spec:
  assumes "dec_ok 0 [] d q"
  shows "\<exists>d'. resolve_loop P d q = Some d' \<and> dec_ok 0 [] d' [] \<and> cascaded d d' \<and>
    peel\<^sup>*\<^sup>* (peel_of d q) (peel_of d' [])"
  using assms
proof (induction "ld_k d - card {c. solved_off d c \<noteq> None}" arbitrary: d q rule: less_induct)
  case less
  show ?case using less.prems
  proof (induction q)
    case Nil
    then show ?case by (intro exI [of _ d]) (simp add: resolve_loop.simps)
  next
    case (Cons x q)
    obtain B off where x: "x = (B, off)" by (cases x)
    show ?case
    proof (cases "solved_off d (unat B) = None")
      case True
      from take_step [OF Cons.prems [unfolded x] True, of P] obtain d1 q1 where t:
        "resolve_loop P d ((B, off) # q) = resolve_loop P d1 q1" "dec_ok (unat B) [] d1 q1" "cascaded d d1"
        "peel (peel_of d ((B, off) # q)) (peel_of d1 q1)"
        "{c. solved_off d1 c \<noteq> None} = insert (unat B) {c. solved_off d c \<noteq> None}" by blast
      have k: "ld_k d1 = ld_k d" using t(3) by (cases d, cases d1) (simp add: cascaded_def)
      have "card {c. solved_off d1 c \<noteq> None} \<le> card {..<ld_k d1}"
        by (rule card_mono [OF finite_lessThan solved_below [OF t(2)]])
      moreover have "finite {c. solved_off d c \<noteq> None}"
        by (rule finite_subset [OF solved_below [OF Cons.prems] finite_lessThan])
      ultimately have less1: "ld_k d1 - card {c. solved_off d1 c \<noteq> None} < ld_k d - card {c. solved_off d c \<noteq> None}"
        using True unfolding t(5) k by simp
      have ok1: "dec_ok 0 [] d1 q1" using t(2) by (rule dec_ok_any [THEN iffD1])
      obtain d' where
        "resolve_loop P d1 q1 = Some d'" "dec_ok 0 [] d' []" "cascaded d1 d'" "peel\<^sup>*\<^sup>* (peel_of d1 q1) (peel_of d' [])"
        using less.hyps [OF less1 ok1] by blast
      then show ?thesis unfolding x t(1)
        using cascaded_trans [OF t(3)] converse_rtranclp_into_rtranclp [of peel, OF t(4)]
        by (intro exI [of _ d'] conjI)
    next
      case False
      note s = skip_step [OF Cons.prems [unfolded x] False, of P]
      then obtain d' where "resolve_loop P d q = Some d'" "dec_ok 0 [] d' []" "cascaded d d'"
        "peel\<^sup>*\<^sup>* (peel_of d q) (peel_of d' [])" using Cons.IH by blast
      moreover have "resolve_loop P d ((B, off) # q) = resolve_loop P d q"
        "peel (peel_of d ((B, off) # q)) (peel_of d q)" using s by blast+
      ultimately show ?thesis unfolding x
        using converse_rtranclp_into_rtranclp [of peel] by (intro exI [of _ d'] conjI) simp_all
    qed
  qed
qed

end
