(* ===== verification/Receive.thy ===== *)
theory Receive
  imports Cascade
begin

text \<open>
  \<open>add_frame\<close> as a whole. Between two calls the decoder satisfies \<open>recv_ok\<close>: the structural
  invariant, the resource bounds, and that its knowledge is exactly what peeling derives from the
  equations of the sequence numbers it has accepted. The lemmas follow the source: the index set of
  the frame, the unsolved part of it, the fresh slot with the solved blocks cancelled, and the three
  ways to go on (nothing new, one block to resolve, a pending equation).
\<close>

section \<open>The blocks of a frame\<close>

definition dec_blocks :: "lt_decoder \<Rightarrow> u32 \<Rightarrow> u32 list" where
  "dec_blocks d seq = frame_blocks (ld_sys_span d) (ld_causal d) (ld_cdf d) (ld_session_id d) seq"

lemma static_k: "static_ok d \<Longrightarrow> ld_k d < 2 ^ 32"
  using small_k by (simp add: static_ok_def)

lemma dec_blocks_range:
  assumes "static_ok d"
  shows "block_set (ld_k d) (dec_blocks d seq)" and "dec_blocks d seq \<noteq> []"
proof -
  have s: "degree_cdf_ok (ld_cdf d)" "degree_cdf_k (ld_cdf d) = ld_k d" "0 < ld_k d" "ld_sys_span d \<le> ld_k d"
    using assms by (simp_all add: static_ok_def)
  show "block_set (ld_k d) (dec_blocks d seq)" "dec_blocks d seq \<noteq> []"
    unfolding dec_blocks_def by (rule frame_blocks_range [OF s(1-3) static_k [OF assms] s(4)])+
qed

lemma decoder_indices_eq:
  assumes "static_ok d"
  shows "\<exists>scratch. decoder_indices d seq = Some (dec_blocks d seq, scratch)"
proof -
  have s: "degree_cdf_ok (ld_cdf d)" "degree_cdf_k (ld_cdf d) = ld_k d" "0 < ld_k d" "ld_sys_span d \<le> ld_k d"
    using assms by (simp_all add: static_ok_def)
  consider (direct) "unat seq < ld_sys_span d" "\<not> ld_causal d" | (weave) "unat seq < ld_sys_span d" "ld_causal d"
    | (repair) "\<not> unat seq < ld_sys_span d" by blast
  then show ?thesis
  proof cases
    case direct
    then have "unat seq mod ld_k d = unat seq" using s(4) by simp
    then show ?thesis using direct s(3) by (simp add: decoder_indices_def dec_blocks_def frame_blocks_def)
  next
    case weave
    then show ?thesis by (simp add: decoder_indices_def dec_blocks_def frame_blocks_def)
  next
    case repair
    then show ?thesis using equation_ok(3) [OF s(1), unfolded s(2), OF static_k [OF assms]]
      by (simp add: decoder_indices_def dec_blocks_def frame_blocks_def)
  qed
qed

lemma keep_unsolved_eq:
  "\<forall>b \<in> set bs. unat b < length (ld_solved d) \<Longrightarrow>
   keep_unsolved (ld_solved d) bs = Some (filter (\<lambda>b. solved_off d (unat b) = None) bs)"
  by (induction bs) (simp_all add: get_at_in solved_off_def)

section \<open>The fresh slot\<close>

lemma slot_at_append: "aligned w A o' \<Longrightarrow> slot_at w (A @ v) o' = slot_at w A o'"
  by (auto simp: slot_at_def aligned_def)

lemma slot_at_end: "length v = w \<Longrightarrow> slot_at w (A @ v) (length A) = v"
  by (simp add: slot_at_def)

lemma aligned_append: "aligned w A o' \<Longrightarrow> aligned w (A @ v) o'"
  by (simp add: aligned_def)

lemma aligned_end: "w dvd length A \<Longrightarrow> length v = w \<Longrightarrow> aligned w (A @ v) (length A)"
  by (simp add: aligned_def)

definition cancel_known :: "lt_decoder \<Rightarrow> val \<Rightarrow> u32 list \<Rightarrow> val" where
  "cancel_known d v bs =
     foldl (\<lambda>v b. case known d (unat b) of None \<Rightarrow> v | Some x \<Rightarrow> xor_words v x) v bs"

lemma cancel_solved_eq:
  assumes own: "owners_ok d q" and w: "0 < ld_words d" "ld_words d dvd length (ld_arena d)"
    and bs: "\<forall>b \<in> set bs. unat b < length (ld_solved d)" and v: "length v = ld_words d"
  shows "cancel_solved P (ld_solved d) (ld_words d) (length (ld_arena d)) bs (ld_arena d @ v) =
      Some (ld_arena d @ cancel_known d v bs) \<and> length (cancel_known d v bs) = ld_words d"
  using bs v
proof (induction bs arbitrary: v)
  case Nil
  then show ?case by (simp add: cancel_known_def)
next
  case (Cons b bs)
  have at: "get_at (ld_solved d) (unat b) = Some (solved_off d (unat b))"
    using Cons.prems(1) by (simp add: get_at_in solved_off_def)
  show ?case
  proof (cases "solved_off d (unat b)")
    case None
    then have "cancel_known d v (b # bs) = cancel_known d v bs" by (simp add: cancel_known_def known_def)
    then show ?thesis using Cons at None by simp
  next
    case (Some o')
    let ?x = "slot_at (ld_words d) (ld_arena d) o'"
    have al: "aligned (ld_words d) (ld_arena d) o'" using owner_slot [OF own, of "Block (unat b)"] Some by simp
    then have "o' + ld_words d \<le> length (ld_arena d)" by (simp add: aligned_def)
    then have ne: "length (ld_arena d) \<noteq> o'" using w(1) by simp
    have "xor_at P (ld_arena d @ v) (length (ld_arena d)) o' (ld_words d) =
        Some (put_at (ld_words d) (ld_arena d @ v) (length (ld_arena d)) (xor_words v ?x))"
      using xor_at_spec [OF aligned_end [OF w(2) Cons.prems(2)] aligned_append [OF al, of v] ne, of P]
        slot_at_append [OF al, of v] slot_at_end [OF Cons.prems(2), of "ld_arena d"] by simp
    moreover have "put_at (ld_words d) (ld_arena d @ v) (length (ld_arena d)) (xor_words v ?x) = ld_arena d @ xor_words v ?x"
      using Cons.prems(2) by (simp add: put_at_def)
    moreover have "cancel_known d v (b # bs) = cancel_known d (xor_words v ?x) bs"
      using Some by (simp add: cancel_known_def known_def)
    moreover have "length (xor_words v ?x) = ld_words d" using Cons.prems(2) al by simp
    ultimately show ?thesis using Cons.IH [of "xor_words v ?x"] Cons.prems(1) at Some by simp
  qed
qed

definition block_words :: "usize \<Rightarrow> usize \<Rightarrow> u8 list \<Rightarrow> val" where
  "block_words words block_len block = bytes_as_words (block @ replicate (4 * words - block_len) 0)"

lemma load_block_eq:
  assumes "length block = bl" and "w = div_ceil bl 4"
  shows "load_block w bl block = Some (block_words w bl block)" and "length (block_words w bl block) = w"
proof -
  have le: "bl \<le> 4 * w" using padded_block [of bl] assms(2) by simp
  then show "load_block w bl block = Some (block_words w bl block)"
    using assms(1) by (simp add: load_block_def zero_word_bytes slice_def copy_from_slice_def splice_def block_words_def)
  have "4 * length (block_words w bl block) = 4 * w"
    unfolding block_words_def using assms(1) le
    by (subst length_bytes_as_words) simp_all
  then show "length (block_words w bl block) = w" by simp
qed

section \<open>The invariant between calls\<close>

definition eqs_of :: "lt_decoder \<Rightarrow> nat set set" where
  "eqs_of d = (\<lambda>s. unat ` set (dec_blocks d s)) ` set_elems (ld_seen d)"

definition recv_ok :: "lt_decoder \<Rightarrow> bool" where
  "recv_ok d \<longleftrightarrow> dec_ok 0 [] d [] \<and> tracks (eqs_of d) (peel_of d []) \<and>
     ld_words d dvd length (ld_arena d) \<and> length (ld_arena d) \<le> ld_max_arena_words d \<and>
     ld_pending_edges d \<le> ld_max_pending_edges d \<and> 2 * length (ld_frames d) \<le> ld_pending_edges d \<and>
     ld_frames_new d = card (set_elems (ld_seen d)) \<and>
     length (ld_arena d) \<le> ld_frames_new d * ld_words d"

definition same_stream :: "lt_decoder \<Rightarrow> lt_decoder \<Rightarrow> bool" where
  "same_stream d d' \<longleftrightarrow> ld_k d' = ld_k d \<and> ld_block_len d' = ld_block_len d \<and> ld_words d' = ld_words d \<and>
     ld_session_id d' = ld_session_id d \<and> ld_total_len d' = ld_total_len d \<and> ld_sys_span d' = ld_sys_span d \<and>
     ld_causal d' = ld_causal d \<and> ld_cdf d' = ld_cdf d \<and> ld_max_arena_words d' = ld_max_arena_words d \<and>
     ld_max_pending_edges d' = ld_max_pending_edges d"

lemma same_stream_refl [simp]: "same_stream d d"
  by (simp add: same_stream_def)

lemma same_stream_trans: "same_stream d d' \<Longrightarrow> same_stream d' d'' \<Longrightarrow> same_stream d d''"
  by (simp add: same_stream_def)

lemma same_stream_blocks: "same_stream d d' \<Longrightarrow> dec_blocks d' = dec_blocks d"
  by (simp add: same_stream_def dec_blocks_def fun_eq_iff)

lemma cascaded_same: "cascaded d d' \<Longrightarrow> same_stream d d' \<and> ld_seen d' = ld_seen d \<and>
    ld_frames_new d' = ld_frames_new d \<and> ld_frames_dup d' = ld_frames_dup d \<and>
    ld_frames_dropped d' = ld_frames_dropped d \<and> ld_pending_edges d' = ld_pending_edges d \<and>
    length (ld_arena d') = length (ld_arena d) \<and> length (ld_frames d') = length (ld_frames d)"
  by (cases d, cases d') (simp add: cascaded_def same_stream_def)

section \<open>Adding a slot, an equation\<close>

definition with_slot :: "lt_decoder \<Rightarrow> u32 list \<Rightarrow> u32 list \<Rightarrow> u32_set \<Rightarrow> val \<Rightarrow> lt_decoder" where
  "with_slot d idx scratch seen v = d\<lparr>ld_idx := idx, ld_idx_scratch := scratch, ld_seen := seen,
     ld_frames_new := ld_frames_new d + 1, ld_arena := ld_arena d @ v\<rparr>"

lemma with_slot_views [simp]:
  "solved_off (with_slot d idx scratch seen v) = solved_off d" "live (with_slot d idx scratch seen v) = live d"
  "elems_of (with_slot d idx scratch seen v) = elems_of d" "off_of (with_slot d idx scratch seen v) = off_of d"
  "ld_arena (with_slot d idx scratch seen v) = ld_arena d @ v" "ld_words (with_slot d idx scratch seen v) = ld_words d"
  "ld_k (with_slot d idx scratch seen v) = ld_k d" "ld_frames (with_slot d idx scratch seen v) = ld_frames d"
  "ld_by_block (with_slot d idx scratch seen v) = ld_by_block d" "ld_solved (with_slot d idx scratch seen v) = ld_solved d"
  "ld_seen (with_slot d idx scratch seen v) = seen" "static_ok (with_slot d idx scratch seen v) = static_ok d"
  "ld_solved_count (with_slot d idx scratch seen v) = ld_solved_count d"
  "ld_pending_edges (with_slot d idx scratch seen v) = ld_pending_edges d"
  "ld_frames_new (with_slot d idx scratch seen v) = ld_frames_new d + 1"
  "ld_frames_dup (with_slot d idx scratch seen v) = ld_frames_dup d"
  "ld_frames_dropped (with_slot d idx scratch seen v) = ld_frames_dropped d"
  "pend_ok b ids (with_slot d idx scratch seen v) = pend_ok b ids d"
  "same_stream d (with_slot d idx scratch seen v)"
  by (simp_all add: with_slot_def solved_off_def live_def elems_of_def off_of_def fun_eq_iff static_ok_def
      pend_ok_def same_stream_def)

lemma with_slot_abs:
  assumes "owners_ok d []"
  shows "known (with_slot d idx scratch seen v) = known d"
    and "pending_of (with_slot d idx scratch seen v) = pending_of d"
proof -
  have keep: "slot_at (ld_words d) (ld_arena d @ v) o' = slot_at (ld_words d) (ld_arena d) o'"
    if "owner_off d [] x = Some o'" for x o'
    by (rule slot_at_append [OF owner_slot [OF assms that]])
  show "known (with_slot d idx scratch seen v) = known d"
  proof
    fix b show "known (with_slot d idx scratch seen v) b = known d b"
      using keep [of "Block b"] by (cases "solved_off d b") (simp_all add: known_def)
  qed
  show "pending_of (with_slot d idx scratch seen v) = pending_of d"
  proof
    fix f show "pending_of (with_slot d idx scratch seen v) f = pending_of d f"
      using keep [of "Equation f"] by (simp add: pending_of_def)
  qed
qed

lemma with_slot_owners:
  assumes own: "owners_ok d []" and w: "0 < ld_words d" "ld_words d dvd length (ld_arena d)" "length v = ld_words d"
  shows "owners_ok (with_slot d idx scratch seen v) [(b, length (ld_arena d))]"
    and "owner_off (with_slot d idx scratch seen v) [] x = Some o' \<Longrightarrow> o' \<noteq> length (ld_arena d)"
    and "owners_ok (with_slot d idx scratch seen v) []"
proof -
  let ?d = "with_slot d idx scratch seen v"
  have same: "owner_off ?d [] x = owner_off d [] x" for x by (cases x) simp_all
  have old: "aligned (ld_words d) (ld_arena d @ v) o' \<and> o' \<noteq> length (ld_arena d)"
    if "owner_off ?d [] x = Some o'" for x o'
  proof -
    have al: "aligned (ld_words d) (ld_arena d) o'" using owner_slot [OF own] that same by simp
    then have "o' + ld_words d \<le> length (ld_arena d)" by (simp add: aligned_def)
    then show ?thesis using aligned_append [OF al] w(1) by simp
  qed
  then show "owner_off ?d [] x = Some o' \<Longrightarrow> o' \<noteq> length (ld_arena d)" by blast
  show own': "owners_ok ?d []" using old own same unfolding owners_ok_def by simp
  have cons: "owner_off ?d [(b, length (ld_arena d))] x =
      (if x = Work 0 then Some (length (ld_arena d)) else owner_off ?d [] x)" for x
    by (cases x) simp_all
  show "owners_ok ?d [(b, length (ld_arena d))]"
    using own' old aligned_end [OF w(2,3)] unfolding owners_ok_def cons by (auto split: if_splits)
qed

lemma enlist_spec:
  assumes "distinct bs" and "\<forall>b \<in> set bs. unat b < length by_block"
  shows "\<exists>by_block'. enlist f bs by_block = Some by_block' \<and> length by_block' = length by_block \<and>
    (\<forall>c < length by_block. by_block' ! c = (if c \<in> unat ` set bs then by_block ! c @ [f] else by_block ! c))"
  using assms
proof (induction bs arbitrary: by_block)
  case (Cons b bs)
  let ?bb = "by_block[unat b := by_block ! unat b @ [f]]"
  have "distinct bs" "\<forall>b \<in> set bs. unat b < length ?bb" using Cons.prems by simp_all
  from Cons.IH [OF this] obtain by_block' where ih: "enlist f bs ?bb = Some by_block'" "length by_block' = length by_block"
    "\<forall>c < length by_block. by_block' ! c = (if c \<in> unat ` set bs then ?bb ! c @ [f] else ?bb ! c)"
    unfolding length_list_update by blast
  have b: "unat b \<notin> unat ` set bs" "unat b < length by_block"
    using Cons.prems by (auto dest: word_unat_eq_iff [THEN iffD2])
  have "by_block' ! c = (if c \<in> unat ` set (b # bs) then by_block ! c @ [f] else by_block ! c)"
    if "c < length by_block" for c
    using ih(3) that b by (cases "c = unat b") simp_all
  moreover have "enlist f (b # bs) by_block = Some by_block'"
    using ih(1) b(2) by (simp add: get_at_in set_at_in)
  ultimately show ?case using ih(2) by blast
qed simp

definition with_equation :: "lt_decoder \<Rightarrow> usize list list \<Rightarrow> block_set_rep \<Rightarrow> usize \<Rightarrow> usize \<Rightarrow> lt_decoder" where
  "with_equation d by_block s off n = d\<lparr>ld_pending_edges := ld_pending_edges d + n, ld_by_block := by_block,
     ld_frames := ld_frames d @ [\<lparr>pf_idx = s, pf_off = off, pf_active = True\<rparr>]\<rparr>"

lemma with_equation_views:
  "solved_off (with_equation d by_block s off n) = solved_off d"
  "live (with_equation d by_block s off n) f = (f = length (ld_frames d) \<or> live d f)"
  "f \<noteq> length (ld_frames d) \<Longrightarrow> live d f \<Longrightarrow> elems_of (with_equation d by_block s off n) f = elems_of d f"
  "elems_of (with_equation d by_block s off n) (length (ld_frames d)) = bs_elems s"
  "f \<noteq> length (ld_frames d) \<Longrightarrow> live d f \<Longrightarrow> off_of (with_equation d by_block s off n) f = off_of d f"
  "off_of (with_equation d by_block s off n) (length (ld_frames d)) = off"
  "f \<noteq> length (ld_frames d) \<Longrightarrow> live d f \<Longrightarrow> ld_frames (with_equation d by_block s off n) ! f = ld_frames d ! f"
  "ld_frames (with_equation d by_block s off n) ! length (ld_frames d) = \<lparr>pf_idx = s, pf_off = off, pf_active = True\<rparr>"
  "length (ld_frames (with_equation d by_block s off n)) = length (ld_frames d) + 1"
  "ld_by_block (with_equation d by_block s off n) = by_block"
  "ld_arena (with_equation d by_block s off n) = ld_arena d" "ld_words (with_equation d by_block s off n) = ld_words d"
  "ld_k (with_equation d by_block s off n) = ld_k d" "ld_solved (with_equation d by_block s off n) = ld_solved d"
  "static_ok (with_equation d by_block s off n) = static_ok d" "ld_seen (with_equation d by_block s off n) = ld_seen d"
  "ld_solved_count (with_equation d by_block s off n) = ld_solved_count d"
  by (auto simp: with_equation_def solved_off_def fun_eq_iff live_def elems_of_def off_of_def nth_append static_ok_def)

lemma with_equation_ok:
  assumes ok: "dec_ok 0 [] d []" and al: "aligned (ld_words d) (ld_arena d) off"
    and fresh: "\<And>x. owner_off d [] x \<noteq> Some off"
    and U: "distinct U" "\<forall>b \<in> set U. unat b < ld_k d \<and> solved_off d (unat b) = None" "2 \<le> length U"
    and s: "bs_ok (ld_k d) s" "bs_elems s = unat ` set U"
    and bb: "length by_block = ld_k d"
      "\<forall>c < ld_k d. by_block ! c = (if c \<in> unat ` set U then ld_by_block d ! c @ [length (ld_frames d)] else ld_by_block d ! c)"
  shows "dec_ok 0 [] (with_equation d by_block s off n) []"
    and "known (with_equation d by_block s off n) = known d"
    and "pending_of (with_equation d by_block s off n) =
      (pending_of d)(length (ld_frames d) \<mapsto> (unat ` set U, slot_at (ld_words d) (ld_arena d) off))"
    and "pending_of d (length (ld_frames d)) = None"
proof -
  let ?d = "with_equation d by_block s off n" and ?f = "length (ld_frames d)"
  have dead: "\<not> live d ?f" by (simp add: live_def)
  then have own_f: "owner_off d [] (Equation ?f) = None" by simp
  note v = with_equation_views
  have own: "owners_ok d []" using ok by (simp add: dec_ok_def)
  have cases: "owner_off ?d [] x = (if x = Equation ?f then Some off else owner_off d [] x)" for x
    using dead by (cases x) (auto simp: v)
  have own': "owners_ok ?d []"
    using own al fresh own_f unfolding owners_ok_def cases by (auto simp: v split: if_splits)
  have p: "pend_ok 0 [] d" using ok by (simp add: dec_ok_def)
  have lists: "distinct (ld_by_block d ! c) \<and> (solved_off d c \<noteq> None \<longrightarrow> ld_by_block d ! c = []) \<and>
      (\<forall>g \<in> set (ld_by_block d ! c). g < ?f \<and> (live d g \<longrightarrow> c \<in> elems_of d g))" if "c < ld_k d" for c
    using p that unfolding pend_ok_def by blast
  have card: "2 \<le> card (unat ` set U)" using U(1,3) by (simp add: card_image [OF unat_inj_on] distinct_card)
  have live: "bs_ok (ld_k d) (pf_idx (ld_frames ?d ! g)) \<and> 2 \<le> card (elems_of ?d g) \<and>
      (\<forall>c \<in> elems_of ?d g. solved_off d c = None \<and> g \<in> set (by_block ! c))" if g: "live ?d g" for g
  proof (cases "g = ?f")
    case True
    then show ?thesis using s card U(2) bb(2) by (auto simp: v)
  next
    case False
    then have lg: "live d g" using g by (simp add: v)
    note l = pend_live [OF ok lg]
    show ?thesis using l(2,3,5) l(6) bb(2) False lg by (auto simp: v)
  qed
  have lists': "distinct (by_block ! c) \<and> (solved_off d c \<noteq> None \<longrightarrow> by_block ! c = []) \<and>
      (\<forall>g \<in> set (by_block ! c). g < ?f + 1 \<and> (live ?d g \<longrightarrow> c \<in> elems_of ?d g))" if c: "c < ld_k d" for c
  proof -
    have "c \<in> elems_of ?d g" if "live ?d g" "g \<in> set (by_block ! c)" for g
    proof (cases "g = ?f")
      case True
      then have "c \<in> unat ` set U" using that lists [OF c] bb(2) c by (auto split: if_splits)
      then show ?thesis using True s(2) by (simp add: v)
    next
      case False
      then have "live d g" "g \<in> set (ld_by_block d ! c)" using that bb(2) c by (auto simp: v split: if_splits)
      then show ?thesis using lists [OF c] False by (simp add: v)
    qed
    moreover have "distinct (by_block ! c)" "\<forall>g \<in> set (by_block ! c). g < ?f + 1"
      using lists [OF c] bb(2) c by (auto split: if_splits)
    moreover have "solved_off d c \<noteq> None \<longrightarrow> by_block ! c = []" using lists [OF c] bb(2) c U(2) by auto
    ultimately show ?thesis by blast
  qed
  have pend: "pend_ok 0 [] ?d" using live lists' unfolding pend_ok_def v by simp
  show "dec_ok 0 [] ?d []" using ok own' pend bb(1) by (simp add: dec_ok_def v)
  show "known ?d = known d" by (simp add: known_def v fun_eq_iff)
  show "pending_of d ?f = None" using dead by (simp add: pending_of_def)
  show "pending_of ?d = (pending_of d)(?f \<mapsto> (unat ` set U, slot_at (ld_words d) (ld_arena d) off))"
  proof
    fix g show "pending_of ?d g = ((pending_of d)(?f \<mapsto> (unat ` set U, slot_at (ld_words d) (ld_arena d) off))) g"
      by (cases "g = ?f") (auto simp: pending_of_def v s(2))
  qed
qed

section \<open>One call\<close>

definition unsolved_of :: "lt_decoder \<Rightarrow> u32 \<Rightarrow> u32 list" where
  "unsolved_of d seq = filter (\<lambda>b. solved_off d (unat b) = None) (dec_blocks d seq)"

definition eqn_of :: "lt_decoder \<Rightarrow> u32 \<Rightarrow> nat set" where
  "eqn_of d seq = unat ` set (dec_blocks d seq)"

definition within_limits :: "lt_decoder \<Rightarrow> u32 \<Rightarrow> bool" where
  "within_limits d seq \<longleftrightarrow> length (ld_arena d) + ld_words d \<le> ld_max_arena_words d \<and>
     ld_pending_edges d + (if 1 < length (unsolved_of d seq) then length (unsolved_of d seq) else 0)
       \<le> ld_max_pending_edges d"

definition accepts :: "lt_decoder \<Rightarrow> u32 \<Rightarrow> u8 list \<Rightarrow> bool" where
  "accepts d seq block \<longleftrightarrow> length block = ld_block_len d \<and> \<not> is_complete d \<and> seq \<notin> set_elems (ld_seen d) \<and>
     within_limits d seq"

text \<open>The abstract effect of an accepted frame.\<close>

definition absorbs :: "lt_decoder \<Rightarrow> u32 \<Rightarrow> val \<Rightarrow> lt_decoder \<Rightarrow> bool" where
  "absorbs d seq v d' \<longleftrightarrow>
     (let U = eqn_of d seq - dom (known d)
      in if U = {} then peel_of d' [] = peel_of d []
         else if card U = 1 then \<exists>b. U = {b} \<and> peel\<^sup>*\<^sup>* (known d, pending_of d, [(b, v)]) (peel_of d' [])
         else \<exists>f. pending_of d f = None \<and> peel_of d' [] = (known d, (pending_of d)(f \<mapsto> (U, v)), []))"

lemma unsolved_facts:
  assumes "static_ok d"
  shows "distinct (unsolved_of d seq)" and "unat ` set (unsolved_of d seq) = eqn_of d seq - dom (known d)"
    and "\<forall>b \<in> set (unsolved_of d seq). unat b < ld_k d \<and> solved_off d (unat b) = None"
    and "card (eqn_of d seq - dom (known d)) = length (unsolved_of d seq)"
    and "eqn_of d seq - dom (known d) = {} \<longleftrightarrow> unsolved_of d seq = []"
proof -
  note r = dec_blocks_range(1) [OF assms, of seq]
  show d: "distinct (unsolved_of d seq)" and "\<forall>b \<in> set (unsolved_of d seq). unat b < ld_k d \<and> solved_off d (unat b) = None"
    using r by (auto simp: unsolved_of_def block_set_def)
  show e: "unat ` set (unsolved_of d seq) = eqn_of d seq - dom (known d)"
    by (auto simp: unsolved_of_def eqn_of_def known_def)
  show "card (eqn_of d seq - dom (known d)) = length (unsolved_of d seq)"
    unfolding e [symmetric] using d by (simp add: card_image [OF unat_inj_on] distinct_card)
  show "eqn_of d seq - dom (known d) = {} \<longleftrightarrow> unsolved_of d seq = []"
    unfolding e [symmetric] by simp
qed

lemma absorbs_tracks:
  assumes "absorbs d seq v d'" and "tracks (eqs_of d) (peel_of d [])"
  shows "tracks (insert (eqn_of d seq) (eqs_of d)) (peel_of d' [])"
proof -
  let ?U = "eqn_of d seq - dom (known d)"
  have t: "tracks (eqs_of d) (known d, pending_of d, [])" using assms(2) by (simp add: peel_of_def work_of_def)
  show ?thesis
  proof (cases "?U = {}")
    case True
    then have "peel_of d' [] = peel_of d []" using assms(1) by (simp add: absorbs_def Let_def)
    then show ?thesis using tracks_more [OF t, of "eqn_of d seq"] True by (simp add: peel_of_def work_of_def)
  next
    case False
    show ?thesis
    proof (cases "card ?U = 1")
      case True
      then obtain b where b: "?U = {b}" "peel\<^sup>*\<^sup>* (known d, pending_of d, [(b, v)]) (peel_of d' [])"
        using assms(1) False unfolding absorbs_def Let_def by (auto split: if_splits)
      from tracks_peels [OF b(2) tracks_start [OF t b(1)]] show ?thesis .
    next
      case many: False
      then obtain f where f: "pending_of d f = None" "peel_of d' [] = (known d, (pending_of d)(f \<mapsto> (?U, v)), [])"
        using assms(1) False unfolding absorbs_def Let_def by (auto split: if_splits)
      have "finite ?U" by (simp add: eqn_of_def)
      then have "card ?U \<noteq> 0" using False by simp
      then have "2 \<le> card ?U" using many by linarith
      from tracks_pend [OF t this f(1)] show ?thesis unfolding f(2) .
    qed
  qed
qed

lemma absorbs_agrees:
  assumes X: "\<And>b. length (X b) = w" and "absorbs d seq v d'" and "agrees X w (peel_of d [])"
    and v: "v = xor_set X w (eqn_of d seq - dom (known d))"
  shows "agrees X w (peel_of d' [])"
proof -
  let ?U = "eqn_of d seq - dom (known d)"
  have a: "agrees X w (known d, pending_of d, [])" using assms(3) by (simp add: peel_of_def work_of_def)
  have fin: "finite ?U" by (simp add: eqn_of_def)
  consider "?U = {}" "peel_of d' [] = peel_of d []"
    | b where "?U = {b}" "peel\<^sup>*\<^sup>* (known d, pending_of d, [(b, v)]) (peel_of d' [])"
    | f where "peel_of d' [] = (known d, (pending_of d)(f \<mapsto> (?U, v)), [])"
    using assms(2) unfolding absorbs_def Let_def by (auto split: if_splits)
  then show ?thesis
  proof cases
    case 1
    then show ?thesis using assms(3) by simp
  next
    case 2
    have "v = X b" unfolding v 2(1) by (rule xor_set_single [where X = X, OF X])
    then have "agrees X w (known d, pending_of d, [(b, v)])" using a by (simp add: agrees_def)
    from agrees_peels [where X = X, OF X 2(2) this] show ?thesis .
  next
    case 3
    show ?thesis unfolding 3 using a v fin by (simp add: agrees_def)
  qed
qed

text \<open>Cancelling the known blocks of an equation leaves the XOR of the unknown ones.\<close>

lemma cancel_known_value:
  assumes X: "\<And>b. length (X b) = w" and a: "agrees X w (peel_of d [])"
  shows "distinct bs \<Longrightarrow> finite S \<Longrightarrow> unat ` set bs \<subseteq> S \<Longrightarrow>
    cancel_known d (xor_set X w S) bs = xor_set X w (S - (unat ` set bs \<inter> dom (known d)))"
proof (induction bs arbitrary: S)
  case Nil
  then show ?case by (simp add: cancel_known_def)
next
  case (Cons b bs)
  have fresh: "unat b \<notin> unat ` set bs" using Cons.prems(1) by (auto dest: word_unat_eq_iff [THEN iffD2])
  show ?case
  proof (cases "known d (unat b)")
    case None
    then have "cancel_known d (xor_set X w S) (b # bs) = cancel_known d (xor_set X w S) bs"
      by (simp add: cancel_known_def)
    moreover have "unat ` set (b # bs) \<inter> dom (known d) = unat ` set bs \<inter> dom (known d)" using None by auto
    ultimately show ?thesis using Cons.IH [of S] Cons.prems by simp
  next
    case (Some x)
    then have x: "x = X (unat b)" using a by (simp add: agrees_def peel_of_def)
    have "cancel_known d (xor_set X w S) (b # bs) = cancel_known d (xor_words (xor_set X w S) x) bs"
      using Some by (simp add: cancel_known_def)
    also have "xor_words (xor_set X w S) x = xor_set X w (S - {unat b})"
      unfolding x by (rule xor_set_remove [where X = X, OF X Cons.prems(2)]) (use Cons.prems(3) in simp)
    also have "cancel_known d \<dots> bs = xor_set X w (S - {unat b} - (unat ` set bs \<inter> dom (known d)))"
    proof (rule Cons.IH)
      show "unat ` set bs \<subseteq> S - {unat b}" using Cons.prems(3) fresh by (simp add: subset_Diff_insert)
    qed (use Cons.prems in simp_all)
    also have "S - {unat b} - (unat ` set bs \<inter> dom (known d)) = S - (unat ` set (b # bs) \<inter> dom (known d))"
      using Some by auto
    finally show ?thesis .
  qed
qed

lemma arena_room:
  assumes "static_ok d"
  shows "\<not> ld_max_arena_words d < saturating_add a b \<longleftrightarrow> a + b \<le> ld_max_arena_words d"
    and "\<not> ld_max_pending_edges d < saturating_add a b \<longleftrightarrow> a + b \<le> ld_max_pending_edges d"
proof -
  have k: "ld_k d \<le> 0xffff" "ld_words d \<le> 0xffff"
    using assms words_bound by (simp_all add: static_ok_def MAX_SOURCE_BLOCKS_def)
  then have "ld_k d * ld_words d \<le> 0xffff * 0xffff" by (intro mult_mono) simp_all
  then have "ld_max_arena_words d < usize_max" "ld_max_pending_edges d < usize_max"
    using assms k by (simp_all add: static_ok_def usize_max_def)
  then show "\<not> ld_max_arena_words d < saturating_add a b \<longleftrightarrow> a + b \<le> ld_max_arena_words d"
    "\<not> ld_max_pending_edges d < saturating_add a b \<longleftrightarrow> a + b \<le> ld_max_pending_edges d"
    by (auto simp: saturating_add_def)
qed

text \<open>What an accepted frame leaves: the cascade's invariant, the abstract effect and the counters.\<close>

definition step_result :: "lt_decoder \<Rightarrow> u32 \<Rightarrow> val \<Rightarrow> lt_decoder \<Rightarrow> bool" where
  "step_result d seq v d' \<longleftrightarrow> dec_ok 0 [] d' [] \<and> absorbs d seq v d' \<and> same_stream d d' \<and>
     set_elems (ld_seen d') = insert seq (set_elems (ld_seen d)) \<and>
     ld_frames_new d' = ld_frames_new d + 1 \<and> ld_frames_dup d' = ld_frames_dup d \<and>
     ld_frames_dropped d' = ld_frames_dropped d \<and>
     length (ld_arena d') = length (ld_arena d) + (if unsolved_of d seq = [] then 0 else ld_words d) \<and>
     ld_pending_edges d' = ld_pending_edges d + (if 1 < length (unsolved_of d seq) then length (unsolved_of d seq) else 0) \<and>
     length (ld_frames d') = length (ld_frames d) + (if 1 < length (unsolved_of d seq) then 1 else 0)"

lemma slot_start:
  assumes ok: "dec_ok 0 [] d []" and dvd: "ld_words d dvd length (ld_arena d)"
    and seen: "set_ok seen" and len_v: "length v = ld_words d"
  shows "dec_ok 0 [] (with_slot d idx scratch seen v) []"
    and "unat b < ld_k d \<Longrightarrow> dec_ok 0 [] (with_slot d idx scratch seen v) [(b, length (ld_arena d))]"
    and "peel_of (with_slot d idx scratch seen v) [] = peel_of d []"
    and "peel_of (with_slot d idx scratch seen v) [(b, length (ld_arena d))] = (known d, pending_of d, [(unat b, v)])"
proof -
  have own: "owners_ok d []" and w: "0 < ld_words d" using ok words_pos by (auto simp: dec_ok_def)
  show "dec_ok 0 [] (with_slot d idx scratch seen v) []"
    using ok seen with_slot_owners(3) [OF own w dvd len_v] by (simp add: dec_ok_def)
  show "unat b < ld_k d \<Longrightarrow> dec_ok 0 [] (with_slot d idx scratch seen v) [(b, length (ld_arena d))]"
    using ok seen with_slot_owners(1) [OF own w dvd len_v] by (simp add: dec_ok_def)
  show "peel_of (with_slot d idx scratch seen v) [] = peel_of d []"
    by (simp add: peel_of_def work_of_def with_slot_abs [OF own])
  show "peel_of (with_slot d idx scratch seen v) [(b, length (ld_arena d))] = (known d, pending_of d, [(unat b, v)])"
    using slot_at_end [OF len_v] by (simp add: peel_of_def work_of_def with_slot_abs [OF own])
qed

lemma with_slot_nil: "with_slot d idx scratch seen [] =
    d\<lparr>ld_idx := idx, ld_idx_scratch := scratch, ld_seen := seen, ld_frames_new := ld_frames_new d + 1\<rparr>"
  by (simp add: with_slot_def)

lemma accept_none:
  assumes ok: "dec_ok 0 [] d []" and seen: "set_ok seen" "set_elems seen = insert seq (set_elems (ld_seen d))"
    and U: "unsolved_of d seq = []"
  shows "step_result d seq v (with_slot d idx scratch seen [])" (is "step_result d seq v ?d")
proof -
  have own: "owners_ok d []" and st: "static_ok d" using ok by (simp_all add: dec_ok_def)
  have same: "owner_off ?d [] x = owner_off d [] x" for x by (cases x) simp_all
  have own': "owners_ok ?d []" using own same unfolding owners_ok_def by simp
  have "dec_ok 0 [] ?d []" using ok seen(1) own' by (simp add: dec_ok_def)
  moreover have "absorbs d seq v ?d" using U unsolved_facts(5) [OF st, of seq]
    by (simp add: absorbs_def Let_def peel_of_def work_of_def with_slot_abs [OF own])
  ultimately show ?thesis using U seen(2) by (simp add: step_result_def)
qed

lemma accept_one:
  assumes ok: "dec_ok 0 [] d []" and dvd: "ld_words d dvd length (ld_arena d)"
    and seen: "set_ok seen" "set_elems seen = insert seq (set_elems (ld_seen d))"
    and len_v: "length v = ld_words d" and U: "unsolved_of d seq = [b]"
  shows "\<exists>d'. resolve P (with_slot d idx scratch seen v) b (length (ld_arena d)) = Some d' \<and> step_result d seq v d'"
proof -
  let ?d = "with_slot d idx scratch seen v"
  have st: "static_ok d" using ok by (simp add: dec_ok_def)
  note f = unsolved_facts [OF st, of seq]
  have b: "unat b < ld_k d" "eqn_of d seq - dom (known d) = {unat b}" using f(2,3) U by simp_all
  note start = slot_start [OF ok dvd seen(1) len_v]
  have "dec_ok 0 [] ?d [(b, length (ld_arena d))]" by (rule start(2) [OF b(1)])
  from resolve_loop_spec [OF this] obtain d' where d':
    "resolve_loop P ?d [(b, length (ld_arena d))] = Some d'" "dec_ok 0 [] d' []" "cascaded ?d d'"
    "peel\<^sup>*\<^sup>* (known d, pending_of d, [(unat b, v)]) (peel_of d' [])"
    unfolding start(4) by blast
  note c = cascaded_same [OF d'(3)]
  have same: "same_stream d d'" using same_stream_trans [OF with_slot_views(19)] c by blast
  have "absorbs d seq v d'" using d'(4) b(2) by (simp add: absorbs_def Let_def)
  then show ?thesis using d' c same seen(2) U len_v
    by (intro exI [of _ d']) (simp add: resolve_def step_result_def)
qed

lemma accept_many:
  assumes ok: "dec_ok 0 [] d []" and dvd: "ld_words d dvd length (ld_arena d)"
    and seen: "set_ok seen" "set_elems seen = insert seq (set_elems (ld_seen d))"
    and len_v: "length v = ld_words d" and U: "2 \<le> length (unsolved_of d seq)"
  shows "\<exists>by_block s. enlist (length (ld_frames d)) (unsolved_of d seq) (ld_by_block d) = Some by_block \<and>
    bs_new (ld_k d) (unsolved_of d seq) = Some s \<and>
    step_result d seq v (with_equation (with_slot d idx scratch seen v) by_block s (length (ld_arena d))
      (length (unsolved_of d seq)))"
proof -
  let ?d = "with_slot d idx scratch seen v" and ?U = "unsolved_of d seq"
  have st: "static_ok d" and own: "owners_ok d []" and lb: "length (ld_by_block d) = ld_k d"
    using ok by (simp_all add: dec_ok_def)
  have w: "0 < ld_words d" using st words_pos by blast
  note f = unsolved_facts [OF st, of seq] and start = slot_start [OF ok dvd seen(1) len_v]
  have "\<forall>b \<in> set ?U. unat b < length (ld_by_block d)" using f(3) lb by simp
  from enlist_spec [OF f(1) this, of "length (ld_frames d)"] obtain by_block where bb:
    "enlist (length (ld_frames d)) ?U (ld_by_block d) = Some by_block" "length by_block = ld_k d"
    "\<forall>c < ld_k d. by_block ! c =
       (if c \<in> unat ` set ?U then ld_by_block d ! c @ [length (ld_frames d)] else ld_by_block d ! c)"
    unfolding lb by blast
  have "unat ` set ?U \<subseteq> {..<ld_k d}" using f(3) by auto
  from bs_new_spec [OF f(1) this] obtain s where s:
    "bs_new (ld_k d) ?U = Some s" "bs_ok (ld_k d) s" "bs_elems s = unat ` set ?U" by blast
  have al: "aligned (ld_words ?d) (ld_arena ?d) (length (ld_arena d))" using aligned_end [OF dvd len_v] by simp
  have fresh: "owner_off ?d [] x \<noteq> Some (length (ld_arena d))" for x
    using with_slot_owners(2) [OF own w dvd len_v] by blast
  have slot: "slot_at (ld_words ?d) (ld_arena ?d) (length (ld_arena d)) = v" using slot_at_end [OF len_v] by simp
  let ?e = "with_equation ?d by_block s (length (ld_arena d)) (length ?U)"
  have U': "\<forall>b \<in> set ?U. unat b < ld_k ?d \<and> solved_off ?d (unat b) = None" using f(3) by simp
  have s': "bs_ok (ld_k ?d) s" "length by_block = ld_k ?d" using s(2) bb(2) by simp_all
  have bb': "\<forall>c < ld_k ?d. by_block ! c =
      (if c \<in> unat ` set ?U then ld_by_block ?d ! c @ [length (ld_frames ?d)] else ld_by_block ?d ! c)"
    using bb(3) by simp
  note eqn = with_equation_ok(1-3) [OF start(1) al fresh f(1) U' U s'(1) s(3) s'(2) bb', where n = "length ?U"]
    with_equation_ok(4) [OF start(1) al fresh f(1) U' U s'(1) s(3) s'(2) bb']
  have e: "dec_ok 0 [] ?e []" "known ?e = known d"
    "pending_of ?e = (pending_of d)(length (ld_frames d) \<mapsto> (unat ` set ?U, v))"
    "pending_of d (length (ld_frames d)) = None"
    using eqn(1) eqn(2) eqn(3) [unfolded slot] eqn(4) by (simp_all add: with_slot_abs [OF own])
  have "card (eqn_of d seq - dom (known d)) \<noteq> 1" "eqn_of d seq - dom (known d) \<noteq> {}"
    using f(4,5) U by auto
  then have "absorbs d seq v ?e" using e f(2)
    by (auto simp: absorbs_def Let_def peel_of_def work_of_def)
  moreover have "same_stream d ?e" by (simp add: same_stream_def with_equation_def with_slot_def)
  moreover have "set_elems (ld_seen ?e) = insert seq (set_elems (ld_seen d))" using seen(2) by (simp add: with_equation_def)
  ultimately have "step_result d seq v ?e" using e(1) U len_v
    by (auto simp: step_result_def with_equation_def)
  then show ?thesis using bb(1) s(1) by blast
qed

text \<open>What \<open>add_frame\<close> runs for an accepted frame, by the number of its unsolved blocks.\<close>

definition accepted_run :: "'m platform_scheme \<Rightarrow> lt_decoder \<Rightarrow> u32 \<Rightarrow> val \<Rightarrow> u32_set \<Rightarrow> lt_decoder option \<Rightarrow> bool" where
  "accepted_run P d seq v seen r \<longleftrightarrow> (\<exists>scratch.
     let slot = with_slot d (dec_blocks d seq) scratch seen; off = length (ld_arena d); U = unsolved_of d seq
     in U = [] \<and> r = Some (slot []) \<or>
        (\<exists>b. U = [b] \<and> r = resolve P (slot v) b off) \<or>
        2 \<le> length U \<and> (\<exists>by_block s. enlist (length (ld_frames d)) U (ld_by_block d) = Some by_block \<and>
          bs_new (ld_k d) U = Some s \<and> r = Some (with_equation (slot v) by_block s off (length U))))"

lemma add_frame_runs:
  assumes recv: "recv_ok d" and acc: "accepts d seq block"
  shows "\<exists>v seen. v = cancel_known d (block_words (ld_words d) (ld_block_len d) block) (dec_blocks d seq) \<and>
    length v = ld_words d \<and> set_insert (ld_seen d) seq = Some (True, seen) \<and> set_ok seen \<and>
    set_elems seen = insert seq (set_elems (ld_seen d)) \<and> accepted_run P d seq v seen (add_frame P d seq block)"
proof -
  let ?bw = "block_words (ld_words d) (ld_block_len d) block"
  let ?v = "cancel_known d ?bw (dec_blocks d seq)" and ?U = "unsolved_of d seq"
  have ok: "dec_ok 0 [] d []" and dvd: "ld_words d dvd length (ld_arena d)" using recv by (simp_all add: recv_ok_def)
  have st: "static_ok d" and own: "owners_ok d []" and ls: "length (ld_solved d) = ld_k d" and so: "set_ok (ld_seen d)"
    using ok by (simp_all add: dec_ok_def)
  have a: "length block = ld_block_len d" "\<not> is_complete d" "seq \<notin> set_elems (ld_seen d)" "within_limits d seq"
    using acc by (simp_all add: accepts_def)
  have dup: "set_contains (ld_seen d) seq = Some False" using u32s.contains_elems [OF so] a(3) by simp
  obtain scratch where idx: "decoder_indices d seq = Some (dec_blocks d seq, scratch)"
    using decoder_indices_eq [OF st] by blast
  have rng: "\<forall>b \<in> set (dec_blocks d seq). unat b < length (ld_solved d)"
    using dec_blocks_range(1) [OF st, of seq] ls by (simp add: block_set_def)
  have keep: "keep_unsolved (ld_solved d) (dec_blocks d seq) = Some ?U"
    using keep_unsolved_eq [OF rng] by (simp add: unsolved_of_def)
  obtain seen where seen: "set_insert (ld_seen d) seq = Some (True, seen)" "set_ok seen"
    "set_elems seen = insert seq (set_elems (ld_seen d))"
    using u32s.insert_elemsE [OF so, of seq] a(3) by auto
  note room = arena_room [OF st]
  have lim: "\<not> ld_max_arena_words d < saturating_add (length (ld_arena d)) (ld_words d)"
    "\<not> ld_max_pending_edges d < saturating_add (ld_pending_edges d) (if 1 < length ?U then length ?U else 0)"
    unfolding room using a(4) by (simp_all add: within_limits_def)
  have w: "ld_words d = div_ceil (ld_block_len d) 4" using st by (simp add: static_ok_def)
  note load = load_block_eq [OF a(1) w]
  note cancel = cancel_solved_eq [OF own words_pos [OF st] dvd rng load(2), of P]
  note run = a(1,2) dup idx keep lim seen(1) load(1)
  have "accepted_run P d seq ?v seen (add_frame P d seq block)"
  proof -
    consider "?U = []" | b where "?U = [b]" | "2 \<le> length ?U"
      by (cases ?U rule: list.exhaust; cases "tl ?U") auto
    then show ?thesis
    proof cases
      case 1
      then show ?thesis unfolding accepted_run_def
        using run by (intro exI [of _ scratch]) (simp add: add_frame_def Let_def with_slot_def)
    next
      case 2
      then show ?thesis unfolding accepted_run_def
        using run cancel by (intro exI [of _ scratch]) (simp add: add_frame_def Let_def with_slot_def get_at_def)
    next
      case 3
      note f = unsolved_facts [OF st, of seq]
      have "\<forall>b \<in> set ?U. unat b < length (ld_by_block d)" using f(3) ok by (simp add: dec_ok_def)
      from enlist_spec [OF f(1) this, of "length (ld_frames d)"] obtain by_block where bb:
        "enlist (length (ld_frames d)) ?U (ld_by_block d) = Some by_block" by blast
      have "unat ` set ?U \<subseteq> {..<ld_k d}" using f(3) by auto
      from bs_new_spec [OF f(1) this] obtain s where s: "bs_new (ld_k d) ?U = Some s" by blast
      have "?U \<noteq> []" "length ?U \<noteq> 1" using 3 by auto
      then show ?thesis unfolding accepted_run_def using run cancel bb s 3
        by (intro exI [of _ scratch]) (simp add: add_frame_def Let_def with_slot_def with_equation_def)
    qed
  qed
  then show ?thesis using seen cancel by blast
qed

lemma add_frame_accepts:
  assumes recv: "recv_ok d" and acc: "accepts d seq block"
  shows "\<exists>d'. add_frame P d seq block = Some d' \<and>
    step_result d seq (cancel_known d (block_words (ld_words d) (ld_block_len d) block) (dec_blocks d seq)) d'"
proof -
  have ok: "dec_ok 0 [] d []" and dvd: "ld_words d dvd length (ld_arena d)" using recv by (simp_all add: recv_ok_def)
  let ?v = "cancel_known d (block_words (ld_words d) (ld_block_len d) block) (dec_blocks d seq)"
  obtain seen where r: "length ?v = ld_words d" "set_ok seen" "set_elems seen = insert seq (set_elems (ld_seen d))"
    "accepted_run P d seq ?v seen (add_frame P d seq block)" using add_frame_runs [OF assms, of P] by blast
  then obtain scratch where
    "unsolved_of d seq = [] \<and> add_frame P d seq block = Some (with_slot d (dec_blocks d seq) scratch seen []) \<or>
     (\<exists>b. unsolved_of d seq = [b] \<and> add_frame P d seq block =
        resolve P (with_slot d (dec_blocks d seq) scratch seen ?v) b (length (ld_arena d))) \<or>
     2 \<le> length (unsolved_of d seq) \<and> (\<exists>by_block s.
        enlist (length (ld_frames d)) (unsolved_of d seq) (ld_by_block d) = Some by_block \<and>
        bs_new (ld_k d) (unsolved_of d seq) = Some s \<and> add_frame P d seq block =
          Some (with_equation (with_slot d (dec_blocks d seq) scratch seen ?v) by_block s (length (ld_arena d))
            (length (unsolved_of d seq))))"
    unfolding accepted_run_def Let_def by blast
  then show ?thesis
  proof (elim disjE exE conjE)
    assume "unsolved_of d seq = []" "add_frame P d seq block = Some (with_slot d (dec_blocks d seq) scratch seen [])"
    then show ?thesis using accept_none [OF ok r(2,3)] by blast
  next
    fix b assume b: "unsolved_of d seq = [b]" and run:
      "add_frame P d seq block = resolve P (with_slot d (dec_blocks d seq) scratch seen ?v) b (length (ld_arena d))"
    show ?thesis unfolding run by (rule accept_one [OF ok dvd r(2,3,1) b])
  next
    fix by_block s assume "2 \<le> length (unsolved_of d seq)"
      "enlist (length (ld_frames d)) (unsolved_of d seq) (ld_by_block d) = Some by_block"
      "bs_new (ld_k d) (unsolved_of d seq) = Some s"
      "add_frame P d seq block = Some (with_equation (with_slot d (dec_blocks d seq) scratch seen ?v) by_block s
        (length (ld_arena d)) (length (unsolved_of d seq)))"
    then show ?thesis using accept_many [OF ok dvd r(2,3,1), of "dec_blocks d seq" scratch] by auto
  qed
qed

section \<open>Rejected frames\<close>

definition with_note :: "lt_decoder \<Rightarrow> u32 list \<Rightarrow> u32 list \<Rightarrow> nat \<Rightarrow> nat \<Rightarrow> lt_decoder" where
  "with_note d idx scratch dup dropped = d\<lparr>ld_idx := idx, ld_idx_scratch := scratch,
     ld_frames_dup := ld_frames_dup d + dup, ld_frames_dropped := ld_frames_dropped d + dropped\<rparr>"

lemma with_note_views [simp]:
  "solved_off (with_note d idx scratch dup dropped) = solved_off d" "live (with_note d idx scratch dup dropped) = live d"
  "elems_of (with_note d idx scratch dup dropped) = elems_of d" "off_of (with_note d idx scratch dup dropped) = off_of d"
  "ld_arena (with_note d idx scratch dup dropped) = ld_arena d" "ld_words (with_note d idx scratch dup dropped) = ld_words d"
  "ld_k (with_note d idx scratch dup dropped) = ld_k d" "ld_frames (with_note d idx scratch dup dropped) = ld_frames d"
  "ld_by_block (with_note d idx scratch dup dropped) = ld_by_block d" "ld_solved (with_note d idx scratch dup dropped) = ld_solved d"
  "ld_seen (with_note d idx scratch dup dropped) = ld_seen d" "static_ok (with_note d idx scratch dup dropped) = static_ok d"
  "ld_solved_count (with_note d idx scratch dup dropped) = ld_solved_count d"
  "ld_pending_edges (with_note d idx scratch dup dropped) = ld_pending_edges d"
  "ld_max_pending_edges (with_note d idx scratch dup dropped) = ld_max_pending_edges d"
  "ld_max_arena_words (with_note d idx scratch dup dropped) = ld_max_arena_words d"
  "ld_frames_new (with_note d idx scratch dup dropped) = ld_frames_new d"
  "pend_ok b ids (with_note d idx scratch dup dropped) = pend_ok b ids d"
  "same_stream d (with_note d idx scratch dup dropped)"
  "known (with_note d idx scratch dup dropped) = known d" "pending_of (with_note d idx scratch dup dropped) = pending_of d"
  "dec_blocks (with_note d idx scratch dup dropped) = dec_blocks d"
  by (simp_all add: with_note_def solved_off_def live_def elems_of_def off_of_def fun_eq_iff static_ok_def
      pend_ok_def same_stream_def known_def pending_of_def dec_blocks_def)

lemma with_note_ok [simp]:
  "peel_of (with_note d idx scratch dup dropped) [] = peel_of d []"
  "recv_ok (with_note d idx scratch dup dropped) = recv_ok d"
proof -
  have "owner_off (with_note d idx scratch dup dropped) [] x = owner_off d [] x" for x by (cases x) simp_all
  then have "owners_ok (with_note d idx scratch dup dropped) [] = owners_ok d []" by (simp add: owners_ok_def)
  then show "peel_of (with_note d idx scratch dup dropped) [] = peel_of d []"
    "recv_ok (with_note d idx scratch dup dropped) = recv_ok d"
    by (simp_all add: peel_of_def work_of_def recv_ok_def dec_ok_def eqs_of_def)
qed

lemma add_frame_rejects:
  assumes recv: "recv_ok d" and rej: "\<not> accepts d seq block"
  shows "\<exists>idx scratch. add_frame P d seq block = Some (with_note d idx scratch
      (if length block = ld_block_len d \<and> \<not> is_complete d \<and> seq \<in> set_elems (ld_seen d) then 1 else 0)
      (if length block \<noteq> ld_block_len d \<or> (\<not> is_complete d \<and> seq \<notin> set_elems (ld_seen d)) then 1 else 0))"
proof -
  have ok: "dec_ok 0 [] d []" using recv by (simp add: recv_ok_def)
  have st: "static_ok d" and ls: "length (ld_solved d) = ld_k d" and so: "set_ok (ld_seen d)"
    using ok by (simp_all add: dec_ok_def)
  have same: "with_note d (ld_idx d) (ld_idx_scratch d) 0 0 = d"
    "with_note d (ld_idx d) (ld_idx_scratch d) 1 0 = d\<lparr>ld_frames_dup := ld_frames_dup d + 1\<rparr>"
    "with_note d (ld_idx d) (ld_idx_scratch d) 0 1 = d\<lparr>ld_frames_dropped := ld_frames_dropped d + 1\<rparr>"
    by (simp_all add: with_note_def)
  have dup: "set_contains (ld_seen d) seq = Some (seq \<in> set_elems (ld_seen d))" using u32s.contains_elems [OF so] .
  consider (len) "length block \<noteq> ld_block_len d" | (full) "length block = ld_block_len d" "is_complete d"
    | (again) "length block = ld_block_len d" "\<not> is_complete d" "seq \<in> set_elems (ld_seen d)"
    | (over) "length block = ld_block_len d" "\<not> is_complete d" "seq \<notin> set_elems (ld_seen d)" "\<not> within_limits d seq"
    using rej unfolding accepts_def by blast
  then show ?thesis
  proof cases
    case len
    then show ?thesis using same(3)
      by (intro exI [of _ "ld_idx d"] exI [of _ "ld_idx_scratch d"]) (simp add: add_frame_def)
  next
    case full
    then show ?thesis using same(1)
      by (intro exI [of _ "ld_idx d"] exI [of _ "ld_idx_scratch d"]) (simp add: add_frame_def)
  next
    case again
    then show ?thesis using same(2) dup
      by (intro exI [of _ "ld_idx d"] exI [of _ "ld_idx_scratch d"]) (simp add: add_frame_def)
  next
    case over
    obtain scratch where idx: "decoder_indices d seq = Some (dec_blocks d seq, scratch)"
      using decoder_indices_eq [OF st] by blast
    have rng: "\<forall>b \<in> set (dec_blocks d seq). unat b < length (ld_solved d)"
      using dec_blocks_range(1) [OF st, of seq] ls by (simp add: block_set_def)
    have keep: "keep_unsolved (ld_solved d) (dec_blocks d seq) = Some (unsolved_of d seq)"
      using keep_unsolved_eq [OF rng] by (simp add: unsolved_of_def)
    have lim: "ld_max_arena_words d < saturating_add (length (ld_arena d)) (ld_words d) \<or>
        ld_max_pending_edges d < saturating_add (ld_pending_edges d)
          (if 1 < length (unsolved_of d seq) then length (unsolved_of d seq) else 0)"
      using over(4) arena_room [OF st] unfolding within_limits_def by blast
    have "add_frame P d seq block = Some (with_note d (dec_blocks d seq) scratch 0 1)"
      using over(1-3) dup idx keep lim by (simp add: add_frame_def Let_def with_note_def)
    then show ?thesis using over by auto
  qed
qed

section \<open>The invariant is kept\<close>

lemma eqs_of_insert:
  "same_stream d d' \<Longrightarrow> set_elems (ld_seen d') = insert seq (set_elems (ld_seen d)) \<Longrightarrow>
   eqs_of d' = insert (eqn_of d seq) (eqs_of d)"
  using same_stream_blocks [of d d'] by (simp add: eqs_of_def eqn_of_def)

lemma step_result_recv:
  assumes recv: "recv_ok d" and acc: "accepts d seq block" and step: "step_result d seq v d'"
  shows "recv_ok d'"
proof -
  have s: "dec_ok 0 [] d' []" "absorbs d seq v d'" "same_stream d d'"
    "set_elems (ld_seen d') = insert seq (set_elems (ld_seen d))" "ld_frames_new d' = ld_frames_new d + 1"
    "length (ld_arena d') = length (ld_arena d) + (if unsolved_of d seq = [] then 0 else ld_words d)"
    "ld_pending_edges d' = ld_pending_edges d + (if 1 < length (unsolved_of d seq) then length (unsolved_of d seq) else 0)"
    "length (ld_frames d') = length (ld_frames d) + (if 1 < length (unsolved_of d seq) then 1 else 0)"
    using step by (simp_all add: step_result_def)
  have a: "seq \<notin> set_elems (ld_seen d)" "within_limits d seq" using acc by (simp_all add: accepts_def)
  have r: "tracks (eqs_of d) (peel_of d [])" "ld_words d dvd length (ld_arena d)"
    "2 * length (ld_frames d) \<le> ld_pending_edges d" "ld_frames_new d = card (set_elems (ld_seen d))"
    "length (ld_arena d) \<le> ld_frames_new d * ld_words d" "length (ld_arena d) \<le> ld_max_arena_words d"
    using recv unfolding recv_ok_def by blast+
  have m: "ld_words d' = ld_words d" "ld_max_arena_words d' = ld_max_arena_words d"
    "ld_max_pending_edges d' = ld_max_pending_edges d" using s(3) by (simp_all add: same_stream_def)
  have "tracks (eqs_of d') (peel_of d' [])"
    unfolding eqs_of_insert [OF s(3,4)] by (rule absorbs_tracks [OF s(2) r(1)])
  moreover have "ld_words d' dvd length (ld_arena d')" using r(2) s(6) m by simp
  moreover have "length (ld_arena d') \<le> ld_max_arena_words d'" "ld_pending_edges d' \<le> ld_max_pending_edges d'"
    using a(2) s(6,7) r(6) m by (auto simp: within_limits_def)
  moreover have "2 * length (ld_frames d') \<le> ld_pending_edges d'" using r(3) s(7,8) by simp
  moreover have "ld_frames_new d' = card (set_elems (ld_seen d'))"
    using r(4) s(4,5) a(1) finite_set_elems by simp
  moreover have "length (ld_arena d') \<le> ld_frames_new d' * ld_words d'" using r(5) s(5,6) m by simp
  ultimately show ?thesis using s(1) by (simp add: recv_ok_def)
qed

lemma add_frame_recv:
  assumes "recv_ok d"
  shows "\<exists>d'. add_frame P d seq block = Some d' \<and> recv_ok d' \<and> same_stream d d' \<and>
    set_elems (ld_seen d') = (if accepts d seq block then insert seq (set_elems (ld_seen d)) else set_elems (ld_seen d)) \<and>
    (if accepts d seq block
     then absorbs d seq (cancel_known d (block_words (ld_words d) (ld_block_len d) block) (dec_blocks d seq)) d'
     else peel_of d' [] = peel_of d [])"
proof (cases "accepts d seq block")
  case True
  from add_frame_accepts [OF assms True, of P] obtain d' where d': "add_frame P d seq block = Some d'"
    "step_result d seq (cancel_known d (block_words (ld_words d) (ld_block_len d) block) (dec_blocks d seq)) d'" by blast
  then show ?thesis using True step_result_recv [OF assms True d'(2)]
    by (intro exI [of _ d']) (simp add: step_result_def)
next
  case False
  from add_frame_rejects [OF assms False, of P] obtain idx scratch dup dropped where
    "add_frame P d seq block = Some (with_note d idx scratch dup dropped)" by blast
  then show ?thesis using False assms by simp
qed

section \<open>A new decoder\<close>

definition stream_ok :: "usize \<Rightarrow> usize \<Rightarrow> usize \<Rightarrow> bool" where
  "stream_ok k block_len total_len \<longleftrightarrow> 0 < k \<and> k \<le> MAX_SOURCE_BLOCKS \<and> 0 < block_len \<and> block_len \<le> 0xffff \<and>
     0 < total_len \<and> total_len \<le> MAX_STREAM_BYTES \<and> k = div_ceil total_len block_len"

lemma saturating_mul_small: "a * b \<le> usize_max \<Longrightarrow> saturating_mul a b = a * b"
  by (simp add: saturating_mul_def)

lemma new_decoder_ok:
  assumes s: "stream_ok k bl total_len" and sys: "sys = 0 \<or> sys = k"
  shows "\<exists>d. decoder_with_mode P k bl session total_len sys causal = Some (Inr d) \<and> recv_ok d \<and>
    ld_k d = k \<and> ld_block_len d = bl \<and> ld_total_len d = total_len \<and> ld_session_id d = session \<and>
    ld_sys_span d = sys \<and> ld_causal d = causal \<and> degree_cdf_new P k = Some (ld_cdf d) \<and>
    set_elems (ld_seen d) = {} \<and> peel_of d [] = (Map.empty, Map.empty, []) \<and> ld_pending_edges d = 0"
proof -
  have p: "0 < k" "k \<le> 0xffff" "0 < bl" "bl \<le> 0xffff" "0 < total_len" "total_len \<le> MAX_STREAM_BYTES"
    "k = div_ceil total_len bl" using s by (simp_all add: stream_ok_def MAX_SOURCE_BLOCKS_def)
  obtain dc where dc: "degree_cdf_new P k = Some dc" "degree_cdf_ok dc" "soliton_cdf P k = Some (dc_cdf dc)"
    "degree_cdf_k dc = k" using degree_cdf_new_ok [OF small_k] s unfolding stream_ok_def by blast
  let ?w = "div_ceil bl 4"
  have "k * ?w \<le> 0xffff * 0xffff" using p(2) words_bound [OF p(4)] by (intro mult_mono) simp_all
  then have sat: "saturating_mul (saturating_mul k ?w) 4 = 4 * (k * ?w)"
    "saturating_mul k MAX_PENDING_EDGES_PER_BLOCK = 64 * k"
    using p(2) by (simp_all add: saturating_mul_small usize_max_def MAX_PENDING_EDGES_PER_BLOCK_def)
  define d where "d = \<lparr>ld_k = k, ld_block_len = bl, ld_words = ?w, ld_session_id = session,
          ld_total_len = total_len, ld_sys_span = sys, ld_causal = causal, ld_cdf = dc,
          ld_solved = replicate k None, ld_solved_count = 0, ld_frames = [],
          ld_by_block = replicate k [], ld_seen = set_with_capacity k, ld_idx = [],
          ld_idx_scratch = [], ld_arena = [], ld_max_arena_words = 4 * (k * ?w),
          ld_max_pending_edges = 64 * k,
          ld_pending_edges = 0, ld_frames_new = 0, ld_frames_dup = 0, ld_frames_dropped = 0\<rparr>"
  have run: "decoder_with_mode P k bl session total_len sys causal = Some (Inr d)"
    using s p(5-7) dc(1) sat by (simp add: decoder_with_mode_def stream_ok_def d_def Let_def)
  have st: "static_ok d"
    using s sys dc(2,4) soliton_cdf_good [OF dc(3)] by (auto simp: static_ok_def stream_ok_def d_def)
  have none: "solved_off d = Map.empty" "\<not> live d f" for f
    by (auto simp: d_def solved_off_def live_def)
  have "owner_off d [] x = None" for x using none by (cases x) simp_all
  then have own: "owners_ok d []" by (simp add: owners_ok_def)
  have "pend_ok 0 [] d" using none by (simp add: pend_ok_def) (simp add: d_def)
  then have dec: "dec_ok 0 [] d []"
    using st own with_capacity_spec(1) [of k] none by (simp add: dec_ok_def) (simp add: d_def)
  have abs: "peel_of d [] = (Map.empty, Map.empty, [])"
    using none by (simp add: peel_of_def work_of_def known_def pending_of_def fun_eq_iff)
  have seen: "set_elems (ld_seen d) = {}" using with_capacity_spec(2) by (simp add: d_def)
  have "tracks (eqs_of d) (peel_of d [])" by (simp add: abs eqs_of_def seen tracks_def)
  moreover have "ld_arena d = []" "ld_frames d = []" "ld_pending_edges d = 0" "ld_frames_new d = 0" by (simp_all add: d_def)
  ultimately have "recv_ok d" using dec seen by (simp add: recv_ok_def)
  then show ?thesis using run abs seen dc(1) by (intro exI [of _ d]) (simp add: d_def)
qed

end
