(* ===== verification/Fountain.thy ===== *)
theory Fountain
  imports Receive
begin

text \<open>
  Whole transfers through the fountain layer (\<open>src/fountain.rs\<close>): a decoder fed any list of
  frames. \<open>feed\<close> folds \<open>add_frame\<close> over the list. The properties say that it never panics and
  stays within its memory limits, that what it knows is the peeling closure of what it accepted,
  that genuine frames assemble to the payload, and that the first phase of the causal and systematic
  modes completes in any order.
\<close>

section \<open>Feeding a decoder\<close>

fun feed :: "'m platform_scheme \<Rightarrow> lt_decoder \<Rightarrow> (u32 \<times> u8 list) list \<Rightarrow> lt_decoder option" where
  "feed P d [] = Some d"
| "feed P d ((seq, block) # fs) = do { d \<leftarrow> add_frame P d seq block; feed P d fs }"

lemma feed_recv:
  assumes "recv_ok d"
  shows "\<exists>d'. feed P d fs = Some d' \<and> recv_ok d' \<and> same_stream d d' \<and>
    set_elems (ld_seen d) \<subseteq> set_elems (ld_seen d') \<and>
    set_elems (ld_seen d') \<subseteq> set_elems (ld_seen d) \<union> fst ` set fs"
  using assms
proof (induction fs arbitrary: d)
  case Nil
  then show ?case by simp
next
  case (Cons f fs)
  obtain seq block where f: "f = (seq, block)" by (cases f)
  from add_frame_recv [OF Cons.prems, of P seq block] obtain d1 where d1:
    "add_frame P d seq block = Some d1" "recv_ok d1" "same_stream d d1"
    "set_elems (ld_seen d) \<subseteq> set_elems (ld_seen d1)" "set_elems (ld_seen d1) \<subseteq> insert seq (set_elems (ld_seen d))"
    by (auto split: if_splits)
  from Cons.IH [OF d1(2)] obtain d' where d':
    "feed P d1 fs = Some d'" "recv_ok d'" "same_stream d1 d'" "set_elems (ld_seen d1) \<subseteq> set_elems (ld_seen d')"
    "set_elems (ld_seen d') \<subseteq> set_elems (ld_seen d1) \<union> fst ` set fs" by blast
  have "set_elems (ld_seen d') \<subseteq> set_elems (ld_seen d) \<union> fst ` set (f # fs)"
    using d1(5) d'(5) unfolding f by auto
  then show ?case
    using d1 d' same_stream_trans [OF d1(3) d'(3)] unfolding f by auto
qed

section \<open>What a decoder knows\<close>

lemma dom_known: "b \<in> dom (known d) \<longleftrightarrow> b < length (ld_solved d) \<and> ld_solved d ! b \<noteq> None"
  by (auto simp: known_def solved_off_def split: if_splits)

lemma recv_closure:
  assumes "recv_ok d"
  shows "dom (known d) = peelable (eqs_of d)" and "ld_solved_count d = card (dom (known d))"
    and "dom (known d) \<subseteq> {..<ld_k d}" and "is_complete d \<longleftrightarrow> dom (known d) = {..<ld_k d}"
proof -
  have ok: "dec_ok 0 [] d []" using assms by (simp add: recv_ok_def)
  have "tracks (eqs_of d) (known d, pending_of d, [])" using assms by (simp add: recv_ok_def peel_of_def work_of_def)
  then show "dom (known d) = peelable (eqs_of d)" by (rule tracks_complete)
  have dom: "dom (known d) = {c. solved_off d c \<noteq> None}" by (auto simp: known_def)
  show cnt: "ld_solved_count d = card (dom (known d))" using ok unfolding dom dec_ok_def by blast
  show sub: "dom (known d) \<subseteq> {..<ld_k d}" unfolding dom by (rule solved_below [OF ok])
  show "is_complete d \<longleftrightarrow> dom (known d) = {..<ld_k d}"
  proof
    assume "is_complete d"
    then have "card {..<ld_k d} \<le> card (dom (known d))" by (simp add: is_complete_def cnt)
    with card_seteq [OF finite_lessThan sub] show "dom (known d) = {..<ld_k d}" by blast
  qed (simp add: is_complete_def cnt)
qed

text \<open>Every known block occupies a slot of its own, so a decoder knows at most as many blocks as it
  has accepted frames.\<close>

lemma solved_le_frames:
  assumes "recv_ok d"
  shows "ld_solved_count d \<le> ld_frames_new d"
proof -
  have ok: "dec_ok 0 [] d []" and arena: "length (ld_arena d) \<le> ld_frames_new d * ld_words d"
    using assms unfolding recv_ok_def by blast+
  have own: "owners_ok d []" and w: "0 < ld_words d" using ok words_pos by (auto simp: dec_ok_def)
  let ?S = "{c. solved_off d c \<noteq> None}" and ?slot = "\<lambda>c. the (solved_off d c) div ld_words d"
  have al: "aligned (ld_words d) (ld_arena d) (the (solved_off d c))" if "c \<in> ?S" for c
    using owner_slot [OF own, of "Block c"] that by auto
  have "inj_on ?slot ?S"
  proof (rule inj_onI)
    fix a b assume ab: "a \<in> ?S" "b \<in> ?S" "?slot a = ?slot b"
    have "the (solved_off d a) = the (solved_off d b)"
      using al [OF ab(1)] al [OF ab(2)] ab(3) w by (auto simp: aligned_def elim!: dvdE)
    then show "a = b" using owner_inj [OF own, of "Block a" _ "Block b"] ab(1,2) by auto
  qed
  then have "card ?S = card (?slot ` ?S)" by (simp add: card_image)
  also have "\<dots> \<le> card {..<ld_frames_new d}"
  proof (rule card_mono)
    show "?slot ` ?S \<subseteq> {..<ld_frames_new d}"
    proof
      fix n assume "n \<in> ?slot ` ?S"
      then obtain c where c: "c \<in> ?S" "n = ?slot c" by blast
      have "the (solved_off d c) < ld_frames_new d * ld_words d"
        using al [OF c(1)] arena w by (simp add: aligned_def)
      then show "n \<in> {..<ld_frames_new d}" using c(2) by (simp add: less_mult_imp_div_less)
    qed
  qed simp
  finally show ?thesis using ok by (simp add: dec_ok_def)
qed

section \<open>Genuine frames\<close>

definition genuine :: "u8 list \<Rightarrow> lt_decoder \<Rightarrow> (u32 \<times> u8 list) list \<Rightarrow> bool" where
  "genuine payload d fs \<longleftrightarrow>
     (\<forall>(seq, block) \<in> set fs. block = frame_data payload (ld_block_len d) (dec_blocks d seq))"

lemma drop_xor_bytes: "drop n (xor_bytes a b) = xor_bytes (drop n a) (drop n b)"
  by (simp add: xor_bytes_def drop_map drop_zip)

lemma xor_bytes_zeros: "xor_bytes (replicate n 0) (replicate n 0) = replicate n 0"
  by (simp add: xor_bytes_def zip_replicate)

lemma fold_padding:
  assumes "\<And>b. words_as_bytes (X b) = C b @ replicate z 0" and "\<And>b. length (C b) = n" and "\<And>b. length (X b) = w"
    and "drop n (words_as_bytes acc) = replicate z 0" and "length acc = w"
  shows "drop n (words_as_bytes (foldl (\<lambda>acc b. xor_words acc (X (unat b))) acc bs)) = replicate z 0"
  using assms(4,5)
proof (induction bs arbitrary: acc)
  case (Cons b bs)
  have "words_as_bytes (xor_words acc (X (unat b))) = xor_bytes (words_as_bytes acc) (words_as_bytes (X (unat b)))"
    by (rule words_as_bytes_xor) (simp add: Cons.prems(2) assms(3))
  then have "drop n (words_as_bytes (xor_words acc (X (unat b)))) = replicate z 0"
    using Cons.prems(1) by (simp add: drop_xor_bytes assms(1,2) xor_bytes_zeros)
  then show ?case using Cons.IH [of "xor_words acc (X (unat b))"] Cons.prems(2) assms(3) by simp
qed simp

lemma genuine_words:
  assumes "w = div_ceil bl 4"
  shows "block_words w bl (frame_data payload bl bs) = xor_of (source_words payload bl) w bs"
proof -
  let ?x = "xor_of (source_words payload bl) w bs"
  have "drop bl (words_as_bytes ?x) = replicate (4 * w - bl) 0"
    unfolding xor_of_def
    by (rule fold_padding [where C = "source_chunk payload bl" and w = w])
      (simp_all add: source_words_bytes assms zero_word_bytes)
  moreover have "take bl (words_as_bytes ?x) = frame_data payload bl bs"
    by (simp add: frame_data_words assms)
  ultimately have "words_as_bytes ?x = frame_data payload bl bs @ replicate (4 * w - bl) 0"
    by (metis append_take_drop_id)
  then show ?thesis unfolding block_words_def by (metis bytes_as_words_of_words)
qed

lemma xor_of_set:
  assumes X: "\<And>b. length (X b) = w" and "distinct bs"
  shows "xor_of X w bs = xor_set X w (unat ` set bs)"
proof -
  have "foldl (\<lambda>acc b. xor_words acc (X b)) (xor_set X w {}) (map unat bs) = xor_set X w ({} \<union> set (map unat bs))"
    by (rule xor_set_fold [where X = X, OF X]) (use assms(2) unat_inj_on in \<open>simp_all add: distinct_map\<close>)
  then show ?thesis by (simp add: xor_of_def foldl_map)
qed

lemma genuine_step:
  assumes recv: "recv_ok d" and agr: "agrees (source_words payload (ld_block_len d)) (ld_words d) (peel_of d [])"
    and add: "add_frame P d seq (frame_data payload (ld_block_len d) (dec_blocks d seq)) = Some d'"
  shows "agrees (source_words payload (ld_block_len d)) (ld_words d) (peel_of d' [])"
proof -
  let ?X = "source_words payload (ld_block_len d)" and ?w = "ld_words d"
  have st: "static_ok d" using recv by (simp add: recv_ok_def dec_ok_def)
  have w: "?w = div_ceil (ld_block_len d) 4" using st by (simp add: static_ok_def)
  have X: "length (?X b) = ?w" for b by (simp add: w)
  have dist: "distinct (dec_blocks d seq)" using dec_blocks_range(1) [OF st] by (simp add: block_set_def)
  let ?block = "frame_data payload (ld_block_len d) (dec_blocks d seq)"
  let ?v = "cancel_known d (block_words ?w (ld_block_len d) ?block) (dec_blocks d seq)"
  have "?v = cancel_known d (xor_set ?X ?w (eqn_of d seq)) (dec_blocks d seq)"
    by (simp add: genuine_words [OF w] xor_of_set [where X = ?X, OF X dist] eqn_of_def)
  also have "\<dots> = xor_set ?X ?w (eqn_of d seq - (unat ` set (dec_blocks d seq) \<inter> dom (known d)))"
    by (rule cancel_known_value [where X = ?X, OF X agr dist]) (simp_all add: eqn_of_def)
  also have "eqn_of d seq - (unat ` set (dec_blocks d seq) \<inter> dom (known d)) = eqn_of d seq - dom (known d)"
    by (auto simp: eqn_of_def)
  finally have v: "?v = xor_set ?X ?w (eqn_of d seq - dom (known d))" .
  show ?thesis
  proof (cases "accepts d seq ?block")
    case True
    then have "absorbs d seq ?v d'" using add_frame_recv [OF recv, of P seq ?block] add by simp
    from absorbs_agrees [where X = ?X, OF X this agr v] show ?thesis .
  next
    case False
    then have "peel_of d' [] = peel_of d []" using add_frame_recv [OF recv, of P seq ?block] add by simp
    with agr show ?thesis by simp
  qed
qed

lemma feed_genuine:
  assumes "recv_ok d" and "genuine payload d fs" and "feed P d fs = Some d'"
    and "agrees (source_words payload (ld_block_len d)) (ld_words d) (peel_of d [])"
  shows "agrees (source_words payload (ld_block_len d)) (ld_words d) (peel_of d' [])"
  using assms
proof (induction fs arbitrary: d)
  case Nil
  then show ?case by simp
next
  case (Cons f fs)
  obtain seq block where f: "f = (seq, block)" by (cases f)
  have block: "block = frame_data payload (ld_block_len d) (dec_blocks d seq)"
    using Cons.prems(2) by (simp add: genuine_def f)
  from add_frame_recv [OF Cons.prems(1), of P seq block] obtain d1 where d1:
    "add_frame P d seq block = Some d1" "recv_ok d1" "same_stream d d1" by blast
  have same: "ld_block_len d1 = ld_block_len d" "ld_words d1 = ld_words d" using d1(3) by (simp_all add: same_stream_def)
  have "agrees (source_words payload (ld_block_len d)) (ld_words d) (peel_of d1 [])"
    using genuine_step [OF Cons.prems(1,4)] d1(1) block by blast
  moreover have "genuine payload d1 fs"
    using Cons.prems(2) same_stream_blocks [OF d1(3)] same by (simp add: genuine_def f)
  moreover have "feed P d1 fs = Some d'" using Cons.prems(3) d1(1) by (simp add: f)
  ultimately show ?case using Cons.IH [OF d1(2)] same by simp
qed

section \<open>Assembly\<close>

definition chunk_of :: "lt_decoder \<Rightarrow> usize \<Rightarrow> u8 list" where
  "chunk_of d b = take (min (ld_block_len d) (ld_total_len d - b * ld_block_len d)) (words_as_bytes (the (known d b)))"

lemma last_block_bound:
  assumes "0 < bl" and "k = div_ceil n bl" and "b < k"
  shows "b * bl < n" and "n \<le> k * bl"
  using div_ceil_lt_mult [OF assms(1), of b n] div_ceil_mult_ge [OF assms(1), of n] assms by simp_all

lemma length_chunks:
  assumes "\<And>b. b < n \<Longrightarrow> length (C b) = min bl (total_len - b * bl)"
  shows "length (concat (map C [0..<n])) = min (n * bl) total_len"
  using assms
proof (induction n)
  case (Suc n)
  then have "length (concat (map C [0..<n])) = min (n * bl) total_len" by simp
  moreover have "length (C n) = min bl (total_len - n * bl)" using Suc.prems by simp
  ultimately show ?case by simp
qed simp

lemma chunk_known:
  assumes "recv_ok d" and "solved_off d b = Some off" and "b < ld_k d"
  shows "aligned (ld_words d) (ld_arena d) off" and "the (known d b) = slot_at (ld_words d) (ld_arena d) off"
    and "length (chunk_of d b) = min (ld_block_len d) (ld_total_len d - b * ld_block_len d)"
    and "b * ld_block_len d < ld_total_len d" and "ld_block_len d \<le> 4 * ld_words d"
proof -
  have ok: "dec_ok 0 [] d []" using assms(1) by (simp add: recv_ok_def)
  then have st: "static_ok d" and own: "owners_ok d []" by (simp_all add: dec_ok_def)
  show al: "aligned (ld_words d) (ld_arena d) off" using owner_slot [OF own, of "Block b"] assms(2) by simp
  show kn: "the (known d b) = slot_at (ld_words d) (ld_arena d) off" using assms(2) by (simp add: known_def)
  show le: "ld_block_len d \<le> 4 * ld_words d" using padded_block st by (simp add: static_ok_def)
  then show "length (chunk_of d b) = min (ld_block_len d) (ld_total_len d - b * ld_block_len d)"
    using al by (simp add: chunk_of_def kn)
  show "b * ld_block_len d < ld_total_len d"
    using last_block_bound(1) [OF _ _ assms(3)] st by (simp add: static_ok_def)
qed

lemma place_blocks_run:
  assumes recv: "recv_ok d" and full: "dom (known d) = {..<ld_k d}"
  shows "b \<le> ld_k d \<Longrightarrow> length rest = ld_total_len d - b * ld_block_len d \<Longrightarrow>
    place_blocks d b (drop b (ld_solved d)) (concat (map (chunk_of d) [0..<b]) @ rest) =
      Some (concat (map (chunk_of d) [0..<ld_k d]))"
proof (induction "ld_k d - b" arbitrary: b rest)
  case 0
  have st: "static_ok d" and "length (ld_solved d) = ld_k d" using recv by (simp_all add: recv_ok_def dec_ok_def)
  moreover have "ld_total_len d \<le> ld_k d * ld_block_len d"
    using st div_ceil_mult_ge [of "ld_block_len d" "ld_total_len d"] by (simp add: static_ok_def)
  ultimately show ?case using 0 by simp
next
  case (Suc n)
  then have b: "b < ld_k d" by simp
  have ls: "length (ld_solved d) = ld_k d" using recv by (simp add: recv_ok_def dec_ok_def)
  have "b \<in> dom (known d)" using full b by simp
  then obtain off where off: "solved_off d b = Some off" by (auto simp: known_def)
  note c = chunk_known [OF recv off b]
  let ?bl = "ld_block_len d" and ?total = "ld_total_len d" and ?done = "concat (map (chunk_of d) [0..<b])"
  have split: "drop b (ld_solved d) = Some off # drop (Suc b) (ld_solved d)"
    using b ls off Cons_nth_drop_Suc [of b "ld_solved d"] by (simp add: solved_off_def split: if_splits)
  have each: "length (chunk_of d i) = min ?bl (?total - i * ?bl)" if "i < ld_k d" for i
  proof -
    have "i \<in> dom (known d)" using full that by simp
    then obtain o' where "solved_off d i = Some o'" by (auto simp: known_def)
    then show ?thesis using chunk_known(3) [OF recv _ that] by blast
  qed
  have len: "length ?done = b * ?bl" using length_chunks [of b "chunk_of d" ?bl ?total] each b c(4) by simp
  let ?len = "min ?bl (?total - b * ?bl)"
  have words: "slice (ld_arena d) off (off + ld_words d) = Some (the (known d b))"
    using c(1,2) by (simp add: slice_def aligned_def slot_at_def)
  have src: "slice (words_as_bytes (the (known d b))) 0 ?len = Some (chunk_of d b)"
    using c(1,2,5) by (simp add: slice_def chunk_of_def)
  have "splice (?done @ rest) (b * ?bl) (chunk_of d b) = Some (?done @ chunk_of d b @ drop ?len rest)"
    using len each [OF b] Suc.prems(2) by (simp add: splice_def)
  then have "place_blocks d b (drop b (ld_solved d)) (?done @ rest) =
      place_blocks d (Suc b) (drop (Suc b) (ld_solved d)) (?done @ chunk_of d b @ drop ?len rest)"
    using words src c(4) by (simp add: split checked_sub_def Let_def)
  also have "?done @ chunk_of d b @ drop ?len rest = concat (map (chunk_of d) [0..<Suc b]) @ drop ?len rest"
    by simp
  also have "place_blocks d (Suc b) (drop (Suc b) (ld_solved d)) \<dots> = Some (concat (map (chunk_of d) [0..<ld_k d]))"
    by (rule Suc.hyps(1)) (use Suc b in \<open>auto simp: min_def\<close>)
  finally show ?case .
qed

lemma assemble_eq:
  assumes "recv_ok d"
  shows "assemble d = Some (if dom (known d) = {..<ld_k d} then Some (concat (map (chunk_of d) [0..<ld_k d])) else None)"
  using recv_closure(4) [OF assms] place_blocks_run [OF assms, of 0 "replicate (ld_total_len d) 0"]
  by (simp add: assemble_def)

lemma assemble_length:
  assumes "recv_ok d" and "dom (known d) = {..<ld_k d}"
  shows "length (concat (map (chunk_of d) [0..<ld_k d])) = ld_total_len d"
proof -
  have "length (chunk_of d i) = min (ld_block_len d) (ld_total_len d - i * ld_block_len d)" if "i < ld_k d" for i
  proof -
    have "i \<in> dom (known d)" using assms(2) that by simp
    then obtain o' where "solved_off d i = Some o'" by (auto simp: known_def)
    then show ?thesis using chunk_known(3) [OF assms(1) _ that] by blast
  qed
  from length_chunks [of "ld_k d" "chunk_of d", OF this]
  have "length (concat (map (chunk_of d) [0..<ld_k d])) = min (ld_k d * ld_block_len d) (ld_total_len d)" .
  moreover have "ld_total_len d \<le> ld_k d * ld_block_len d"
    using last_block_bound(2) [of "ld_block_len d" "ld_k d" "ld_total_len d" 0] assms(1)
    by (simp add: recv_ok_def dec_ok_def static_ok_def)
  ultimately show ?thesis by simp
qed

lemma chunks_payload: "concat (map (\<lambda>b. take bl (drop (b * bl) xs)) [0..<n]) = take (n * bl) xs"
proof (induction n)
  case (Suc n)
  have "take (n * bl) xs @ take bl (drop (n * bl) xs) = take (n * bl + bl) xs" by (simp add: take_add)
  with Suc show ?case by (simp add: add.commute)
qed simp

lemma genuine_assemble:
  assumes recv: "recv_ok d" and agr: "agrees (source_words payload (ld_block_len d)) (ld_words d) (peel_of d [])"
    and len: "length payload = ld_total_len d" and full: "dom (known d) = {..<ld_k d}"
  shows "assemble d = Some (Some payload)"
proof -
  have st: "static_ok d" using recv by (simp add: recv_ok_def dec_ok_def)
  let ?bl = "ld_block_len d"
  have "chunk_of d b = take ?bl (drop (b * ?bl) payload)" if b: "b < ld_k d" for b
  proof -
    have "b \<in> dom (known d)" using full b by simp
    then have "the (known d b) = source_words payload ?bl b" using agr by (auto simp: agrees_def peel_of_def)
    moreover have "b * ?bl < length payload" using last_block_bound(1) [OF _ _ b] st len by (simp add: static_ok_def)
    ultimately show ?thesis
      by (simp add: chunk_of_def source_words_bytes source_chunk_def len Let_def min_def)
  qed
  then have "map (chunk_of d) [0..<ld_k d] = map (\<lambda>b. take ?bl (drop (b * ?bl) payload)) [0..<ld_k d]"
    by (intro map_cong) simp_all
  then have "concat (map (chunk_of d) [0..<ld_k d]) = concat (map (\<lambda>b. take ?bl (drop (b * ?bl) payload)) [0..<ld_k d])"
    by (rule arg_cong)
  also have "\<dots> = payload"
    using last_block_bound(2) [of ?bl "ld_k d" "length payload" 0] st len
    by (simp add: chunks_payload static_ok_def)
  finally show ?thesis using assemble_eq [OF recv] full by simp
qed

section \<open>Room in the decoder\<close>

text \<open>The sequence numbers \<open>S\<close> fit the limits of a decoder of \<open>k\<close> blocks, whatever their order.\<close>

definition roomy :: "usize \<Rightarrow> (u32 \<Rightarrow> nat set) \<Rightarrow> u32 set \<Rightarrow> bool" where
  "roomy k E S \<longleftrightarrow> card S \<le> 4 * k \<and> (\<Sum>q\<in>S. card (E q)) \<le> 64 * k"

definition room_ok :: "lt_decoder \<Rightarrow> bool" where
  "room_ok d \<longleftrightarrow> recv_ok d \<and> ld_pending_edges d \<le> (\<Sum>q\<in>set_elems (ld_seen d). card (eqn_of d q))"

lemma recv_arena: "recv_ok d \<Longrightarrow> length (ld_arena d) \<le> card (set_elems (ld_seen d)) * ld_words d"
  unfolding recv_ok_def by metis

lemma roomy_subset: "roomy k E T \<Longrightarrow> S \<subseteq> T \<Longrightarrow> roomy k E S"
  unfolding roomy_def
  by (meson card_mono finite order_trans sum_mono2 zero_le)

lemma unsolved_degree:
  assumes "static_ok d"
  shows "length (unsolved_of d seq) \<le> card (eqn_of d seq)"
proof -
  have "card (eqn_of d seq - dom (known d)) \<le> card (eqn_of d seq)" by (simp add: card_mono eqn_of_def)
  then show ?thesis using unsolved_facts(4) [OF assms, of seq] by simp
qed

lemma room_accepts:
  assumes ok: "room_ok d" and room: "roomy (ld_k d) (eqn_of d) (insert seq (set_elems (ld_seen d)))"
    and len: "length block = ld_block_len d" and new: "seq \<notin> set_elems (ld_seen d)" "\<not> is_complete d"
  shows "accepts d seq block"
proof -
  let ?S = "set_elems (ld_seen d)"
  have recv: "recv_ok d" and st: "static_ok d" and pend: "ld_pending_edges d \<le> (\<Sum>q\<in>?S. card (eqn_of d q))"
    using ok by (auto simp: room_ok_def recv_ok_def dec_ok_def)
  have "length (ld_arena d) + ld_words d \<le> (card ?S + 1) * ld_words d" using recv_arena [OF recv] by simp
  also have "\<dots> \<le> 4 * ld_k d * ld_words d"
    by (rule mult_le_mono1) (use room new(1) in \<open>simp add: roomy_def finite_set_elems\<close>)
  finally have arena: "length (ld_arena d) + ld_words d \<le> ld_max_arena_words d" using st by (simp add: static_ok_def)
  have "(\<Sum>q\<in>?S. card (eqn_of d q)) + card (eqn_of d seq) \<le> 64 * ld_k d"
    using room new(1) by (simp add: roomy_def finite_set_elems)
  then have "ld_pending_edges d + length (unsolved_of d seq) \<le> 64 * ld_k d"
    using pend unsolved_degree [OF st, of seq] by linarith
  then show ?thesis using arena len new st by (auto simp: accepts_def within_limits_def static_ok_def)
qed

lemma room_step:
  assumes ok: "room_ok d" and add: "add_frame P d seq block = Some d'"
  shows "room_ok d'" and "same_stream d d'"
    and "set_elems (ld_seen d') = (if accepts d seq block then insert seq (set_elems (ld_seen d)) else set_elems (ld_seen d))"
proof -
  have recv: "recv_ok d" and pend: "ld_pending_edges d \<le> (\<Sum>q\<in>set_elems (ld_seen d). card (eqn_of d q))"
    using ok by (simp_all add: room_ok_def)
  have st: "static_ok d" using recv by (simp add: recv_ok_def dec_ok_def)
  from add_frame_recv [OF recv, of P seq block] add have d': "recv_ok d'" and same: "same_stream d d'"
    and seen: "set_elems (ld_seen d') = (if accepts d seq block then insert seq (set_elems (ld_seen d)) else set_elems (ld_seen d))"
    by auto
  have eqn: "eqn_of d' = eqn_of d" using same_stream_blocks [OF same] by (simp add: eqn_of_def fun_eq_iff)
  have "ld_pending_edges d' \<le> (\<Sum>q\<in>set_elems (ld_seen d'). card (eqn_of d' q))"
  proof (cases "accepts d seq block")
    case True
    from add_frame_accepts [OF recv True, of P] add obtain v where "step_result d seq v d'" by auto
    then have "ld_pending_edges d' \<le> ld_pending_edges d + length (unsolved_of d seq)" by (simp add: step_result_def)
    also have "\<dots> \<le> (\<Sum>q\<in>set_elems (ld_seen d). card (eqn_of d q)) + card (eqn_of d seq)"
      by (rule add_mono [OF pend unsolved_degree [OF st]])
    finally show ?thesis using True seen by (simp add: eqn accepts_def finite_set_elems)
  next
    case False
    from add_frame_rejects [OF recv False, of P] add have "ld_pending_edges d' = ld_pending_edges d" by auto
    then show ?thesis using pend seen False by (simp add: eqn)
  qed
  then show "room_ok d'" using d' by (simp add: room_ok_def)
  show "same_stream d d'" by (rule same)
  show "set_elems (ld_seen d') = (if accepts d seq block then insert seq (set_elems (ld_seen d)) else set_elems (ld_seen d))"
    by (rule seen)
qed

section \<open>The numbers a decoder has caught\<close>

definition caught :: "u32 set \<Rightarrow> lt_decoder \<Rightarrow> bool" where
  "caught S d \<longleftrightarrow> room_ok d \<and> set_elems (ld_seen d) \<subseteq> S \<and> (is_complete d \<or> S \<subseteq> set_elems (ld_seen d))"

lemma complete_stays:
  assumes "recv_ok d" and "recv_ok d'" and "same_stream d d'" and "set_elems (ld_seen d) \<subseteq> set_elems (ld_seen d')"
    and "is_complete d"
  shows "is_complete d'"
proof -
  have "eqs_of d \<subseteq> eqs_of d'" using assms(4) same_stream_blocks [OF assms(3)] by (auto simp: eqs_of_def)
  from peelable_mono [OF this] have "dom (known d) \<subseteq> dom (known d')"
    by (simp add: recv_closure(1) [OF assms(1)] recv_closure(1) [OF assms(2)])
  moreover have "ld_k d' = ld_k d" using assms(3) by (simp add: same_stream_def)
  ultimately show ?thesis
    using assms(5) recv_closure(3) [OF assms(2)]
    by (simp add: recv_closure(4) [OF assms(1)] recv_closure(4) [OF assms(2)])
qed

lemma caught_step:
  assumes c: "caught S d" and room: "roomy (ld_k d) (eqn_of d) (insert seq S)"
    and len: "length block = ld_block_len d" and add: "add_frame P d seq block = Some d'"
  shows "caught (insert seq S) d'"
proof -
  have ok: "room_ok d" and sub: "set_elems (ld_seen d) \<subseteq> S"
    and all: "is_complete d \<or> S \<subseteq> set_elems (ld_seen d)" using c by (simp_all add: caught_def)
  note step = room_step [OF ok add]
  have recv: "recv_ok d" "recv_ok d'" using ok step(1) by (simp_all add: room_ok_def)
  have "roomy (ld_k d) (eqn_of d) (insert seq (set_elems (ld_seen d)))"
    by (rule roomy_subset [OF room]) (use sub in blast)
  from room_accepts [OF ok this len]
  have acc: "is_complete d \<or> seq \<in> set_elems (ld_seen d) \<or> accepts d seq block" by blast
  have grow: "set_elems (ld_seen d) \<subseteq> set_elems (ld_seen d')" using step(3) by auto
  have "is_complete d' \<or> insert seq S \<subseteq> set_elems (ld_seen d')"
    using complete_stays [OF recv step(2) grow] all acc step(3) by auto
  then show ?thesis using step(1,3) sub by (auto simp: caught_def)
qed

lemma caught_complete:
  assumes "caught S d"
  shows "is_complete d \<longleftrightarrow> {..<ld_k d} \<subseteq> peelable (eqn_of d ` S)"
proof -
  have recv: "recv_ok d" using assms by (simp add: caught_def room_ok_def)
  have eqs: "eqs_of d = eqn_of d ` set_elems (ld_seen d)" by (simp add: eqs_of_def eqn_of_def)
  note cl = recv_closure(1,3,4) [OF recv, unfolded eqs]
  show ?thesis
  proof
    assume "is_complete d"
    then show "{..<ld_k d} \<subseteq> peelable (eqn_of d ` S)"
      using peelable_mono [of "eqn_of d ` set_elems (ld_seen d)" "eqn_of d ` S"] assms cl
      by (auto simp: caught_def)
  next
    assume p: "{..<ld_k d} \<subseteq> peelable (eqn_of d ` S)"
    show "is_complete d"
    proof (rule ccontr)
      assume "\<not> is_complete d"
      moreover from this have "set_elems (ld_seen d) = S" using assms by (auto simp: caught_def)
      ultimately show False using p cl by auto
    qed
  qed
qed

lemma caught_feed:
  assumes "caught S d" and "roomy (ld_k d) (eqn_of d) (S \<union> fst ` set fs)"
    and "\<forall>(seq, block) \<in> set fs. length block = ld_block_len d"
  shows "\<exists>d'. feed P d fs = Some d' \<and> caught (S \<union> fst ` set fs) d' \<and> same_stream d d'"
  using assms
proof (induction fs arbitrary: d S)
  case Nil
  then show ?case by simp
next
  case (Cons f fs)
  obtain seq block where f: "f = (seq, block)" by (cases f)
  have room: "roomy (ld_k d) (eqn_of d) (insert seq S \<union> fst ` set fs)" using Cons.prems(2) f by simp
  have recv: "recv_ok d" using Cons.prems(1) by (simp add: caught_def room_ok_def)
  from add_frame_recv [OF recv, of P seq block] obtain d1 where d1: "add_frame P d seq block = Some d1" "same_stream d d1"
    by blast
  have "caught (insert seq S) d1"
    by (rule caught_step [OF Cons.prems(1) roomy_subset [OF room] _ d1(1)]) (use Cons.prems(3) f in auto)
  moreover have "eqn_of d1 = eqn_of d" using same_stream_blocks [OF d1(2)] by (simp add: eqn_of_def fun_eq_iff)
  ultimately obtain d' where "feed P d1 fs = Some d'" "caught (insert seq S \<union> fst ` set fs) d'" "same_stream d1 d'"
    using Cons.IH [of "insert seq S" d1] room Cons.prems(3) d1(2) by (auto simp: same_stream_def)
  then show ?case using d1 same_stream_trans [OF d1(2)] f by (intro exI [of _ d']) simp
qed

section \<open>The first phase\<close>

lemma phase_blocks:
  "unat seq < ld_sys_span d \<Longrightarrow>
   eqn_of d seq = (if ld_causal d \<and> seq \<noteq> 0 then {unat seq - 1, unat seq} else {unat seq})"
  by (simp add: eqn_of_def dec_blocks_def frame_blocks_def unat_minus_one)

lemma first_phase_roomy:
  assumes "ld_sys_span d = ld_k d" and "unat ` S \<subseteq> {..<ld_k d}"
  shows "roomy (ld_k d) (eqn_of d) S"
proof -
  have "card (unat ` S) \<le> card {..<ld_k d}" by (rule card_mono [OF finite_lessThan assms(2)])
  then have S: "card S \<le> ld_k d" by (simp add: card_image [OF unat_inj_on])
  have "card (eqn_of d q) \<le> 2" if "q \<in> S" for q
  proof -
    have "unat q < ld_sys_span d" using assms that by auto
    then show ?thesis by (simp add: phase_blocks card_insert_if)
  qed
  then have "(\<Sum>q\<in>S. card (eqn_of d q)) \<le> of_nat (card S) * 2" by (rule sum_bounded_above)
  then show ?thesis using S by (simp add: roomy_def)
qed

lemma first_phase_covers:
  assumes "ld_sys_span d = ld_k d" and "{..<ld_k d} \<subseteq> unat ` S"
  shows "{..<ld_k d} \<subseteq> peelable (eqn_of d ` S)"
proof -
  have "b \<in> peelable (eqn_of d ` S)" if "b < ld_k d" for b
    using that
  proof (induction b rule: less_induct)
    case (less b)
    then obtain s where s: "s \<in> S" "unat s = b" using assms(2) by auto
    have e: "eqn_of d s = (if ld_causal d \<and> s \<noteq> 0 then {b - 1, b} else {b})"
      using phase_blocks [of s d] s(2) less.prems assms(1) by simp
    have rest: "x \<in> peelable (eqn_of d ` S)" if "x \<in> eqn_of d s" "x \<noteq> b" for x
    proof -
      have "x = b - 1" "s \<noteq> 0" using that e by (auto split: if_splits)
      then have "x < b" using s(2) that(2) by simp
      then show ?thesis using less.IH [of x] less.prems by simp
    qed
    have "b \<in> eqn_of d s" using e by simp
    show ?case
    proof (rule peelable.intros)
      show "eqn_of d s \<in> eqn_of d ` S" using s(1) by (rule imageI)
    qed (fact \<open>b \<in> eqn_of d s\<close>, fact rest)
  qed
  then show ?thesis by blast
qed

lemma first_phase_feed:
  assumes "recv_ok d0" and "ld_sys_span d0 = ld_k d0" and "set_elems (ld_seen d0) = {}" and "ld_pending_edges d0 = 0"
    and "\<forall>(seq, block) \<in> set fs. unat seq < ld_k d0 \<and> length block = ld_block_len d0"
    and "{..<ld_k d0} \<subseteq> unat ` fst ` set fs"
  shows "\<exists>d. feed P d0 fs = Some d \<and> recv_ok d \<and> same_stream d0 d \<and> is_complete d"
proof -
  have start: "caught {} d0" using assms by (simp add: caught_def room_ok_def)
  have "roomy (ld_k d0) (eqn_of d0) ({} \<union> fst ` set fs)"
    by (rule first_phase_roomy) (use assms(2,5) in auto)
  from caught_feed [OF start this, of P] obtain d where d: "feed P d0 fs = Some d" "caught (fst ` set fs) d" "same_stream d0 d"
    using assms(5) by auto
  have "ld_sys_span d = ld_k d" "ld_k d = ld_k d0" using d(3) assms(2) by (simp_all add: same_stream_def)
  then have "is_complete d" using caught_complete [OF d(2)] first_phase_covers [of d] assms(6) by simp
  then show ?thesis using d by (auto simp: caught_def room_ok_def)
qed

section \<open>Rejected stream parameters\<close>

definition bad_stream :: "usize \<Rightarrow> usize \<Rightarrow> usize \<Rightarrow> error" where
  "bad_stream k block_len total_len =
     (if 0 < k \<and> k \<le> MAX_SOURCE_BLOCKS \<and> 0 < block_len \<and> block_len \<le> 0xffff \<and> MAX_STREAM_BYTES < total_len
      then TooLarge total_len MAX_STREAM_BYTES else InvalidStream)"

lemma bad_stream_error:
  assumes "\<not> stream_ok k block_len total_len"
  shows "decoder_with_mode P k block_len session_id total_len sys causal = Some (Inl (bad_stream k block_len total_len))"
  using assms by (auto simp: decoder_with_mode_def stream_ok_def bad_stream_def MAX_STREAM_BYTES_def)

section \<open>Properties\<close>

text \<open>The small stream of the instances.\<close>

lemma small_stream: "stream_ok 3 2 5"
  by (simp add: stream_ok_def MAX_SOURCE_BLOCKS_def MAX_STREAM_BYTES_def MAX_FILE_BYTES_def div_ceil_def)

text \<open>A decoder is built exactly for consistent stream parameters; otherwise its constructor
  returns the first error that applies.\<close>

theorem decoder_constructors:
  "decoder_try_new_causal P k block_len session_id total_len =
     (if stream_ok k block_len total_len
      then Some (Inr (the (decoder_new_causal P k block_len session_id total_len)))
      else Some (Inl (if 0 < k \<and> k \<le> MAX_SOURCE_BLOCKS \<and> 0 < block_len \<and> block_len \<le> 0xffff \<and>
          MAX_STREAM_BYTES < total_len
        then TooLarge total_len MAX_STREAM_BYTES else InvalidStream))) \<and>
   (stream_ok k block_len total_len = (\<exists>d. decoder_new P k block_len session_id total_len = Some d)) \<and>
   (stream_ok k block_len total_len = (\<exists>d. decoder_new_systematic P k block_len session_id total_len = Some d)) \<and>
   (stream_ok k block_len total_len = (\<exists>d. decoder_new_causal P k block_len session_id total_len = Some d))"
proof (cases "stream_ok k block_len total_len")
  case True
  have modes: "\<exists>d. decoder_with_mode P k block_len session_id total_len sys causal = Some (Inr d)"
    if "sys = 0 \<or> sys = k" for sys causal
    using new_decoder_ok [OF True that] by blast
  obtain d1 d2 d3 where "decoder_with_mode P k block_len session_id total_len k True = Some (Inr d1)"
    "decoder_with_mode P k block_len session_id total_len k False = Some (Inr d2)"
    "decoder_with_mode P k block_len session_id total_len 0 False = Some (Inr d3)"
    using modes [of k] modes [of 0] by blast
  with True show ?thesis
    by (simp add: decoder_try_new_causal_def decoder_new_causal_def decoder_new_systematic_def decoder_new_def
        decoder_try_new_systematic_def decoder_try_new_def expect_ok_def)
next
  case False
  note err = bad_stream_error [OF False, of P session_id]
  with False show ?thesis
    by (simp add: bad_stream_def decoder_try_new_causal_def decoder_new_causal_def decoder_new_systematic_def decoder_new_def
        decoder_try_new_systematic_def decoder_try_new_def expect_ok_def)
qed

text \<open>A decoder of any mode never panics and always returns, whatever frames arrive in whatever
  order, corrupt ones included; its arena stays within four blocks per source block, its pending
  equations within 64 edges per source block, and it never knows more blocks than it accepted
  frames.\<close>

theorem decoder_never_panics:
  assumes "stream_ok k block_len total_len" and "sys = 0 \<or> sys = k"
  shows "\<exists>d0 d. decoder_with_mode P k block_len session_id total_len sys causal = Some (Inr d0) \<and>
    feed Q d0 fs = Some d \<and> length (ld_arena d) \<le> 4 * (k * div_ceil block_len 4) \<and>
    2 * length (ld_frames d) \<le> ld_pending_edges d \<and> ld_pending_edges d \<le> 64 * k \<and>
    ld_solved_count d \<le> ld_frames_new d \<and> ld_solved_count d \<le> k \<and>
    (\<exists>out. assemble d = Some out \<and> (out = None) = (ld_solved_count d < k))"
proof -
  obtain d0 where d0: "decoder_with_mode P k block_len session_id total_len sys causal = Some (Inr d0)" "recv_ok d0"
    "ld_k d0 = k" "ld_block_len d0 = block_len" using new_decoder_ok [OF assms] by blast
  from feed_recv [OF d0(2), of Q fs] obtain d where d: "feed Q d0 fs = Some d" "recv_ok d" "same_stream d0 d" by blast
  have same: "ld_k d = k" "ld_block_len d = block_len" using d(3) d0(3,4) by (simp_all add: same_stream_def)
  have st: "static_ok d" using d(2) by (simp add: recv_ok_def dec_ok_def)
  have r: "length (ld_arena d) \<le> ld_max_arena_words d" "ld_pending_edges d \<le> ld_max_pending_edges d"
    "2 * length (ld_frames d) \<le> ld_pending_edges d" using d(2) unfolding recv_ok_def by blast+
  note cl = recv_closure [OF d(2)]
  have k: "ld_solved_count d \<le> k" using card_mono [OF finite_lessThan cl(3)] cl(2) same by simp
  have "(dom (known d) = {..<ld_k d}) = (\<not> ld_solved_count d < k)"
    using cl(4) same by (simp add: is_complete_def not_less)
  then have "\<exists>out. assemble d = Some out \<and> (out = None) = (ld_solved_count d < k)"
    unfolding assemble_eq [OF d(2)] by simp
  then show ?thesis using d0(1) d(1) r st same k solved_le_frames [OF d(2)]
    by (intro exI [of _ d0] exI [of _ d]) (simp add: static_ok_def)
qed

theorem decoder_never_panics_witness:
  "\<exists>d0 d. decoder_with_mode plain_platform 3 2 7 5 3 True = Some (Inr d0) \<and>
     feed plain_platform d0 [(9, [1, 2]), (2, []), (0, [5, 6])] = Some d \<and> ld_pending_edges d \<le> 64 * 3"
proof -
  from decoder_never_panics [OF small_stream, of 3 plain_platform 7 True plain_platform "[(9, [1, 2]), (2, []), (0, [5, 6])]"]
  show ?thesis by blast
qed

text \<open>C8: at every moment the decoder knows exactly the blocks that peeling can derive from the
  equations of the sequence numbers it has accepted: it never misses a derivable block and never
  claims another. Two runs of a stream that accepted the same sequence numbers, in whatever orders,
  therefore know the same blocks.\<close>

theorem decoder_solves_peelable:
  assumes "stream_ok k block_len total_len" and "sys = 0 \<or> sys = k"
    and "decoder_with_mode P k block_len session_id total_len sys causal = Some (Inr d0)"
    and "feed Q d0 fs = Some d" and "b < k"
  shows "(ld_solved d ! b \<noteq> None) =
    (b \<in> peelable ((\<lambda>s. unat ` set (frame_blocks sys causal (ld_cdf d0) session_id s)) ` set_elems (ld_seen d)))"
proof -
  obtain d0' where d0: "decoder_with_mode P k block_len session_id total_len sys causal = Some (Inr d0')" "recv_ok d0'"
    "ld_k d0' = k" "ld_session_id d0' = session_id" "ld_sys_span d0' = sys" "ld_causal d0' = causal"
    using new_decoder_ok [OF assms(1,2), of P session_id causal] by blast
  then have eq: "d0' = d0" using assms(3) by simp
  have recv: "recv_ok d" "same_stream d0 d" using feed_recv [OF d0(2), of Q fs] assms(4) eq by auto
  have "length (ld_solved d) = k" using recv d0(3) eq by (auto simp: recv_ok_def dec_ok_def same_stream_def)
  then have "(ld_solved d ! b \<noteq> None) = (b \<in> dom (known d))" using assms(5) by (simp add: dom_known)
  also have "\<dots> = (b \<in> peelable (eqs_of d))" using recv_closure(1) [OF recv(1)] by simp
  also have "eqs_of d = (\<lambda>s. unat ` set (frame_blocks sys causal (ld_cdf d0) session_id s)) ` set_elems (ld_seen d)"
    using same_stream_blocks [OF recv(2)] d0(4-6) eq by (simp add: eqs_of_def dec_blocks_def)
  finally show ?thesis .
qed

theorem decoder_solves_peelable_witness:
  "\<exists>d0 d. feed plain_platform d0 [(1, [5, 6])] = Some d \<and>
    (ld_solved d ! 0 \<noteq> None) =
    (0 \<in> peelable ((\<lambda>s. unat ` set (frame_blocks 3 True (ld_cdf d0) 7 s)) ` set_elems (ld_seen d)))"
proof -
  have s: "stream_ok 3 2 5" by (rule small_stream)
  obtain d0 where d0: "decoder_with_mode plain_platform 3 2 7 5 3 True = Some (Inr d0)" "recv_ok d0"
    using new_decoder_ok [OF s, of 3 plain_platform 7 True] by blast
  obtain d where d: "feed plain_platform d0 [(1, [5, 6])] = Some d" using feed_recv [OF d0(2)] by blast
  from decoder_solves_peelable [OF s _ d0(1) d, of 0] d show ?thesis by auto
qed

text \<open>C7: when every frame is the one the encoder emits for its sequence number, a complete decoder
  assembles exactly the payload, whatever was lost, repeated or reordered.\<close>

theorem decoder_recovers_payload:
  assumes "params_ok payload block_len" and "k = div_ceil (length payload) block_len" and "sys = 0 \<or> sys = k"
    and "encoder_with_mode P payload block_len session_id sys causal = Some (Inr enc)"
    and "decoder_with_mode P k block_len session_id (length payload) sys causal = Some (Inr d0)"
    and "\<forall>(seq, block) \<in> set fs. \<exists>enc'. encode P enc seq = Some (block, enc')"
  shows "\<exists>d. feed Q d0 fs = Some d \<and> assemble d = Some (if is_complete d then Some payload else None)"
proof -
  have s: "stream_ok k block_len (length payload)"
    using assms(1,2) div_ceil_pos by (auto simp: params_ok_def stream_ok_def)
  obtain d0' where d0: "decoder_with_mode P k block_len session_id (length payload) sys causal = Some (Inr d0')"
    "recv_ok d0'" "ld_block_len d0' = block_len" "ld_total_len d0' = length payload" "ld_session_id d0' = session_id"
    "ld_sys_span d0' = sys" "ld_causal d0' = causal" "degree_cdf_new P k = Some (ld_cdf d0')"
    "peel_of d0' [] = (Map.empty, Map.empty, [])"
    using new_decoder_ok [OF s assms(3), of P session_id causal] by blast
  have eq: "d0' = d0" using d0(1) assms(5) by simp
  obtain enc0 where e0: "encoder_with_mode P payload block_len session_id sys causal = Some (Inr enc0)"
    "enc_ok payload enc0" "le_block_len enc0 = block_len" "le_session_id enc0 = session_id" "le_sys_span enc0 = sys"
    "le_causal enc0 = causal" "degree_cdf_new P (le_k enc0) = Some (le_cdf enc0)"
    using encoder_with_mode_ok [OF assms(1), of sys P session_id causal] assms(2,3) by blast
  have enc: "enc0 = enc" using e0(1) assms(4) by simp
  have "le_k enc = k" using e0(2,3) assms(2) unfolding enc enc_ok_def by simp
  then have blocks: "enc_blocks enc s = dec_blocks d0 s" for s
    using e0(4-7) d0(5-8) unfolding enc eq by (simp add: enc_blocks_def dec_blocks_def)
  have "block = frame_data payload (ld_block_len d0) (dec_blocks d0 seq)" if "(seq, block) \<in> set fs" for seq block
    using assms(6) that encode_ok [OF e0(2), of P seq] e0(3) d0(3) blocks unfolding enc eq by auto
  then have gen: "genuine payload d0 fs" by (auto simp: genuine_def)
  have a0: "agrees (source_words payload (ld_block_len d0)) (ld_words d0) (peel_of d0 [])"
    using d0(9) eq by (simp add: agrees_def)
  obtain d where d: "feed Q d0 fs = Some d" "recv_ok d" "same_stream d0 d"
    using feed_recv [of d0 Q fs] d0(2) eq by auto
  have same: "ld_block_len d = ld_block_len d0" "ld_words d = ld_words d0" "ld_total_len d = ld_total_len d0"
    using d(3) by (simp_all add: same_stream_def)
  have agr: "agrees (source_words payload (ld_block_len d)) (ld_words d) (peel_of d [])"
    using feed_genuine [OF _ gen d(1) a0] d0(2) eq same by simp
  have "assemble d = Some (if is_complete d then Some payload else None)"
  proof (cases "is_complete d")
    case True
    then have "dom (known d) = {..<ld_k d}" using recv_closure(4) [OF d(2)] by simp
    then show ?thesis using genuine_assemble [OF d(2) agr] d0(4) eq same True by simp
  next
    case False
    then show ?thesis by (simp add: assemble_def)
  qed
  then show ?thesis using d(1) by blast
qed

theorem decoder_recovers_payload_witness:
  "\<exists>enc d0 block enc' d. encoder_with_mode plain_platform [1, 2, 3, 4, 5] 2 7 3 True = Some (Inr enc) \<and>
     encode plain_platform enc 0 = Some (block, enc') \<and>
     decoder_with_mode plain_platform 3 2 7 5 3 True = Some (Inr d0) \<and>
     feed plain_platform d0 [(0, block)] = Some d \<and>
     assemble d = Some (if is_complete d then Some [1, 2, 3, 4, 5] else None)"
proof -
  let ?p = "[1, 2, 3, 4, 5] :: u8 list"
  have p: "params_ok ?p 2" and k: "3 = div_ceil (length ?p) 2"
    by (simp_all add: params_ok_def MAX_SOURCE_BLOCKS_def MAX_STREAM_BYTES_def MAX_FILE_BYTES_def div_ceil_def)
  have s: "stream_ok 3 2 5" by (rule small_stream)
  obtain enc where enc: "encoder_with_mode plain_platform ?p 2 7 3 True = Some (Inr enc)" "enc_ok ?p enc"
    using encoder_with_mode_ok [OF p, of 3 plain_platform 7 True] k by auto
  obtain block enc' where b: "encode plain_platform enc 0 = Some (block, enc')"
    using encode_ok [OF enc(2), of plain_platform 0] by blast
  obtain d0 where d0: "decoder_with_mode plain_platform 3 2 7 5 3 True = Some (Inr d0)"
    using new_decoder_ok [OF s, of 3 plain_platform 7 True] by blast
  have five: "length ?p = 5" by simp
  have d0': "decoder_with_mode plain_platform 3 2 7 (length ?p) 3 True = Some (Inr d0)" unfolding five by (rule d0)
  from decoder_recovers_payload [OF p k _ enc(1) d0', of "[(0, block)]" plain_platform] b enc(1) d0
  show ?thesis by auto
qed

text \<open>In the causal and the direct systematic mode the first \<open>k\<close> frames are enough, in any
  order and with any repetitions: a decoder fed well-formed frames of the first phase that cover all
  sequence numbers below \<open>k\<close> is complete and returns a container of the announced length. No
  frame of the phase is dropped for lack of room.\<close>

theorem first_phase_completes:
  assumes "stream_ok k block_len total_len"
    and "decoder_with_mode P k block_len session_id total_len k causal = Some (Inr d0)"
    and "\<forall>(seq, block) \<in> set fs. unat seq < k \<and> length block = block_len"
    and "{..<k} \<subseteq> unat ` fst ` set fs"
  shows "\<exists>d out. feed Q d0 fs = Some d \<and> is_complete d \<and> assemble d = Some (Some out) \<and> length out = total_len"
proof -
  obtain d0' where d0: "decoder_with_mode P k block_len session_id total_len k causal = Some (Inr d0')" "recv_ok d0'"
    "ld_k d0' = k" "ld_block_len d0' = block_len" "ld_total_len d0' = total_len" "ld_sys_span d0' = k"
    "set_elems (ld_seen d0') = {}" "ld_pending_edges d0' = 0"
    using new_decoder_ok [OF assms(1), of k P session_id causal] by blast
  then have eq: "d0' = d0" using assms(2) by simp
  from first_phase_feed [of d0 fs Q] obtain d where d: "feed Q d0 fs = Some d" "recv_ok d" "same_stream d0 d" "is_complete d"
    using assms(3,4) d0 eq by auto
  note recv = d(2) and full = d(4)
  have same: "ld_k d = k" "ld_total_len d = total_len" using d(3) d0 eq by (simp_all add: same_stream_def)
  from full have "dom (known d) = {..<ld_k d}" using recv_closure(4) [OF recv] by blast
  then have "\<exists>out. assemble d = Some (Some out) \<and> length out = ld_total_len d"
    using assemble_length [OF recv] assemble_eq [OF recv] by simp
  then show ?thesis using d(1) full same by blast
qed

theorem first_phase_completes_witness:
  "\<exists>d0 d. decoder_with_mode plain_platform 3 2 7 5 3 True = Some (Inr d0) \<and>
     feed plain_platform d0 [(2, [5, 6]), (0, [1, 2]), (2, [5, 6]), (1, [3, 4])] = Some d \<and> is_complete d"
proof -
  have s: "stream_ok 3 2 5" by (rule small_stream)
  obtain d0 where d0: "decoder_with_mode plain_platform 3 2 7 5 3 True = Some (Inr d0)"
    using new_decoder_ok [OF s, of 3 plain_platform 7 True] by blast
  let ?fs = "[(2, [5, 6]), (0, [1, 2]), (2, [5, 6]), (1, [3, 4])] :: (u32 \<times> u8 list) list"
  have "{..<3} \<subseteq> unat ` fst ` set ?fs" by (auto simp: lessThan_nat_numeral)
  from first_phase_completes [OF s d0 _ this, of plain_platform] d0 show ?thesis by auto
qed

text \<open>What a decoder needs: while the sequence numbers of the frames fit its limits, at most
  \<open>4 k\<close> of them and at most \<open>64 k\<close> blocks in their equations together, nothing is lost, and the
  decoder is complete exactly when peeling can derive every block from the equations of the numbers it
  was fed, in any mode, whatever the order and the repetitions.\<close>

theorem decoder_completes_iff_peelable:
  assumes "stream_ok k block_len total_len" and "sys = 0 \<or> sys = k"
    and "decoder_with_mode P k block_len session_id total_len sys causal = Some (Inr d0)"
    and "\<forall>(seq, block) \<in> set fs. length block = block_len"
    and "E = (\<lambda>q. unat ` set (frame_blocks sys causal (ld_cdf d0) session_id q))"
    and "roomy k E (fst ` set fs)"
  shows "\<exists>d. feed Q d0 fs = Some d \<and> (is_complete d \<longleftrightarrow> {..<k} \<subseteq> peelable (E ` fst ` set fs))"
proof -
  obtain d0' where d0: "decoder_with_mode P k block_len session_id total_len sys causal = Some (Inr d0')" "recv_ok d0'"
    "ld_k d0' = k" "ld_block_len d0' = block_len" "ld_session_id d0' = session_id" "ld_sys_span d0' = sys"
    "ld_causal d0' = causal" "set_elems (ld_seen d0') = {}" "ld_pending_edges d0' = 0"
    using new_decoder_ok [OF assms(1,2), of P session_id causal] by blast
  then have eq: "d0' = d0" using assms(3) by simp
  have E: "eqn_of d0 = E" using d0(5-7) eq by (simp add: eqn_of_def dec_blocks_def assms(5) fun_eq_iff)
  have "caught {} d0" using d0 eq by (simp add: caught_def room_ok_def)
  from caught_feed [OF this, of fs Q] obtain d where d: "feed Q d0 fs = Some d" "caught (fst ` set fs) d" "same_stream d0 d"
    using assms(4,6) d0(3,4) eq E by auto
  have "eqn_of d = E" "ld_k d = k"
    using same_stream_blocks [OF d(3)] d(3) d0(3) eq E by (simp_all add: eqn_of_def same_stream_def fun_eq_iff)
  then show ?thesis using caught_complete [OF d(2)] d(1) by simp
qed

theorem decoder_completes_iff_peelable_witness:
  "\<exists>d0 d. decoder_with_mode plain_platform 3 2 7 5 3 True = Some (Inr d0) \<and>
     feed plain_platform d0 [(2, [5, 6]), (1, [1, 2]), (2, [5, 6])] = Some d \<and> \<not> is_complete d"
proof -
  have s: "stream_ok 3 2 5" by (rule small_stream)
  obtain d0 where d0: "decoder_with_mode plain_platform 3 2 7 5 3 True = Some (Inr d0)"
    using new_decoder_ok [OF s, of 3 plain_platform 7 True] by blast
  let ?fs = "[(2, [5, 6]), (1, [1, 2]), (2, [5, 6])] :: (u32 \<times> u8 list) list"
  let ?E = "\<lambda>q. unat ` set (frame_blocks 3 True (ld_cdf d0) 7 q)"
  have E: "?E 1 = {0, 1}" "?E 2 = {1, 2}" by (simp_all add: frame_blocks_def)
  have room: "roomy 3 ?E (fst ` set ?fs)" by (simp add: roomy_def insert_absorb E)
  have S: "?E ` fst ` set ?fs = {{0, 1}, {1, 2}}" by (simp add: E insert_commute)
  have "r \<notin> peelable {{0, 1}, {1, 2}}" for r
  proof
    assume "r \<in> peelable {{0, 1}, {1, 2}}"
    then show False
    proof (induction rule: peelable.induct)
      case (1 E r)
      then have "E = {0, 1} \<or> E = {1, 2}" "\<forall>x \<in> E. x = r" by blast+
      then show False by auto
    qed
  qed
  then have none: "\<not> {..<3} \<subseteq> peelable (?E ` fst ` set ?fs)" unfolding S by (metis lessThan_iff subsetD zero_less_numeral)
  have len: "\<forall>(seq, block) \<in> set ?fs. length block = 2" by simp
  from decoder_completes_iff_peelable [OF s disjI2 [OF refl] d0 len refl room, of plain_platform] none d0
  show ?thesis by blast
qed

text \<open>No payload comes for free: a decoder that is complete has accepted at least \<open>k\<close>
  frames with different sequence numbers.\<close>

theorem complete_needs_k_frames:
  assumes "stream_ok k block_len total_len" and "sys = 0 \<or> sys = k"
    and "decoder_with_mode P k block_len session_id total_len sys causal = Some (Inr d0)"
    and "feed Q d0 fs = Some d" and "is_complete d"
  shows "k \<le> card (fst ` set fs)"
proof -
  obtain d0' where d0: "decoder_with_mode P k block_len session_id total_len sys causal = Some (Inr d0')" "recv_ok d0'"
    "ld_k d0' = k" "set_elems (ld_seen d0') = {}" using new_decoder_ok [OF assms(1,2), of P session_id causal] by blast
  then have eq: "d0' = d0" using assms(3) by simp
  have recv: "recv_ok d" "same_stream d0 d" "set_elems (ld_seen d) \<subseteq> fst ` set fs"
    using feed_recv [OF d0(2), of Q fs] assms(4) eq d0(4) by auto
  have "k \<le> ld_solved_count d" using assms(5) recv(2) d0(3) eq by (simp add: is_complete_def same_stream_def)
  also have "\<dots> \<le> card (set_elems (ld_seen d))" using solved_le_frames [OF recv(1)] recv(1) unfolding recv_ok_def by metis
  also have "\<dots> \<le> card (fst ` set fs)" by (rule card_mono [OF _ recv(3)]) simp
  finally show ?thesis .
qed

theorem complete_needs_k_frames_witness:
  "\<exists>d0 d. decoder_with_mode plain_platform 1 2 7 2 1 True = Some (Inr d0) \<and>
     feed plain_platform d0 [(0, [1, 2])] = Some d \<and> is_complete d \<and> 1 \<le> card (fst ` set [(0 :: u32, [1, 2] :: u8 list)])"
proof -
  have s: "stream_ok 1 2 2" by (simp add: stream_ok_def MAX_SOURCE_BLOCKS_def MAX_STREAM_BYTES_def MAX_FILE_BYTES_def div_ceil_def)
  obtain d0 where d0: "decoder_with_mode plain_platform 1 2 7 2 1 True = Some (Inr d0)" "recv_ok d0" "ld_k d0 = 1"
    "ld_block_len d0 = 2" "ld_sys_span d0 = 1" "set_elems (ld_seen d0) = {}" "ld_pending_edges d0 = 0"
    using new_decoder_ok [OF s, of 1 plain_platform 7 True] by blast
  have "{..<ld_k d0} \<subseteq> unat ` fst ` set [(0 :: u32, [1, 2] :: u8 list)]" using d0(3) by (simp add: lessThan_Suc)
  from first_phase_feed [OF d0(2) _ d0(6,7) _ this, of plain_platform] d0(3-5) obtain d where d:
    "feed plain_platform d0 [(0, [1, 2])] = Some d" "is_complete d" by auto
  with complete_needs_k_frames [OF s _ d0(1) d(1,2)] d0(1) d show ?thesis by blast
qed

text \<open>C27: every frame is accounted for exactly once. A block of the wrong length and a frame that
  would exceed the memory limits count as dropped, a sequence number seen before counts as a
  duplicate, a frame that arrives after completion is not counted, and any other frame counts as new
  and its sequence number is remembered. A frame that is not new leaves the solved blocks, the arena,
  the pending equations and the remembered sequence numbers as they were, so a frame dropped for lack
  of room may be sent again.\<close>

theorem add_frame_accounts:
  assumes "stream_ok k block_len total_len" and "sys = 0 \<or> sys = k"
    and "decoder_with_mode P k block_len session_id total_len sys causal = Some (Inr d0)"
    and "feed Q d0 fs = Some d"
  shows "\<exists>d'. add_frame Q d seq block = Some d' \<and>
    (ld_frames_new d', ld_frames_dup d', ld_frames_dropped d') =
      (if length block \<noteq> block_len then (ld_frames_new d, ld_frames_dup d, ld_frames_dropped d + 1)
       else if is_complete d then (ld_frames_new d, ld_frames_dup d, ld_frames_dropped d)
       else if seq \<in> set_elems (ld_seen d) then (ld_frames_new d, ld_frames_dup d + 1, ld_frames_dropped d)
       else if within_limits d seq then (ld_frames_new d + 1, ld_frames_dup d, ld_frames_dropped d)
       else (ld_frames_new d, ld_frames_dup d, ld_frames_dropped d + 1)) \<and>
    set_elems (ld_seen d') = set_elems (ld_seen d) \<union> (if ld_frames_new d' = ld_frames_new d then {} else {seq}) \<and>
    (ld_frames_new d' = ld_frames_new d \<longrightarrow> ld_solved d' = ld_solved d \<and> ld_arena d' = ld_arena d \<and>
       ld_frames d' = ld_frames d \<and> ld_pending_edges d' = ld_pending_edges d)"
proof -
  obtain d0' where d0: "decoder_with_mode P k block_len session_id total_len sys causal = Some (Inr d0')" "recv_ok d0'"
    "ld_block_len d0' = block_len" using new_decoder_ok [OF assms(1,2), of P session_id causal] by blast
  then have eq: "d0' = d0" using assms(3) by simp
  have recv: "recv_ok d" and len: "ld_block_len d = block_len"
    using feed_recv [OF d0(2), of Q fs] assms(4) eq d0(3) by (auto simp: same_stream_def)
  show ?thesis
  proof (cases "accepts d seq block")
    case True
    from add_frame_accepts [OF recv True, of Q] obtain v d' where d': "add_frame Q d seq block = Some d'"
      "step_result d seq v d'" by blast
    then show ?thesis using True len by (intro exI [of _ d']) (simp add: step_result_def accepts_def)
  next
    case False
    from add_frame_rejects [OF recv False, of Q] obtain idx scratch where a:
      "add_frame Q d seq block = Some (with_note d idx scratch
        (if length block = ld_block_len d \<and> \<not> is_complete d \<and> seq \<in> set_elems (ld_seen d) then 1 else 0)
        (if length block \<noteq> ld_block_len d \<or> (\<not> is_complete d \<and> seq \<notin> set_elems (ld_seen d)) then 1 else 0))" by blast
    have "within_limits d seq \<Longrightarrow> length block = ld_block_len d \<Longrightarrow> \<not> is_complete d \<Longrightarrow> seq \<in> set_elems (ld_seen d)"
      using False by (simp add: accepts_def)
    then show ?thesis unfolding a by (auto simp: len with_note_def)
  qed
qed

theorem add_frame_accounts_witness:
  "\<exists>d0 d'. decoder_with_mode plain_platform 3 2 7 5 3 True = Some (Inr d0) \<and>
     add_frame plain_platform d0 9 [1] = Some d' \<and> ld_frames_dropped d' = ld_frames_dropped d0 + 1 \<and>
     ld_arena d' = ld_arena d0"
proof -
  have s: "stream_ok 3 2 5" by (rule small_stream)
  obtain d0 where d0: "decoder_with_mode plain_platform 3 2 7 5 3 True = Some (Inr d0)"
    using new_decoder_ok [OF s, of 3 plain_platform 7 True] by blast
  from add_frame_accounts [OF s _ d0, of plain_platform "[]" d0 9 "[1]"] d0 show ?thesis by auto
qed

end
