(* ===== verification/Session.thy ===== *)
theory Session
  imports Frame Fountain
begin

text \<open>
  The middleware (\<open>src/session.rs\<close>): the sender, which numbers the encoder's blocks and seals
  them into frames, and the receiver, which locks to the first stream it sees, feeds its decoder and
  delivers the container once.

  A constructor or \<open>try_push\<close> that may panic returns an \<open>option\<close>; the error a call
  returns is the left side of its \<open>result\<close>. \<open>try_push\<close> also returns the receiver it
  leaves behind, on every path. The theory holds the definitions, the invariant \<open>receiver_ok\<close>
  and what one push does; \<open>Delivery\<close> states the properties of whole transfers.
\<close>

section \<open>The sender\<close>

record sender =
  sd_encoder :: lt_encoder
  sd_seq :: u32
  sd_exhausted :: bool
  sd_session_id :: u16
  sd_k :: u16
  sd_block_len :: u16
  sd_total_len :: u32
  sd_stream_tag :: u32
  sd_flags :: u8

record session_frame =
  sf_header :: frame_header
  sf_block :: "u8 list"

definition sender_with_mode ::
  "'m wire_platform_scheme \<Rightarrow> u8 list \<Rightarrow> usize \<Rightarrow> u16 \<Rightarrow> u8 \<Rightarrow> sender result option" where
  "sender_with_mode P container block_len session_id flags =
     (if container = [] then Some (Inl Empty)
      else if block_len = 0 \<or> block_len > 0xffff then Some (Inl InvalidStream)
      else if length container > MAX_STREAM_BYTES
      then Some (Inl (TooLarge (length container) MAX_STREAM_BYTES))
      else case checked_add block_len HEADER_LEN of
        None \<Rightarrow> Some (Inl InvalidStream)
      | Some frame_bytes \<Rightarrow> (case source_block_count (length container) frame_bytes of
          None \<Rightarrow> Some (Inl InvalidStream)
        | Some k \<Rightarrow>
            if k = 0 \<or> k > 0xffff then Some (Inl InvalidStream)
            else do {
              encoder \<leftarrow>
                (if flags = FLAG_CAUSAL then encoder_try_new_causal P container block_len (ucast session_id)
                 else if flags = FLAG_SYSTEMATIC
                 then encoder_try_new_systematic P container block_len (ucast session_id)
                 else encoder_try_new P container block_len (ucast session_id));
              case encoder of
                Inl e \<Rightarrow> Some (Inl e)
              | Inr encoder \<Rightarrow>
                  Some (Inr \<lparr>sd_encoder = encoder, sd_seq = 0, sd_exhausted = False,
                    sd_session_id = session_id, sd_k = word_of_nat k, sd_block_len = word_of_nat block_len,
                    sd_total_len = word_of_nat (length container),
                    sd_stream_tag = checksum32 P container, sd_flags = flags\<rparr>) }))"

definition sender_try_new where
  "sender_try_new P container block_len session_id =
     sender_with_mode P container block_len session_id FLAG_CAUSAL"

definition sender_try_new_systematic where
  "sender_try_new_systematic P container block_len session_id =
     sender_with_mode P container block_len session_id FLAG_SYSTEMATIC"

definition sender_try_new_rsd where
  "sender_try_new_rsd P container block_len session_id = sender_with_mode P container block_len session_id 0"

definition sender_new where
  "sender_new P container block_len session_id = expect_ok (sender_try_new P container block_len session_id)"

definition sender_new_systematic where
  "sender_new_systematic P container block_len session_id =
     expect_ok (sender_try_new_systematic P container block_len session_id)"

definition sender_new_rsd where
  "sender_new_rsd P container block_len session_id = expect_ok (sender_try_new_rsd P container block_len session_id)"

definition sender_is_systematic :: "sender \<Rightarrow> bool" where
  "sender_is_systematic s \<longleftrightarrow> sd_flags s = FLAG_SYSTEMATIC"

definition sender_is_causal :: "sender \<Rightarrow> bool" where
  "sender_is_causal s \<longleftrightarrow> sd_flags s = FLAG_CAUSAL"

definition sender_k :: "sender \<Rightarrow> u16" where
  "sender_k s = sd_k s"

definition sender_session :: "sender \<Rightarrow> u16" where
  "sender_session s = sd_session_id s"

definition try_next_frame :: "'m wire_platform_scheme \<Rightarrow> sender \<Rightarrow> (session_frame result \<times> sender) option" where
  "try_next_frame P s =
     (if sd_exhausted s then Some (Inl SequenceExhausted, s)
      else do {
        let seq = sd_seq s;
        (block, encoder) \<leftarrow> encode P (sd_encoder s) seq;
        let s = s\<lparr>sd_encoder := encoder\<rparr>;
        let header = \<lparr>fh_flags = sd_flags s, fh_session_id = sd_session_id s, fh_seq = seq, fh_k = sd_k s,
          fh_block_len = sd_block_len s, fh_total_len = sd_total_len s, fh_stream_tag = sd_stream_tag s,
          fh_frame_tag = 0\<rparr>;
        let header = header\<lparr>fh_frame_tag := frame_checksum P header block\<rparr>;
        let s = (if seq = 0xffffffff then s\<lparr>sd_exhausted := True\<rparr> else s\<lparr>sd_seq := sd_seq s + 1\<rparr>);
        Some (Inr \<lparr>sf_header = header, sf_block = block\<rparr>, s) })"

definition next_frame :: "'m wire_platform_scheme \<Rightarrow> sender \<Rightarrow> (session_frame \<times> sender) option" where
  "next_frame P s = do {
     (r, s) \<leftarrow> try_next_frame P s;
     frame \<leftarrow> expect_ok (Some r);
     Some (frame, s) }"

definition frame_to_bytes :: "'m wire_platform_scheme \<Rightarrow> session_frame \<Rightarrow> u8 list option" where
  "frame_to_bytes P f = pack_frame P (sf_header f) (sf_block f)"

section \<open>The receiver\<close>

record receiver_limits =
  rl_max_stream_bytes :: nat
  rl_max_source_blocks :: usize
  rl_max_block_len :: usize

definition LIMITS_MAXIMUM :: receiver_limits where
  "LIMITS_MAXIMUM = \<lparr>rl_max_stream_bytes = MAX_STREAM_BYTES, rl_max_source_blocks = MAX_SOURCE_BLOCKS,
     rl_max_block_len = 0xffff\<rparr>"

definition limits_default :: receiver_limits where
  "limits_default = LIMITS_MAXIMUM"

record receiver =
  rc_decoder :: "lt_decoder option"
  rc_identity :: "stream_id option"
  rc_delivered :: bool
  rc_limits :: receiver_limits

definition receiver_with_limits :: "receiver_limits \<Rightarrow> receiver" where
  "receiver_with_limits limits =
     \<lparr>rc_decoder = None, rc_identity = None, rc_delivered = False, rc_limits = limits\<rparr>"

definition receiver_new :: receiver where
  "receiver_new = \<lparr>rc_decoder = None, rc_identity = None, rc_delivered = False, rc_limits = LIMITS_MAXIMUM\<rparr>"

definition reset :: "receiver \<Rightarrow> receiver" where
  "reset r = r\<lparr>rc_decoder := None, rc_identity := None, rc_delivered := False\<rparr>"

definition receiver_is_active :: "receiver \<Rightarrow> bool" where
  "receiver_is_active r \<longleftrightarrow> rc_decoder r \<noteq> None"

definition receiver_identity :: "receiver \<Rightarrow> stream_id option" where
  "receiver_identity r = rc_identity r"

definition receiver_limits_of :: "receiver \<Rightarrow> receiver_limits" where
  "receiver_limits_of r = rc_limits r"

definition receiver_default :: receiver where
  "receiver_default = receiver_new"

text \<open>The decoder for a newly observed stream.\<close>

definition stream_decoder :: "'m wire_platform_scheme \<Rightarrow> frame_header \<Rightarrow> lt_decoder result option" where
  "stream_decoder P h =
     (let k = unat (fh_k h); block_len = unat (fh_block_len h); session_id = ucast (fh_session_id h);
          total_len = unat (fh_total_len h)
      in if fh_flags h = FLAG_CAUSAL then decoder_try_new_causal P k block_len session_id total_len
         else if fh_flags h = FLAG_SYSTEMATIC then decoder_try_new_systematic P k block_len session_id total_len
         else decoder_try_new P k block_len session_id total_len)"

text \<open>The identity check: a locked receiver admits its own stream only, an unlocked one applies its
  limits and locks.\<close>

definition admit :: "'m wire_platform_scheme \<Rightarrow> receiver \<Rightarrow> frame_header \<Rightarrow> receiver result option" where
  "admit P r h =
     (let sid = stream_identity h
      in case rc_identity r of
        Some active \<Rightarrow> Some (if active \<noteq> sid then Inl StreamConflict else Inr r)
      | None \<Rightarrow>
          if unat (fh_total_len h) > rl_max_stream_bytes (rc_limits r) \<or>
             unat (fh_k h) > rl_max_source_blocks (rc_limits r) \<or>
             unat (fh_block_len h) > rl_max_block_len (rc_limits r)
          then Some (Inl ResourceLimit)
          else do {
            decoder \<leftarrow> stream_decoder P h;
            case decoder of
              Inl e \<Rightarrow> Some (Inl e)
            | Inr d \<Rightarrow> Some (Inr (r\<lparr>rc_decoder := Some d, rc_identity := Some sid\<rparr>)) })"

definition deliver ::
  "'m wire_platform_scheme \<Rightarrow> receiver \<Rightarrow> frame_header \<Rightarrow> u8 list \<Rightarrow> (u8 list option result \<times> receiver) option" where
  "deliver P r h block =
     (if rc_delivered r then Some (Inr None, r)
      else case rc_decoder r of
        None \<Rightarrow> Some (Inl InvalidStream, r)
      | Some decoder \<Rightarrow> do {
          decoder \<leftarrow> add_frame P decoder (fh_seq h) block;
          let r = r\<lparr>rc_decoder := Some decoder\<rparr>;
          if \<not> is_complete decoder then Some (Inr None, r)
          else do {
            out \<leftarrow> assemble decoder;
            case out of
              None \<Rightarrow> Some (Inl InvalidStream, r)
            | Some container \<Rightarrow>
                if checksum32 P container \<noteq> fh_stream_tag h then Some (Inl CorruptFrame, reset r)
                else Some (Inr (Some container), r\<lparr>rc_delivered := True\<rparr>) } })"

definition try_push ::
  "'m wire_platform_scheme \<Rightarrow> receiver \<Rightarrow> u8 list \<Rightarrow> (u8 list option result \<times> receiver) option" where
  "try_push P r bytes =
     (case parse_frame P bytes of
        None \<Rightarrow> Some (Inl CorruptFrame, r)
      | Some (h, block) \<Rightarrow> do {
          admitted \<leftarrow> admit P r h;
          case admitted of Inl e \<Rightarrow> Some (Inl e, r) | Inr r \<Rightarrow> deliver P r h block })"

definition push :: "'m wire_platform_scheme \<Rightarrow> receiver \<Rightarrow> u8 list \<Rightarrow> (u8 list option \<times> receiver) option" where
  "push P r bytes = do {
     (res, r) \<leftarrow> try_push P r bytes;
     Some (case res of Inl e \<Rightarrow> None | Inr out \<Rightarrow> out, r) }"

section \<open>Modes\<close>

definition mode_span :: "u8 \<Rightarrow> usize \<Rightarrow> usize" where
  "mode_span flags k = (if flags = FLAG_CAUSAL \<or> flags = FLAG_SYSTEMATIC then k else 0)"

lemma mode_span_cases: "mode_span flags k = 0 \<or> mode_span flags k = k"
  by (simp add: mode_span_def)

lemma flags_differ: "FLAG_SYSTEMATIC \<noteq> FLAG_CAUSAL"
  by (simp add: FLAG_SYSTEMATIC_def FLAG_CAUSAL_def)

lemma stream_decoder_eq:
  "stream_decoder P h = decoder_with_mode P (unat (fh_k h)) (unat (fh_block_len h)) (ucast (fh_session_id h))
     (unat (fh_total_len h)) (mode_span (fh_flags h) (unat (fh_k h))) (fh_flags h = FLAG_CAUSAL)"
  using flags_differ
  by (auto simp: stream_decoder_def mode_span_def decoder_try_new_causal_def decoder_try_new_systematic_def
      decoder_try_new_def Let_def)

text \<open>What parsing alone tells of a header, whatever the codec.\<close>

lemma parse_header:
  assumes "parse_frame P bytes = Some (h, block)"
  shows "header_ok h" and "length block = unat (fh_block_len h)"
proof -
  have p: "\<not> (fh_flags h AND NOT FLAG_MASK \<noteq> 0 \<or> fh_flags h AND FLAG_MASK = FLAG_MASK)"
    "fh_k h \<noteq> 0" "fh_block_len h \<noteq> 0" "fh_total_len h \<noteq> 0"
    "length bytes = HEADER_LEN + unat (fh_block_len h)" "block = drop HEADER_LEN bytes"
    using assms by (auto simp: parse_frame_def Let_def split: if_splits option.splits)
  then show "header_ok h" "length block = unat (fh_block_len h)"
    using flags_ok by (simp_all add: header_ok_def)
qed

section \<open>The receiver's invariant\<close>

definition serves :: "'m wire_platform_scheme \<Rightarrow> stream_id \<Rightarrow> lt_decoder \<Rightarrow> bool" where
  "serves P sid d \<longleftrightarrow> recv_ok d \<and> ld_k d = unat (si_k sid) \<and> ld_block_len d = unat (si_block_len sid) \<and>
     ld_total_len d = unat (si_total_len sid) \<and> ld_session_id d = ucast (si_session_id sid) \<and>
     ld_sys_span d = mode_span (si_flags sid) (unat (si_k sid)) \<and> ld_causal d = (si_flags sid = FLAG_CAUSAL) \<and>
     degree_cdf_new P (ld_k d) = Some (ld_cdf d)"

definition receiver_ok :: "'m wire_platform_scheme \<Rightarrow> receiver \<Rightarrow> bool" where
  "receiver_ok P r \<longleftrightarrow>
     (case rc_identity r of
        None \<Rightarrow> rc_decoder r = None \<and> \<not> rc_delivered r
      | Some sid \<Rightarrow> unat (si_total_len sid) \<le> rl_max_stream_bytes (rc_limits r) \<and>
          unat (si_k sid) \<le> rl_max_source_blocks (rc_limits r) \<and>
          unat (si_block_len sid) \<le> rl_max_block_len (rc_limits r) \<and>
          (\<exists>d. rc_decoder r = Some d \<and> serves P sid d \<and> rc_delivered r = is_complete d))"

lemma receiver_ok_start [simp]: "receiver_ok P (receiver_with_limits limits)"
  by (simp add: receiver_ok_def receiver_with_limits_def)

lemma receiver_ok_reset [simp]: "receiver_ok P (reset r)"
  by (simp add: receiver_ok_def reset_def)

lemma receiver_new_limits: "receiver_new = receiver_with_limits LIMITS_MAXIMUM"
  by (simp add: receiver_new_def receiver_with_limits_def)

lemma serves_step:
  assumes "serves P sid d"
  shows "\<exists>d'. add_frame P d seq block = Some d' \<and> serves P sid d'"
  using add_frame_recv [of d P seq block] assms by (auto simp: serves_def same_stream_def)

text \<open>The stream a header announces, and what a receiver without identity makes of it.\<close>

definition announced :: "frame_header \<Rightarrow> bool" where
  "announced h \<longleftrightarrow> stream_ok (unat (fh_k h)) (unat (fh_block_len h)) (unat (fh_total_len h))"

definition over_limits :: "receiver \<Rightarrow> frame_header \<Rightarrow> bool" where
  "over_limits r h \<longleftrightarrow> unat (fh_total_len h) > rl_max_stream_bytes (rc_limits r) \<or>
     unat (fh_k h) > rl_max_source_blocks (rc_limits r) \<or> unat (fh_block_len h) > rl_max_block_len (rc_limits r)"

lemma stream_decoder_serves:
  assumes "announced h"
  shows "\<exists>d. stream_decoder P h = Some (Inr d) \<and> serves P (stream_identity h) d \<and> \<not> is_complete d \<and>
    peel_of d [] = (Map.empty, Map.empty, []) \<and> set_elems (ld_seen d) = {} \<and> ld_pending_edges d = 0"
proof -
  let ?k = "unat (fh_k h)" and ?causal = "fh_flags h = FLAG_CAUSAL"
  have s: "stream_ok ?k (unat (fh_block_len h)) (unat (fh_total_len h))" using assms by (simp add: announced_def)
  obtain d where d: "stream_decoder P h = Some (Inr d)" "recv_ok d" "ld_k d = ?k" "ld_block_len d = unat (fh_block_len h)"
    "ld_total_len d = unat (fh_total_len h)" "ld_session_id d = ucast (fh_session_id h)"
    "ld_sys_span d = mode_span (fh_flags h) ?k" "ld_causal d = ?causal" "degree_cdf_new P ?k = Some (ld_cdf d)"
    "set_elems (ld_seen d) = {}" "peel_of d [] = (Map.empty, Map.empty, [])" "ld_pending_edges d = 0"
    using new_decoder_ok [OF s, of "mode_span (fh_flags h) ?k" P "ucast (fh_session_id h)" ?causal] mode_span_cases
    unfolding stream_decoder_eq by blast
  have "ld_solved_count d = 0" using recv_closure(2) [OF d(2)] d(11) by (simp add: peel_of_def)
  then have "\<not> is_complete d" using s d(3) by (simp add: is_complete_def stream_ok_def)
  then show ?thesis using d by (simp add: serves_def stream_identity_def)
qed

lemma admit_fresh:
  assumes "rc_identity r = None"
  shows "if over_limits r h then admit P r h = Some (Inl ResourceLimit)
    else if \<not> announced h
      then admit P r h = Some (Inl (bad_stream (unat (fh_k h)) (unat (fh_block_len h)) (unat (fh_total_len h))))
    else (\<exists>d. admit P r h = Some (Inr (r\<lparr>rc_decoder := Some d, rc_identity := Some (stream_identity h)\<rparr>)) \<and>
      serves P (stream_identity h) d \<and> \<not> is_complete d \<and> peel_of d [] = (Map.empty, Map.empty, []) \<and>
      set_elems (ld_seen d) = {} \<and> ld_pending_edges d = 0)"
proof (cases "over_limits r h \<or> \<not> announced h")
  case True
  then show ?thesis
    using assms bad_stream_error [of "unat (fh_k h)" "unat (fh_block_len h)" "unat (fh_total_len h)" P]
    by (auto simp: admit_def over_limits_def announced_def stream_decoder_eq Let_def)
next
  case False
  then show ?thesis using assms stream_decoder_serves [of h P]
    by (auto simp: admit_def over_limits_def Let_def)
qed

lemma serves_assemble:
  assumes "serves P sid d"
  shows "assemble d = Some None \<and> \<not> is_complete d \<or>
    (\<exists>out. assemble d = Some (Some out) \<and> length out = unat (si_total_len sid) \<and> is_complete d)"
proof -
  have recv: "recv_ok d" and len: "ld_total_len d = unat (si_total_len sid)" using assms by (simp_all add: serves_def)
  show ?thesis using assemble_eq [OF recv] assemble_length [OF recv] recv_closure(4) [OF recv] len by simp
qed

section \<open>What a push does\<close>

text \<open>The six outcomes of one push: the frame is damaged; it belongs to another stream or exceeds the
  limits or announces no stream; it arrives after delivery; it is absorbed; it completes a container
  whose tag is wrong; it completes the container.\<close>

inductive outcome :: "'m wire_platform_scheme \<Rightarrow> receiver \<Rightarrow> u8 list \<Rightarrow> u8 list option result \<Rightarrow> receiver \<Rightarrow> bool"
  for P r bytes where
  damaged: "parse_frame P bytes = None \<Longrightarrow> outcome P r bytes (Inl CorruptFrame) r"
| refused: "parse_frame P bytes = Some (h, block) \<Longrightarrow> admit P r h = Some (Inl e) \<Longrightarrow> outcome P r bytes (Inl e) r"
| late: "parse_frame P bytes = Some (h, block) \<Longrightarrow> rc_delivered r \<Longrightarrow> rc_identity r = Some (stream_identity h) \<Longrightarrow>
    outcome P r bytes (Inr None) r"
| absorbed: "parse_frame P bytes = Some (h, block) \<Longrightarrow> \<not> rc_delivered r \<Longrightarrow>
    admit P r h = Some (Inr (r\<lparr>rc_decoder := Some d, rc_identity := Some (stream_identity h)\<rparr>)) \<Longrightarrow>
    serves P (stream_identity h) d \<Longrightarrow> \<not> over_limits r h \<Longrightarrow> add_frame P d (fh_seq h) block = Some d' \<Longrightarrow>
    serves P (stream_identity h) d' \<Longrightarrow> \<not> is_complete d' \<Longrightarrow>
    outcome P r bytes (Inr None) (r\<lparr>rc_decoder := Some d', rc_identity := Some (stream_identity h)\<rparr>)"
| mistagged: "parse_frame P bytes = Some (h, block) \<Longrightarrow> \<not> rc_delivered r \<Longrightarrow>
    admit P r h = Some (Inr (r\<lparr>rc_decoder := Some d, rc_identity := Some (stream_identity h)\<rparr>)) \<Longrightarrow>
    serves P (stream_identity h) d \<Longrightarrow> add_frame P d (fh_seq h) block = Some d' \<Longrightarrow> assemble d' = Some (Some c) \<Longrightarrow>
    checksum32 P c \<noteq> fh_stream_tag h \<Longrightarrow> outcome P r bytes (Inl CorruptFrame) (reset r)"
| completed: "parse_frame P bytes = Some (h, block) \<Longrightarrow> \<not> rc_delivered r \<Longrightarrow>
    admit P r h = Some (Inr (r\<lparr>rc_decoder := Some d, rc_identity := Some (stream_identity h)\<rparr>)) \<Longrightarrow>
    serves P (stream_identity h) d \<Longrightarrow> \<not> over_limits r h \<Longrightarrow> add_frame P d (fh_seq h) block = Some d' \<Longrightarrow>
    serves P (stream_identity h) d' \<Longrightarrow> is_complete d' \<Longrightarrow> assemble d' = Some (Some c) \<Longrightarrow>
    length c = unat (fh_total_len h) \<Longrightarrow> checksum32 P c = fh_stream_tag h \<Longrightarrow>
    outcome P r bytes (Inr (Some c))
      (r\<lparr>rc_decoder := Some d', rc_identity := Some (stream_identity h), rc_delivered := True\<rparr>)"

inductive_cases outcome_err: "outcome P r bytes (Inl e) r'"
inductive_cases outcome_out: "outcome P r bytes (Inr (Some c)) r'"

lemma admit_ok:
  assumes "receiver_ok P r" and "admit P r h = Some (Inr r')"
  shows "\<exists>d. r' = r\<lparr>rc_decoder := Some d, rc_identity := Some (stream_identity h)\<rparr> \<and> serves P (stream_identity h) d \<and>
    \<not> over_limits r h \<and> rc_delivered r = is_complete d"
proof (cases "rc_identity r")
  case None
  then have "\<not> rc_delivered r" using assms(1) by (simp add: receiver_ok_def)
  then show ?thesis using admit_fresh [OF None, of h P] assms(2) by (auto split: if_splits)
next
  case (Some sid)
  then have sid: "sid = stream_identity h" "r' = r" using assms(2) by (auto simp: admit_def Let_def split: if_splits)
  obtain d where d: "rc_decoder r = Some d" "serves P sid d" "rc_delivered r = is_complete d"
    using assms(1) Some by (auto simp: receiver_ok_def)
  have "r = r\<lparr>rc_decoder := Some d, rc_identity := Some sid\<rparr>" using d(1) Some by simp
  moreover have "\<not> over_limits r h"
    using assms(1) Some sid by (auto simp: receiver_ok_def over_limits_def stream_identity_def)
  ultimately show ?thesis using d sid by metis
qed

lemma admit_total: "receiver_ok P r \<Longrightarrow> \<exists>a. admit P r h = Some a"
proof (cases "rc_identity r")
  case None
  then show ?thesis using admit_fresh [OF None, of h P] by (auto split: if_splits)
next
  case (Some sid)
  then show ?thesis by (simp add: admit_def Let_def)
qed

lemma try_push_outcome:
  assumes ok: "receiver_ok P r"
  shows "\<exists>res r'. try_push P r bytes = Some (res, r') \<and> outcome P r bytes res r' \<and> receiver_ok P r'"
proof (cases "parse_frame P bytes")
  case None
  then show ?thesis using ok by (auto simp: try_push_def intro: outcome.damaged)
next
  case (Some hb)
  obtain h block where p: "parse_frame P bytes = Some (h, block)" using Some by (cases hb) simp
  from admit_total [OF ok, of h] obtain a where a: "admit P r h = Some a" by blast
  show ?thesis
  proof (cases a)
    case (Inl e)
    then show ?thesis using p a ok by (auto simp: try_push_def intro: outcome.refused)
  next
    case (Inr r1)
    from admit_ok [OF ok] a Inr obtain d where d: "r1 = r\<lparr>rc_decoder := Some d, rc_identity := Some (stream_identity h)\<rparr>"
      "serves P (stream_identity h) d" "\<not> over_limits r h" "rc_delivered r = is_complete d" by blast
    have adm: "admit P r h = Some (Inr (r\<lparr>rc_decoder := Some d, rc_identity := Some (stream_identity h)\<rparr>))"
      using a Inr d(1) by simp
    have run: "try_push P r bytes = deliver P r1 h block" using p a Inr by (simp add: try_push_def)
    show ?thesis
    proof (cases "rc_delivered r")
      case True
      then obtain sid d0 where sid: "rc_identity r = Some sid" "rc_decoder r = Some d0"
        using ok by (auto simp: receiver_ok_def split: option.splits)
      then have same: "sid = stream_identity h" "r1 = r" using a Inr by (auto simp: admit_def Let_def split: if_splits)
      then show ?thesis using run True ok p sid by (auto simp: deliver_def intro: outcome.late)
    next
      case False
      from serves_step [OF d(2), of "fh_seq h" block] obtain d' where d': "add_frame P d (fh_seq h) block = Some d'"
        "serves P (stream_identity h) d'" by blast
      note keep = receiver_ok_def over_limits_def stream_identity_def
      consider (more) "\<not> is_complete d'"
        | (full) c where "is_complete d'" "assemble d' = Some (Some c)" "length c = unat (fh_total_len h)"
        using serves_assemble [OF d'(2)] by (auto simp: stream_identity_def)
      then show ?thesis
      proof cases
        case more
        then have "try_push P r bytes =
            Some (Inr None, r\<lparr>rc_decoder := Some d', rc_identity := Some (stream_identity h)\<rparr>)"
          using run d(1) d'(1) False by (simp add: deliver_def Let_def)
        then show ?thesis using outcome.absorbed [OF p False adm d(2,3) d' more] more d(3) d'(2) False
          by (auto simp: keep)
      next
        case full
        show ?thesis
        proof (cases "checksum32 P c = fh_stream_tag h")
          case True
          then have "try_push P r bytes = Some (Inr (Some c),
              r\<lparr>rc_decoder := Some d', rc_identity := Some (stream_identity h), rc_delivered := True\<rparr>)"
            using run d(1) d'(1) False full by (simp add: deliver_def Let_def)
          then show ?thesis using outcome.completed [OF p False adm d(2,3) d' full True] full d(3) d'(2)
            by (auto simp: keep)
        next
          case bad: False
          then have "try_push P r bytes = Some (Inl CorruptFrame, reset r)"
            using run d(1) d'(1) False full by (simp add: deliver_def Let_def reset_def)
          then show ?thesis using outcome.mistagged [OF p False adm d(2) d'(1) full(2) bad] by auto
        qed
      qed
    qed
  qed
qed

end
