(* ===== verification/Channel.thy ===== *)
theory Channel
  imports Session
begin

text \<open>
  Transfers over a channel (\<open>src/session.rs\<close>): a sender's frames, a channel that loses, repeats,
  reorders, damages and mixes messages, and a receiver. \<open>emit\<close> runs a sender for a number of
  calls, \<open>push_all\<close> hands a receiver a list of byte strings, \<open>reachable\<close> is the
  transition system of a receiver whose owner may push anything and reset at any time. \<open>channel_run\<close>
  is the soundness of a transfer, \<open>channel_delivers\<close> decides its completion.
\<close>

section \<open>Runs\<close>

fun emit :: "'m wire_platform_scheme \<Rightarrow> sender \<Rightarrow> nat \<Rightarrow> (session_frame result list \<times> sender) option" where
  "emit P s 0 = Some ([], s)"
| "emit P s (Suc n) = do {
     (r, s) \<leftarrow> try_next_frame P s;
     (rs, s) \<leftarrow> emit P s n;
     Some (r # rs, s) }"

fun push_all :: "'m wire_platform_scheme \<Rightarrow> receiver \<Rightarrow> u8 list list \<Rightarrow>
    (u8 list option result list \<times> receiver) option" where
  "push_all P r [] = Some ([], r)"
| "push_all P r (m # ms) = do {
     (res, r) \<leftarrow> try_push P r m;
     (rs, r) \<leftarrow> push_all P r ms;
     Some (res # rs, r) }"

fun delivered_by :: "u8 list option result \<Rightarrow> u8 list list" where
  "delivered_by (Inr (Some c)) = [c]"
| "delivered_by _ = []"

definition deliveries :: "u8 list option result list \<Rightarrow> u8 list list" where
  "deliveries rs = concat (map delivered_by rs)"

lemma deliveries_simps [simp]:
  "deliveries [] = []" "deliveries (res # rs) = delivered_by res @ deliveries rs"
  by (simp_all add: deliveries_def)

inductive reachable :: "'m wire_platform_scheme \<Rightarrow> receiver \<Rightarrow> bool" for P where
  started: "reachable P (receiver_with_limits limits)"
| pushed: "reachable P r \<Longrightarrow> try_push P r bytes = Some (res, r') \<Longrightarrow> reachable P r'"
| was_reset: "reachable P r \<Longrightarrow> reachable P (reset r)"

lemma try_push_ok:
  assumes "receiver_ok P r" and "try_push P r bytes = Some (res, r')"
  shows "outcome P r bytes res r'" and "receiver_ok P r'"
  using try_push_outcome [OF assms(1), of bytes] assms(2) by auto

lemma reachable_ok: "reachable P r \<Longrightarrow> receiver_ok P r"
  by (induction rule: reachable.induct) (simp_all add: try_push_ok(2))

section \<open>At most one delivery\<close>

lemma late_outcome:
  assumes "outcome P r bytes res r'" and "receiver_ok P r" and "rc_delivered r"
  shows "r' = r \<and> delivered_by res = []"
  using assms by cases (auto simp: receiver_ok_def)

lemma outcome_limits: "outcome P r bytes res r' \<Longrightarrow> rc_limits r' = rc_limits r"
  by (cases rule: outcome.cases) (auto simp: reset_def)

lemma early_outcome:
  assumes "outcome P r bytes res r'" and "\<not> rc_delivered r"
  shows "delivered_by res = [] \<and> \<not> rc_delivered r' \<or>
    (\<exists>c sid. res = Inr (Some c) \<and> rc_delivered r' \<and> rc_identity r' = Some sid \<and>
      length c = unat (si_total_len sid) \<and> checksum32 P c = si_stream_tag sid)"
  using assms by cases (auto simp: reset_def stream_identity_def)

lemma push_all_late:
  assumes "receiver_ok P r" and "rc_delivered r"
  shows "\<exists>rs. push_all P r ms = Some (rs, r) \<and> length rs = length ms \<and> deliveries rs = []"
proof (induction ms)
  case (Cons m ms)
  obtain res r' where "try_push P r m = Some (res, r')" "outcome P r m res r'"
    using try_push_outcome [OF assms(1), of m] by blast
  moreover from late_outcome [OF this(2) assms] have "r' = r" "delivered_by res = []" by simp_all
  ultimately show ?case using Cons by auto
qed simp

lemma push_all_once:
  assumes "receiver_ok P r" and "\<not> rc_delivered r"
  shows "\<exists>rs r'. push_all P r ms = Some (rs, r') \<and> length rs = length ms \<and> receiver_ok P r' \<and>
    (deliveries rs = [] \<and> \<not> rc_delivered r' \<or>
     (\<exists>c sid. deliveries rs = [c] \<and> rc_delivered r' \<and> rc_identity r' = Some sid \<and>
       length c = unat (si_total_len sid) \<and> checksum32 P c = si_stream_tag sid))"
  using assms
proof (induction ms arbitrary: r)
  case Nil
  then show ?case by simp
next
  case (Cons m ms)
  obtain res r1 where step: "try_push P r m = Some (res, r1)" "outcome P r m res r1" "receiver_ok P r1"
    using try_push_outcome [OF Cons.prems(1), of m] by blast
  from early_outcome [OF step(2) Cons.prems(2)] consider
    (quiet) "delivered_by res = []" "\<not> rc_delivered r1"
    | (out) c sid where "res = Inr (Some c)" "rc_delivered r1" "rc_identity r1 = Some sid"
        "length c = unat (si_total_len sid)" "checksum32 P c = si_stream_tag sid" by blast
  then show ?case
  proof cases
    case quiet
    from Cons.IH [OF step(3) quiet(2)] obtain rs r' where run: "push_all P r1 ms = Some (rs, r')" "length rs = length ms"
      "receiver_ok P r'" and end_cases: "deliveries rs = [] \<and> \<not> rc_delivered r' \<or>
       (\<exists>c sid. deliveries rs = [c] \<and> rc_delivered r' \<and> rc_identity r' = Some sid \<and>
         length c = unat (si_total_len sid) \<and> checksum32 P c = si_stream_tag sid)" by blast
    have "push_all P r (m # ms) = Some (res # rs, r')" using step(1) run(1) by simp
    then show ?thesis using run(2,3) end_cases quiet(1) by (intro exI [of _ "res # rs"] exI [of _ r']) simp
  next
    case out
    from push_all_late [OF step(3) out(2), of ms] obtain rs where
      run: "push_all P r1 ms = Some (rs, r1)" "length rs = length ms" "deliveries rs = []" by blast
    have "push_all P r (m # ms) = Some (res # rs, r1)" using step(1) run(1) by simp
    then show ?thesis using run(2,3) step(3) out by (intro exI [of _ "res # rs"] exI [of _ r1]) simp
  qed
qed

section \<open>The sender's frames\<close>

definition sender_ok :: "'m wire_platform_scheme \<Rightarrow> u8 list \<Rightarrow> sender \<Rightarrow> bool" where
  "sender_ok P container s \<longleftrightarrow> enc_ok container (sd_encoder s) \<and>
     le_block_len (sd_encoder s) = unat (sd_block_len s) \<and> le_k (sd_encoder s) = unat (sd_k s) \<and>
     le_session_id (sd_encoder s) = ucast (sd_session_id s) \<and>
     le_sys_span (sd_encoder s) = mode_span (sd_flags s) (unat (sd_k s)) \<and>
     le_causal (sd_encoder s) = (sd_flags s = FLAG_CAUSAL) \<and>
     degree_cdf_new P (unat (sd_k s)) = Some (le_cdf (sd_encoder s)) \<and>
     unat (sd_total_len s) = length container \<and> sd_stream_tag s = checksum32 P container"

definition frame_of :: "'m wire_platform_scheme \<Rightarrow> u8 list \<Rightarrow> sender \<Rightarrow> u32 \<Rightarrow> session_frame" where
  "frame_of P container s seq =
     (let block = frame_data container (unat (sd_block_len s)) (enc_blocks (sd_encoder s) seq);
          header = \<lparr>fh_flags = sd_flags s, fh_session_id = sd_session_id s, fh_seq = seq, fh_k = sd_k s,
            fh_block_len = sd_block_len s, fh_total_len = sd_total_len s, fh_stream_tag = sd_stream_tag s,
            fh_frame_tag = 0\<rparr>
      in \<lparr>sf_header = header\<lparr>fh_frame_tag := frame_checksum P header block\<rparr>, sf_block = block\<rparr>)"

definition pos :: "sender \<Rightarrow> nat" where
  "pos s = (if sd_exhausted s then 2 ^ 32 else unat (sd_seq s))"

lemma blocks_fit:
  assumes "params_ok container bl"
  shows "source_block_count (length container) (bl + HEADER_LEN) = Some (div_ceil (length container) bl)"
    and "0 < div_ceil (length container) bl" and "div_ceil (length container) bl \<le> 0xffff"
  using assms div_ceil_pos [of bl "length container"]
  by (auto simp: source_block_count_def block_length_def checked_sub_def params_ok_def MAX_SOURCE_BLOCKS_def)

lemma sender_with_mode_ok:
  assumes "params_ok container bl"
  shows "\<exists>s. sender_with_mode P container bl session_id flags = Some (Inr s) \<and> sender_ok P container s \<and>
    sd_seq s = 0 \<and> \<not> sd_exhausted s \<and> sd_session_id s = session_id \<and> sd_flags s = flags \<and>
    unat (sd_k s) = div_ceil (length container) bl \<and> unat (sd_block_len s) = bl"
proof -
  let ?k = "div_ceil (length container) bl" and ?causal = "flags = FLAG_CAUSAL"
  have p: "container \<noteq> []" "0 < bl" "bl \<le> 0xffff" "length container \<le> MAX_STREAM_BYTES"
    using assms by (simp_all add: params_ok_def)
  note k = blocks_fit [OF assms]
  have k': "checked_encoder_k container bl = Inr ?k" using assms by (simp add: checked_encoder_k_ok)
  obtain enc where enc: "encoder_with_mode P container bl (ucast session_id) (mode_span flags ?k) ?causal = Some (Inr enc)"
    "enc_ok container enc" "le_block_len enc = bl" "le_session_id enc = ucast session_id"
    "le_sys_span enc = mode_span flags ?k" "le_causal enc = ?causal" "degree_cdf_new P (le_k enc) = Some (le_cdf enc)"
    using encoder_with_mode_ok [OF assms mode_span_cases [of flags], where P = P and session = "ucast session_id"
        and causal = ?causal] by blast
  have lk: "le_k enc = ?k" using enc(2,3) by (simp add: enc_ok_def)
  have run: "(if flags = FLAG_CAUSAL then encoder_try_new_causal P container bl (ucast session_id)
      else if flags = FLAG_SYSTEMATIC then encoder_try_new_systematic P container bl (ucast session_id)
      else encoder_try_new P container bl (ucast session_id)) = Some (Inr enc)"
    using enc(1) k' flags_differ
    by (auto simp: mode_span_def encoder_try_new_causal_def encoder_try_new_systematic_def encoder_try_new_def)
  have w: "unat (word_of_nat ?k :: u16) = ?k" "unat (word_of_nat bl :: u16) = bl"
    "unat (word_of_nat (length container) :: u32) = length container"
    using k p(3,4) by (simp_all add: unat_of_nat MAX_STREAM_BYTES_def MAX_FILE_BYTES_def)
  let ?s = "\<lparr>sd_encoder = enc, sd_seq = 0, sd_exhausted = False, sd_session_id = session_id, sd_k = word_of_nat ?k,
    sd_block_len = word_of_nat bl, sd_total_len = word_of_nat (length container),
    sd_stream_tag = checksum32 P container, sd_flags = flags\<rparr>"
  have "checked_add bl HEADER_LEN = Some (bl + HEADER_LEN)"
    using p(3) by (simp add: checked_add_def HEADER_LEN_def usize_max_def)
  then have "sender_with_mode P container bl session_id flags = Some (Inr ?s)"
    unfolding sender_with_mode_def run using p k by simp
  moreover have "sender_ok P container ?s" using enc lk w by (simp add: sender_ok_def)
  ultimately show ?thesis using w by (intro exI [of _ ?s]) simp
qed

lemma sender_with_mode_err:
  assumes "\<not> params_ok container bl"
  shows "sender_with_mode P container bl session_id flags =
    Some (Inl (if container = [] then Empty
      else if 0 < bl \<and> bl \<le> 0xffff \<and> MAX_STREAM_BYTES < length container
      then TooLarge (length container) MAX_STREAM_BYTES else InvalidStream))"
proof (cases "container = [] \<or> bl = 0 \<or> bl > 0xffff \<or> length container > MAX_STREAM_BYTES")
  case True
  then show ?thesis by (auto simp: sender_with_mode_def)
next
  case False
  then have "source_block_count (length container) (bl + HEADER_LEN) = Some (div_ceil (length container) bl)"
    "0xffff < div_ceil (length container) bl"
    using assms by (auto simp: source_block_count_def block_length_def checked_sub_def params_ok_def MAX_SOURCE_BLOCKS_def)
  moreover have "checked_add bl HEADER_LEN = Some (bl + HEADER_LEN)"
    using False by (simp add: checked_add_def HEADER_LEN_def usize_max_def)
  ultimately show ?thesis using False by (simp add: sender_with_mode_def)
qed

lemma try_next_frame_ok:
  assumes ok: "sender_ok P container s"
  shows "\<exists>s'. try_next_frame P s =
      Some (if sd_exhausted s then Inl SequenceExhausted else Inr (frame_of P container s (sd_seq s)), s') \<and>
    sender_ok P container s' \<and> frame_of P container s' = frame_of P container s \<and>
    pos s' = min (pos s + 1) (2 ^ 32)"
proof (cases "sd_exhausted s")
  case True
  then show ?thesis using ok by (auto simp: try_next_frame_def pos_def)
next
  case False
  have enc: "enc_ok container (sd_encoder s)" and bl: "le_block_len (sd_encoder s) = unat (sd_block_len s)"
    using ok by (simp_all add: sender_ok_def)
  from encode_ok [OF enc, of P "sd_seq s"] obtain enc' where e:
    "encode P (sd_encoder s) (sd_seq s) =
       Some (frame_data container (unat (sd_block_len s)) (enc_blocks (sd_encoder s) (sd_seq s)), enc')"
    "enc_ok container enc'" "\<forall>q. enc_blocks enc' q = enc_blocks (sd_encoder s) q"
    "enc' = (sd_encoder s)\<lparr>le_idx := le_idx enc', le_idx_scratch := le_idx_scratch enc', le_acc := le_acc enc'\<rparr>"
    unfolding bl by blast
  have keep: "le_block_len enc' = le_block_len (sd_encoder s)" "le_k enc' = le_k (sd_encoder s)"
    "le_session_id enc' = le_session_id (sd_encoder s)" "le_sys_span enc' = le_sys_span (sd_encoder s)"
    "le_causal enc' = le_causal (sd_encoder s)" "le_cdf enc' = le_cdf (sd_encoder s)"
    by (subst e(4), simp)+
  define s' where "s' = (if sd_seq s = 0xffffffff then s\<lparr>sd_encoder := enc', sd_exhausted := True\<rparr>
    else s\<lparr>sd_encoder := enc', sd_seq := sd_seq s + 1\<rparr>)"
  have "try_next_frame P s = Some (Inr (frame_of P container s (sd_seq s)), s')"
    using False e(1) by (simp add: try_next_frame_def frame_of_def s'_def Let_def)
  moreover have "sender_ok P container s'" using ok e(2) keep by (simp add: sender_ok_def s'_def)
  moreover have "frame_of P container s' = frame_of P container s"
    using e(3) by (simp add: frame_of_def s'_def fun_eq_iff)
  moreover have "pos s' = min (pos s + 1) (2 ^ 32)"
  proof (cases "sd_seq s = 0xffffffff")
    case True
    then show ?thesis using False by (simp add: s'_def pos_def)
  next
    case more: False
    then have "unat (sd_seq s) \<noteq> unat (0xffffffff :: u32)" by (simp only: word_unat_eq_iff not_False_eq_True)
    then have "unat (sd_seq s) < 2 ^ 32 - 1" using u32_less [of "sd_seq s"] by simp
    moreover from this have "unat (sd_seq s + 1) = unat (sd_seq s) + 1"
      by (simp add: unat_word_ariths)
    ultimately show ?thesis using False more by (simp add: s'_def pos_def)
  qed
  ultimately show ?thesis using False by (intro exI [of _ s']) simp
qed

lemma pos_exhausted: "sender_ok P container s \<Longrightarrow> sd_exhausted s \<longleftrightarrow> 2 ^ 32 \<le> pos s"
  using u32_less [of "sd_seq s"] by (auto simp: pos_def)

lemma pos_seq: "pos s < 2 ^ 32 \<Longrightarrow> sd_seq s = word_of_nat (pos s)"
  by (auto simp: pos_def split: if_splits)

definition numbered :: "'m wire_platform_scheme \<Rightarrow> u8 list \<Rightarrow> sender \<Rightarrow> nat \<Rightarrow> session_frame result" where
  "numbered P container s i =
     (if i < 2 ^ 32 then Inr (frame_of P container s (word_of_nat i)) else Inl SequenceExhausted)"

lemma emit_run:
  assumes "sender_ok P container s"
  shows "\<exists>s'. emit P s n = Some (map (numbered P container s) (map (\<lambda>i. min (pos s + i) (2 ^ 32)) [0..<n]), s') \<and>
    sender_ok P container s'"
  using assms
proof (induction n arbitrary: s)
  case 0
  then show ?case by simp
next
  case (Suc n)
  from try_next_frame_ok [OF Suc.prems] obtain s1 where s1: "try_next_frame P s =
      Some (if sd_exhausted s then Inl SequenceExhausted else Inr (frame_of P container s (sd_seq s)), s1)"
    "sender_ok P container s1" "frame_of P container s1 = frame_of P container s" "pos s1 = min (pos s + 1) (2 ^ 32)" by blast
  from Suc.IH [OF s1(2)] obtain s' where s': "emit P s1 n =
      Some (map (numbered P container s1) (map (\<lambda>i. min (pos s1 + i) (2 ^ 32)) [0..<n]), s')" "sender_ok P container s'" by blast
  have first: "(if sd_exhausted s then Inl SequenceExhausted else Inr (frame_of P container s (sd_seq s))) =
      numbered P container s (min (pos s + 0) (2 ^ 32))"
    using pos_exhausted [OF Suc.prems] pos_seq [of s] by (auto simp: numbered_def)
  have same: "numbered P container s1 = numbered P container s" using s1(3) by (simp add: numbered_def fun_eq_iff)
  have shift: "map (\<lambda>i. min (pos s1 + i) (2 ^ 32)) [0..<n] = map (\<lambda>i. min (pos s + i) (2 ^ 32)) (map Suc [0..<n])"
    by (auto simp: s1(4) min_def)
  have "[0..<Suc n] = 0 # map Suc [0..<n]" unfolding map_Suc_upt by (rule upt_conv_Cons) simp
  then have "emit P s (Suc n) =
      Some (map (numbered P container s) (map (\<lambda>i. min (pos s + i) (2 ^ 32)) [0..<Suc n]), s')"
    using s1(1) s'(1) unfolding first same shift by simp
  then show ?case using s'(2) by blast
qed

lemma emit_fresh:
  assumes "sender_ok P container s" and "sd_seq s = 0" and "\<not> sd_exhausted s"
  shows "\<exists>s'. emit P s n = Some (map (numbered P container s) [0..<n], s')"
proof -
  have "numbered P container s (min (pos s + i) (2 ^ 32)) = numbered P container s i" for i
    using assms(2,3) by (simp add: pos_def numbered_def min_def)
  then show ?thesis using emit_run [OF assms(1), of n] by (auto simp: comp_def)
qed

section \<open>Sent messages\<close>

definition sender_identity :: "sender \<Rightarrow> stream_id" where
  "sender_identity s = \<lparr>si_flags = sd_flags s, si_session_id = sd_session_id s, si_k = sd_k s,
     si_block_len = sd_block_len s, si_total_len = sd_total_len s, si_stream_tag = sd_stream_tag s\<rparr>"

text \<open>A byte string that one of the first \<open>n\<close> calls of the sender put on the wire, and a byte
  string that is damaged or belongs to another stream.\<close>

definition sent :: "'m wire_platform_scheme \<Rightarrow> sender \<Rightarrow> nat \<Rightarrow> u8 list \<Rightarrow> bool" where
  "sent P s n m \<longleftrightarrow> (\<exists>rs s' f. emit P s n = Some (rs, s') \<and> Inr f \<in> set rs \<and> frame_to_bytes P f = Some m)"

definition noise :: "'m wire_platform_scheme \<Rightarrow> sender \<Rightarrow> u8 list \<Rightarrow> bool" where
  "noise P s m \<longleftrightarrow> (case parse_frame P m of None \<Rightarrow> True | Some (h, block) \<Rightarrow> stream_identity h \<noteq> sender_identity s)"

definition good_flags :: "u8 \<Rightarrow> bool" where
  "good_flags flags \<longleftrightarrow> flags \<in> {0, FLAG_SYSTEMATIC, FLAG_CAUSAL}"

lemma frame_of_parses:
  assumes "codec_ok P" and "sender_ok P container s" and "good_flags (sd_flags s)"
    and "frame_to_bytes P (frame_of P container s seq) = Some m"
  shows "\<exists>h. parse_frame P m = Some (h, frame_data container (unat (sd_block_len s)) (enc_blocks (sd_encoder s) seq)) \<and>
    fh_seq h = seq \<and> stream_identity h = sender_identity s"
proof -
  let ?f = "frame_of P container s seq"
  have e: "0 < unat (sd_k s)" "0 < unat (sd_block_len s)" "0 < unat (sd_total_len s)"
    using assms(2) by (auto simp: sender_ok_def enc_ok_def)
  have "header_ok (sf_header ?f)"
    using e assms(3) by (auto simp: header_ok_def frame_of_def Let_def good_flags_def unat_gt_0)
  moreover have "length (sf_block ?f) = unat (fh_block_len (sf_header ?f))"
    by (simp add: frame_of_def Let_def length_frame_data)
  moreover have "fh_frame_tag (sf_header ?f) = frame_checksum P (sf_header ?f) (sf_block ?f)"
    by (simp add: frame_of_def Let_def frame_checksum_def)
  ultimately have "parse_frame P m = Some (sf_header ?f, sf_block ?f)"
    using pack_parse [OF assms(1)] assms(4) by (fastforce simp: frame_to_bytes_def)
  then show ?thesis by (simp add: frame_of_def Let_def stream_identity_def sender_identity_def)
qed

lemma sent_frame:
  assumes "sender_ok P container s" and "sd_seq s = 0" and "\<not> sd_exhausted s" and "sent P s n m"
  shows "\<exists>seq. unat seq < n \<and> frame_to_bytes P (frame_of P container s seq) = Some m"
proof -
  obtain f where f: "Inr f \<in> set (map (numbered P container s) [0..<n])" "frame_to_bytes P f = Some m"
    using assms(4) emit_fresh [OF assms(1-3), of n] by (auto simp: sent_def)
  then obtain i where i: "i < n" "Inr f = numbered P container s i" by auto
  then have "i < 2 ^ 32" "f = frame_of P container s (word_of_nat i)" by (auto simp: numbered_def split: if_splits)
  then show ?thesis using i(1) f(2) by (intro exI [of _ "word_of_nat i"]) (simp add: unat_of_nat)
qed

section \<open>Receiving sent messages\<close>

definition tuned :: "'m wire_platform_scheme \<Rightarrow> u8 list \<Rightarrow> sender \<Rightarrow> receiver \<Rightarrow> bool" where
  "tuned P container s r \<longleftrightarrow> receiver_ok P r \<and> rc_limits r = LIMITS_MAXIMUM \<and>
     (\<forall>d. rc_decoder r = Some d \<longrightarrow> rc_identity r = Some (sender_identity s) \<and>
        agrees (source_words container (ld_block_len d)) (ld_words d) (peel_of d []))"

text \<open>The decoder that takes the next frame: the receiver's own, or the one it opens.\<close>

definition takes :: "'m wire_platform_scheme \<Rightarrow> sender \<Rightarrow> receiver \<Rightarrow> lt_decoder \<Rightarrow> bool" where
  "takes P s r d \<longleftrightarrow> serves P (sender_identity s) d \<and>
     (rc_decoder r = Some d \<or> rc_decoder r = None \<and> peel_of d [] = (Map.empty, Map.empty, []) \<and>
        set_elems (ld_seen d) = {} \<and> ld_pending_edges d = 0)"

lemma serves_blocks:
  assumes "sender_ok P container s" and "serves P (sender_identity s) d"
  shows "dec_blocks d seq = enc_blocks (sd_encoder s) seq" and "ld_block_len d = unat (sd_block_len s)"
proof -
  have "ld_cdf d = le_cdf (sd_encoder s)" using assms by (auto simp: serves_def sender_ok_def sender_identity_def)
  then show "dec_blocks d seq = enc_blocks (sd_encoder s) seq" "ld_block_len d = unat (sd_block_len s)"
    using assms by (simp_all add: serves_def sender_ok_def sender_identity_def dec_blocks_def enc_blocks_def)
qed

lemma announced_sender:
  assumes "sender_ok P container s" and "stream_identity h = sender_identity s"
  shows "announced h" and "rc_limits r = LIMITS_MAXIMUM \<Longrightarrow> \<not> over_limits r h"
proof -
  have h: "fh_k h = sd_k s" "fh_block_len h = sd_block_len s" "fh_total_len h = sd_total_len s"
    using assms(2) by (simp_all add: stream_identity_def sender_identity_def)
  have e: "enc_ok container (sd_encoder s)" "le_block_len (sd_encoder s) = unat (sd_block_len s)"
    "le_k (sd_encoder s) = unat (sd_k s)" "unat (sd_total_len s) = length container"
    using assms(1) by (simp_all add: sender_ok_def)
  then show "announced h" by (simp add: announced_def stream_ok_def h enc_ok_def)
  show "\<not> over_limits r h" if "rc_limits r = LIMITS_MAXIMUM"
    using e that by (simp add: over_limits_def h LIMITS_MAXIMUM_def enc_ok_def)
qed

lemma agrees_empty: "agrees X w (Map.empty, Map.empty, [])"
  by (simp add: agrees_def)

lemma admit_sent:
  assumes "sender_ok P container s" and "tuned P container s r" and "stream_identity h = sender_identity s"
  shows "\<exists>d. admit P r h = Some (Inr (r\<lparr>rc_decoder := Some d, rc_identity := Some (sender_identity s)\<rparr>)) \<and>
    takes P s r d \<and> agrees (source_words container (ld_block_len d)) (ld_words d) (peel_of d [])"
proof (cases "rc_identity r")
  case None
  have lim: "\<not> over_limits r h" using announced_sender(2) [OF assms(1,3)] assms(2) by (simp add: tuned_def)
  have "rc_decoder r = None" using assms(2) None by (simp add: tuned_def receiver_ok_def)
  then show ?thesis
    using admit_fresh [OF None, of h P] lim announced_sender(1) [OF assms(1,3)] assms(3)
    by (auto simp: takes_def agrees_empty)
next
  case (Some sid)
  obtain d where d: "rc_decoder r = Some d" "serves P sid d"
    using assms(2) Some by (auto simp: tuned_def receiver_ok_def)
  then have t: "sid = sender_identity s" "agrees (source_words container (ld_block_len d)) (ld_words d) (peel_of d [])"
    using assms(2) Some by (simp_all add: tuned_def)
  have "r = r\<lparr>rc_decoder := Some d, rc_identity := Some sid\<rparr>" using d(1) Some by simp
  then show ?thesis using t d Some assms(3)
    by (intro exI [of _ d]) (simp add: admit_def takes_def)
qed

lemma push_sent:
  assumes s: "sender_ok P container s" and r: "tuned P container s r"
    and m: "parse_frame P m = Some (h, frame_data container (unat (sd_block_len s)) (enc_blocks (sd_encoder s) (fh_seq h)))"
      "stream_identity h = sender_identity s"
  shows "\<exists>d d' out r'. try_push P r m = Some (Inr out, r') \<and> tuned P container s r' \<and>
    rc_identity r' = Some (sender_identity s) \<and> takes P s r d \<and> rc_decoder r' = Some d' \<and>
    (if rc_delivered r then d' = d \<and> out = None
     else (\<exists>block. length block = ld_block_len d \<and> add_frame P d (fh_seq h) block = Some d') \<and>
       out = (if rc_delivered r' then Some container else None))"
proof -
  let ?block = "frame_data container (unat (sd_block_len s)) (enc_blocks (sd_encoder s) (fh_seq h))"
  obtain d where adm: "admit P r h = Some (Inr (r\<lparr>rc_decoder := Some d, rc_identity := Some (sender_identity s)\<rparr>))"
    and t: "takes P s r d" and agr: "agrees (source_words container (ld_block_len d)) (ld_words d) (peel_of d [])"
    using admit_sent [OF s r m(2)] by blast
  have srv: "serves P (sender_identity s) d" and ok: "receiver_ok P r" and lim: "rc_limits r = LIMITS_MAXIMUM"
    using t r by (simp_all add: takes_def tuned_def)
  let ?r = "r\<lparr>rc_decoder := Some d, rc_identity := Some (sender_identity s)\<rparr>"
  have run: "try_push P r m = deliver P ?r h ?block" using m(1) adm by (simp add: try_push_def)
  show ?thesis
  proof (cases "rc_delivered r")
    case True
    then have "rc_decoder r = Some d" using t ok by (auto simp: takes_def receiver_ok_def split: option.splits)
    moreover from this have "rc_identity r = Some (sender_identity s)" using r by (simp add: tuned_def)
    ultimately have "?r = r" "try_push P r m = Some (Inr None, r)" using run True by (simp_all add: deliver_def)
    then show ?thesis using True r t \<open>rc_decoder r = Some d\<close> \<open>rc_identity r = Some (sender_identity s)\<close>
      by (intro exI [of _ d] exI [of _ None] exI [of _ r]) simp
  next
    case False
    note eqs = serves_blocks [OF s srv]
    from serves_step [OF srv, of "fh_seq h" ?block] obtain d' where d': "add_frame P d (fh_seq h) ?block = Some d'"
      "serves P (sender_identity s) d'" by blast
    have block: "?block = frame_data container (ld_block_len d) (dec_blocks d (fh_seq h))" by (simp add: eqs)
    have same: "ld_block_len d' = ld_block_len d" "ld_words d' = ld_words d"
      using add_frame_recv [of d P "fh_seq h" ?block] d'(1) srv by (auto simp: serves_def same_stream_def)
    have agr': "agrees (source_words container (ld_block_len d')) (ld_words d') (peel_of d' [])"
      using genuine_step [OF _ agr, of P "fh_seq h" d'] srv d'(1) unfolding block same by (simp add: serves_def)
    have whole: "assemble d' = Some (if is_complete d' then Some container else None)"
      using genuine_assemble [OF _ agr'] recv_closure(4) [of d'] d'(2) s
      by (auto simp: serves_def sender_identity_def sender_ok_def assemble_def)
    let ?r' = "r\<lparr>rc_decoder := Some d', rc_identity := Some (sender_identity s), rc_delivered := is_complete d'\<rparr>"
    have tag: "checksum32 P container = fh_stream_tag h"
      using s m(2) by (simp add: sender_ok_def stream_identity_def sender_identity_def)
    have step: "try_push P r m = Some (Inr (if is_complete d' then Some container else None), ?r')"
      using run False d'(1) whole tag by (simp add: deliver_def Let_def)
    have "receiver_ok P ?r'" using try_push_ok(2) [OF ok step] .
    then have "tuned P container s ?r'" using lim agr' by (simp add: tuned_def)
    moreover have "\<exists>block. length block = ld_block_len d \<and> add_frame P d (fh_seq h) block = Some d'"
      using d'(1) eqs by (intro exI [of _ ?block]) simp
    ultimately show ?thesis using step False t
      by - (rule exI [of _ d], rule exI [of _ d'],
          rule exI [of _ "if is_complete d' then Some container else None"], rule exI [of _ ?r'], simp)
  qed
qed

lemma push_noise:
  assumes "noise P s m" and "rc_identity r = Some (sender_identity s)"
  shows "\<exists>e. try_push P r m = Some (Inl e, r)"
  using assms by (auto simp: noise_def try_push_def admit_def Let_def split: option.splits)

section \<open>The numbers a receiver has caught\<close>

text \<open>The blocks that the frame with sequence number \<open>q\<close> of a sender combines.\<close>

definition sender_equation :: "sender \<Rightarrow> u32 \<Rightarrow> nat set" where
  "sender_equation s q = unat ` set (enc_blocks (sd_encoder s) q)"

definition receiver_caught :: "u32 set \<Rightarrow> receiver \<Rightarrow> bool" where
  "receiver_caught S r \<longleftrightarrow> (case rc_decoder r of None \<Rightarrow> S = {} | Some d \<Rightarrow> caught S d)"

lemma serves_equation:
  assumes "sender_ok P container s" and "serves P (sender_identity s) d"
  shows "eqn_of d = sender_equation s" and "ld_k d = unat (sd_k s)"
  using serves_blocks(1) [OF assms] assms(2)
  by (simp_all add: eqn_of_def sender_equation_def fun_eq_iff serves_def sender_identity_def)

lemma takes_caught:
  assumes "takes P s r d" and "receiver_caught S r"
  shows "caught S d"
  using assms by (auto simp: takes_def receiver_caught_def caught_def room_ok_def serves_def)

lemma tuned_decoder:
  assumes "tuned P container s r" and "rc_decoder r = Some d"
  shows "serves P (sender_identity s) d" and "rc_delivered r = is_complete d"
  using assms by (auto simp: tuned_def receiver_ok_def split: option.splits)

lemma takes_delivered:
  assumes "tuned P container s r" and "takes P s r d" and "rc_delivered r"
  shows "rc_decoder r = Some d" and "is_complete d"
proof -
  show d: "rc_decoder r = Some d"
    using assms by (auto simp: takes_def tuned_def receiver_ok_def split: option.splits)
  show "is_complete d" using tuned_decoder(2) [OF assms(1) d] assms(3) by simp
qed

lemma receiver_caught_step:
  assumes s: "sender_ok P container s" and r: "tuned P container s r"
    and m: "parse_frame P m = Some (h, frame_data container (unat (sd_block_len s)) (enc_blocks (sd_encoder s) (fh_seq h)))"
      "stream_identity h = sender_identity s"
    and room: "roomy (unat (sd_k s)) (sender_equation s) (insert (fh_seq h) S)"
    and got: "receiver_caught S r" and push: "try_push P r m = Some (res, r')"
  shows "receiver_caught (insert (fh_seq h) S) r'"
proof -
  from push_sent [OF s r m] push obtain d d' out where d: "takes P s r d" "rc_decoder r' = Some d'"
    and cases: "if rc_delivered r then d' = d \<and> out = None
     else (\<exists>block. length block = ld_block_len d \<and> add_frame P d (fh_seq h) block = Some d') \<and>
       out = (if rc_delivered r' then Some container else None)" by auto
  have c: "caught S d" by (rule takes_caught [OF d(1) got])
  have srv: "serves P (sender_identity s) d" using d(1) by (simp add: takes_def)
  have "caught (insert (fh_seq h) S) d'"
  proof (cases "rc_delivered r")
    case True
    then show ?thesis using takes_delivered(2) [OF r d(1)] cases c by (auto simp: caught_def)
  next
    case False
    then obtain block where b: "length block = ld_block_len d" "add_frame P d (fh_seq h) block = Some d'"
      using cases by auto
    show ?thesis
      by (rule caught_step [OF c _ b(1,2)]) (use room in \<open>simp add: serves_equation [OF s srv]\<close>)
  qed
  then show ?thesis using d(2) by (simp add: receiver_caught_def)
qed

section \<open>The channel\<close>

definition channel :: "'m wire_platform_scheme \<Rightarrow> u8 list \<Rightarrow> sender \<Rightarrow> bool" where
  "channel P container s \<longleftrightarrow> codec_ok P \<and> sender_ok P container s \<and> sd_seq s = 0 \<and> \<not> sd_exhausted s \<and>
     good_flags (sd_flags s)"

lemma channel_sent:
  assumes "channel P container s" and "sent P s n m"
  shows "\<exists>h. parse_frame P m = Some (h, frame_data container (unat (sd_block_len s)) (enc_blocks (sd_encoder s) (fh_seq h))) \<and>
    stream_identity h = sender_identity s \<and> unat (fh_seq h) < n"
proof -
  have c: "codec_ok P" "sender_ok P container s" "sd_seq s = 0" "\<not> sd_exhausted s" "good_flags (sd_flags s)"
    using assms(1) by (simp_all add: channel_def)
  from sent_frame [OF c(2-4) assms(2)] obtain seq where
    seq: "unat seq < n" "frame_to_bytes P (frame_of P container s seq) = Some m" by blast
  from frame_of_parses [OF c(1,2,5) seq(2)] seq(1) show ?thesis by auto
qed

text \<open>The sequence numbers of the messages that belong to a sender's stream.\<close>

definition received :: "'m wire_platform_scheme \<Rightarrow> sender \<Rightarrow> u8 list list \<Rightarrow> u32 set" where
  "received P s ms = {seq. \<exists>m \<in> set ms. \<exists>h block. parse_frame P m = Some (h, block) \<and>
     stream_identity h = sender_identity s \<and> fh_seq h = seq}"

lemma received_Nil [simp]: "received P s [] = {}"
  by (simp add: received_def)

lemma received_noise: "noise P s m \<Longrightarrow> received P s (m # ms) = received P s ms"
  by (cases "parse_frame P m") (auto simp: received_def noise_def)

lemma received_sent:
  "parse_frame P m = Some (h, block) \<Longrightarrow> stream_identity h = sender_identity s \<Longrightarrow>
   received P s (m # ms) = insert (fh_seq h) (received P s ms)"
  by (auto simp: received_def)

text \<open>One message of a channel that may also carry noise, to a receiver locked to the sender.\<close>

lemma channel_step:
  assumes ch: "channel P container s" and r: "tuned P container s r" and m: "sent P s n m \<or> noise P s m"
    and lock: "rc_identity r = Some (sender_identity s) \<or> sent P s n m"
  shows "\<exists>res r'. try_push P r m = Some (res, r') \<and> tuned P container s r' \<and> rc_identity r' = Some (sender_identity s) \<and>
    (sent P s n m \<longrightarrow> (\<exists>out. res = Inr out)) \<and> (rc_delivered r \<longrightarrow> rc_delivered r') \<and>
    delivered_by res = (if rc_delivered r' \<and> \<not> rc_delivered r then [container] else [])"
proof (cases "sent P s n m")
  case True
  have s: "sender_ok P container s" using ch by (simp add: channel_def)
  from channel_sent [OF ch True] obtain h where h:
    "parse_frame P m = Some (h, frame_data container (unat (sd_block_len s)) (enc_blocks (sd_encoder s) (fh_seq h)))"
    "stream_identity h = sender_identity s" by blast
  from push_sent [OF s r h] obtain d d' out r' where p: "try_push P r m = Some (Inr out, r')" "tuned P container s r'"
    "rc_identity r' = Some (sender_identity s)" "takes P s r d" "rc_decoder r' = Some d'"
    "if rc_delivered r then d' = d \<and> out = None
     else (\<exists>block. length block = ld_block_len d \<and> add_frame P d (fh_seq h) block = Some d') \<and>
       out = (if rc_delivered r' then Some container else None)" by blast
  have "rc_delivered r'" if del: "rc_delivered r"
  proof -
    have "is_complete d" by (rule takes_delivered(2) [OF r p(4) del])
    then show ?thesis using p(6) del tuned_decoder(2) [OF p(2,5)] by simp
  qed
  then show ?thesis using p(1-3,6) by (auto split: if_splits)
next
  case False
  then obtain e where "try_push P r m = Some (Inl e, r)" using push_noise [of P s m r] m lock by blast
  then show ?thesis using r lock False by auto
qed

lemma channel_run:
  assumes ch: "channel P container s" and "tuned P container s r" and "\<forall>m \<in> set ms. sent P s n m \<or> noise P s m"
    and "rc_identity r = Some (sender_identity s) \<or> ms \<noteq> [] \<and> sent P s n (hd ms)"
  shows "\<exists>rs r'. push_all P r ms = Some (rs, r') \<and> tuned P container s r' \<and>
    list_all2 (\<lambda>m res. sent P s n m \<longrightarrow> (\<exists>out. res = Inr out)) ms rs \<and> (rc_delivered r \<longrightarrow> rc_delivered r') \<and>
    deliveries rs = (if rc_delivered r' \<and> \<not> rc_delivered r then [container] else [])"
  using assms(2-)
proof (induction ms arbitrary: r)
  case Nil
  then show ?case by simp
next
  case (Cons m ms)
  have m: "sent P s n m \<or> noise P s m" and lock: "rc_identity r = Some (sender_identity s) \<or> sent P s n m"
    using Cons.prems(2,3) by auto
  from channel_step [OF ch Cons.prems(1) m lock] obtain res r1 where a: "try_push P r m = Some (res, r1)"
    "tuned P container s r1" "rc_identity r1 = Some (sender_identity s)" "sent P s n m \<longrightarrow> (\<exists>out. res = Inr out)"
    "rc_delivered r \<longrightarrow> rc_delivered r1"
    "delivered_by res = (if rc_delivered r1 \<and> \<not> rc_delivered r then [container] else [])" by blast
  have rest: "\<forall>m \<in> set ms. sent P s n m \<or> noise P s m" using Cons.prems(2) by simp
  from Cons.IH [OF a(2) rest disjI1 [OF a(3)]] obtain rs r' where b: "push_all P r1 ms = Some (rs, r')" "tuned P container s r'"
    "list_all2 (\<lambda>m res. sent P s n m \<longrightarrow> (\<exists>out. res = Inr out)) ms rs" "rc_delivered r1 \<longrightarrow> rc_delivered r'"
    "deliveries rs = (if rc_delivered r' \<and> \<not> rc_delivered r1 then [container] else [])" by blast
  have "push_all P r (m # ms) = Some (res # rs, r')" using a(1) b(1) by simp
  moreover have "list_all2 (\<lambda>m res. sent P s n m \<longrightarrow> (\<exists>out. res = Inr out)) (m # ms) (res # rs)"
    using a(4) b(3) by simp
  moreover have "deliveries (res # rs) = (if rc_delivered r' \<and> \<not> rc_delivered r then [container] else [])"
    using a(5,6) b(4,5) by (cases "rc_delivered r"; cases "rc_delivered r1") simp_all
  ultimately show ?case using a(5) b(2,4) by blast
qed

lemma tuned_new: "tuned P container s receiver_new"
  by (simp add: tuned_def receiver_ok_def receiver_new_def)

lemma caught_run:
  assumes ch: "channel P container s" and "tuned P container s r" and "\<forall>m \<in> set ms. sent P s n m \<or> noise P s m"
    and "rc_identity r = Some (sender_identity s) \<or> ms \<noteq> [] \<and> sent P s n (hd ms)"
    and "receiver_caught S r" and "roomy (unat (sd_k s)) (sender_equation s) (S \<union> received P s ms)"
    and "push_all P r ms = Some (rs, r')"
  shows "receiver_caught (S \<union> received P s ms) r'"
  using assms(2-)
proof (induction ms arbitrary: r S rs)
  case Nil
  then show ?case by simp
next
  case (Cons m ms)
  have m: "sent P s n m \<or> noise P s m" and lock: "rc_identity r = Some (sender_identity s) \<or> sent P s n m"
    using Cons.prems(2,3) by auto
  have s: "sender_ok P container s" using ch by (simp add: channel_def)
  from channel_step [OF ch Cons.prems(1) m lock] obtain res r1 where a: "try_push P r m = Some (res, r1)"
    "tuned P container s r1" "rc_identity r1 = Some (sender_identity s)" by blast
  then obtain rs1 where b: "push_all P r1 ms = Some (rs1, r')" using Cons.prems(6) by (auto split: bind_splits)
  have rest: "\<forall>m \<in> set ms. sent P s n m \<or> noise P s m" using Cons.prems(2) by simp
  note IH = Cons.IH [OF a(2) rest disjI1 [OF a(3)] _ _ b]
  show ?case
  proof (cases "sent P s n m")
    case True
    from channel_sent [OF ch True] obtain h where h:
      "parse_frame P m = Some (h, frame_data container (unat (sd_block_len s)) (enc_blocks (sd_encoder s) (fh_seq h)))"
      "stream_identity h = sender_identity s" by blast
    have all: "S \<union> received P s (m # ms) = insert (fh_seq h) S \<union> received P s ms"
      by (simp add: received_sent [OF h])
    have "roomy (unat (sd_k s)) (sender_equation s) (insert (fh_seq h) S)"
      by (rule roomy_subset [OF Cons.prems(5)]) (unfold all, blast)
    from receiver_caught_step [OF s Cons.prems(1) h this Cons.prems(4) a(1)] show ?thesis
      unfolding all by (rule IH) (use Cons.prems(5) all in simp)
  next
    case False
    then obtain e where "try_push P r m = Some (Inl e, r)" using push_noise [of P s m r] m lock by blast
    then have "receiver_caught S r1" using a(1) Cons.prems(4) by simp
    moreover have "received P s (m # ms) = received P s ms" using m False by (simp add: received_noise)
    ultimately show ?thesis using IH Cons.prems(5) by simp
  qed
qed

lemma caught_delivered:
  assumes s: "sender_ok P container s" and r: "tuned P container s r" and c: "receiver_caught S r" and "S \<noteq> {}"
  shows "rc_delivered r \<longleftrightarrow> {..<unat (sd_k s)} \<subseteq> peelable (sender_equation s ` S)"
proof -
  obtain d where d: "rc_decoder r = Some d" "caught S d"
    using c assms(4) by (auto simp: receiver_caught_def split: option.splits)
  note t = tuned_decoder [OF r d(1)]
  show ?thesis using caught_complete [OF d(2)] unfolding t(2) serves_equation [OF s t(1)] .
qed

text \<open>While the numbers received fit the decoder's limits, peeling decides the delivery.\<close>

lemma channel_delivers:
  assumes ch: "channel P container s" and ms: "\<forall>m \<in> set ms. sent P s n m \<or> noise P s m"
    and hd: "ms \<noteq> []" "sent P s n (hd ms)" and room: "roomy (unat (sd_k s)) (sender_equation s) (received P s ms)"
  shows "\<exists>rs r. push_all P receiver_new ms = Some (rs, r) \<and> deliveries rs =
    (if {..<unat (sd_k s)} \<subseteq> peelable (sender_equation s ` received P s ms) then [container] else [])"
proof -
  have s: "sender_ok P container s" using ch by (simp add: channel_def)
  have lock: "rc_identity receiver_new = Some (sender_identity s) \<or> ms \<noteq> [] \<and> sent P s n (hd ms)" using hd by blast
  from channel_run [OF ch tuned_new ms lock] obtain rs r where run: "push_all P receiver_new ms = Some (rs, r)"
    "tuned P container s r" "deliveries rs = (if rc_delivered r \<and> \<not> rc_delivered receiver_new then [container] else [])"
    by blast
  have "receiver_caught {} receiver_new" by (simp add: receiver_caught_def receiver_new_def)
  from caught_run [OF ch tuned_new ms lock this _ run(1)] room have c: "receiver_caught (received P s ms) r" by simp
  obtain m ms' where cons: "ms = m # ms'" using hd(1) by (cases ms) auto
  from channel_sent [OF ch hd(2)] obtain h block where "parse_frame P m = Some (h, block)" "stream_identity h = sender_identity s"
    unfolding cons list.sel by blast
  from received_sent [OF this] have "received P s ms \<noteq> {}" by (simp add: cons)
  from caught_delivered [OF s run(2) c this] run(1,3) show ?thesis by (simp add: receiver_new_def)
qed

lemma sent_intro:
  assumes "channel P container s" and "unat seq < n"
  shows "\<exists>m. sent P s n m \<and> (\<exists>h block. parse_frame P m = Some (h, block) \<and>
    stream_identity h = sender_identity s \<and> fh_seq h = seq)"
proof -
  have c: "codec_ok P" "sender_ok P container s" "sd_seq s = 0" "\<not> sd_exhausted s" "good_flags (sd_flags s)"
    using assms(1) by (simp_all add: channel_def)
  obtain s' where run: "emit P s n = Some (map (numbered P container s) [0..<n], s')" using emit_fresh [OF c(2-4)] by blast
  obtain hdr where "cfg_serialize P (sf_header (frame_of P container s seq)) = Some hdr"
    using c(1) unfolding codec_ok_def by blast
  then obtain m where m: "frame_to_bytes P (frame_of P container s seq) = Some m"
    by (simp add: frame_to_bytes_def pack_frame_def)
  have "numbered P container s (unat seq) = Inr (frame_of P container s seq)"
    using u32_less [of seq] by (simp add: numbered_def)
  then have "Inr (frame_of P container s seq) \<in> set (map (numbered P container s) [0..<n])"
    using assms(2) by (metis (no_types, lifting) atLeast0LessThan imageI lessThan_iff list.set_map set_upt)
  then have "sent P s n m" using run m unfolding sent_def by blast
  then show ?thesis using frame_of_parses [OF c(1,2,5) m] by blast
qed

lemma sender_channel:
  assumes "codec_ok P" and "good_flags flags" and "sender_with_mode P container bl session_id flags = Some (Inr s)"
  shows "channel P container s" and "sd_flags s = flags" and "params_ok container bl"
proof -
  show ok: "params_ok container bl"
    by (rule ccontr) (use assms(3) sender_with_mode_err [of container bl P session_id flags] in simp)
  from sender_with_mode_ok [OF ok, of P session_id flags] assms show "channel P container s" "sd_flags s = flags"
    by (auto simp: channel_def)
qed

lemma one_message:
  assumes ch: "channel P container s" and m': "sent P s 1 m'" and m: "sent P s 1 m"
  shows "m' = m"
proof -
  have c: "sender_ok P container s" "sd_seq s = 0" "\<not> sd_exhausted s" using ch by (simp_all add: channel_def)
  obtain a b where "unat a < 1" "unat b < 1" and f: "frame_to_bytes P (frame_of P container s a) = Some m'"
    "frame_to_bytes P (frame_of P container s b) = Some m"
    using sent_frame [OF c m'] sent_frame [OF c m] by blast
  then have "a = b" by (simp add: word_unat_eq_iff)
  then show ?thesis using f by simp
qed

text \<open>A container of one block is sent by one message.\<close>

lemma one_shot:
  assumes "codec_ok P" and "container \<noteq> []" and "length container \<le> block_len" and "block_len \<le> 0xffff"
  shows "\<exists>s m. sender_with_mode P container block_len 7 FLAG_CAUSAL = Some (Inr s) \<and> sent P s (unat (sd_k s)) m \<and>
    (\<forall>m'. sent P s (unat (sd_k s)) m' \<longrightarrow> m' = m)"
proof -
  have len: "0 < length container" "0 < block_len" using assms(2,3) by (cases container; simp)+
  have one: "div_ceil (length container) block_len = 1"
    by (rule div_ceil_eqI) (use assms(3) len in simp_all)
  have p: "params_ok container block_len"
    unfolding params_ok_def one
  proof (intro conjI)
    show "0 < block_len" by (rule len(2))
    show "length container \<le> MAX_STREAM_BYTES" using assms(3,4) by (simp add: MAX_STREAM_BYTES_def MAX_FILE_BYTES_def)
  qed (simp_all add: assms(2,4) MAX_SOURCE_BLOCKS_def)
  have f: "good_flags FLAG_CAUSAL" by (simp add: good_flags_def)
  obtain s where s: "sender_with_mode P container block_len 7 FLAG_CAUSAL = Some (Inr s)" "unat (sd_k s) = 1"
    using sender_with_mode_ok [OF p, of P 7 FLAG_CAUSAL] unfolding one by blast
  note ch = sender_channel(1) [OF assms(1) f s(1)]
  from sent_intro [OF ch, of 0 1] obtain m where m: "sent P s 1 m" by auto
  have "m' = m" if "sent P s 1 m'" for m' by (rule one_message [OF ch that m])
  then show ?thesis using s(1) m unfolding s(2) [symmetric] by blast
qed

text \<open>A channel that loses none of the first \<open>n\<close> messages.\<close>

lemma received_all:
  assumes ch: "channel P container s" and ms: "\<forall>m \<in> set ms. sent P s n m \<or> noise P s m"
    and all: "\<forall>m. sent P s n m \<longrightarrow> m \<in> set ms" and n: "n \<le> 2 ^ 32"
  shows "unat ` received P s ms = {..<n}"
proof
  show "unat ` received P s ms \<subseteq> {..<n}"
    using ms channel_sent [OF ch] by (fastforce simp: received_def noise_def)
  show "{..<n} \<subseteq> unat ` received P s ms"
  proof
    fix i assume "i \<in> {..<n}"
    then have i: "unat (word_of_nat i :: u32) = i" "i < n" using n by (simp_all add: unat_of_nat)
    then have "unat (word_of_nat i :: u32) < n" by simp
    from sent_intro [OF ch this] all have "word_of_nat i \<in> received P s ms" by (fastforce simp: received_def)
    then show "i \<in> unat ` received P s ms" by (rule rev_image_eqI) (rule i(1) [symmetric])
  qed
qed

lemma sent_mono:
  assumes ch: "channel P container s" and "sent P s n m" and "n \<le> n'"
  shows "sent P s n' m"
proof -
  have c: "sender_ok P container s" "sd_seq s = 0" "\<not> sd_exhausted s" using ch by (simp_all add: channel_def)
  obtain s1 s2 where e: "emit P s n = Some (map (numbered P container s) [0..<n], s1)"
    "emit P s n' = Some (map (numbered P container s) [0..<n'], s2)" using emit_fresh [OF c] by metis
  have "set (map (numbered P container s) [0..<n]) \<subseteq> set (map (numbered P container s) [0..<n'])" using assms(3) by auto
  then show ?thesis using assms(2) e unfolding sent_def by (metis Pair_inject option.inject subsetD)
qed

text \<open>In the causal and the systematic mode the first \<open>k\<close> numbers fit and determine every block.\<close>

lemma sender_first_phase:
  assumes ch: "channel P container s" and flags: "sd_flags s = FLAG_CAUSAL \<or> sd_flags s = FLAG_SYSTEMATIC"
    and S: "unat ` S = {..<unat (sd_k s)}"
  shows "roomy (unat (sd_k s)) (sender_equation s) S" and "{..<unat (sd_k s)} \<subseteq> peelable (sender_equation s ` S)"
proof -
  have s: "sender_ok P container s" using ch by (simp add: channel_def)
  let ?h = "sf_header (frame_of P container s 0)"
  have h: "stream_identity ?h = sender_identity s"
    by (simp add: frame_of_def Let_def stream_identity_def sender_identity_def)
  obtain d where d: "serves P (sender_identity s) d" 
    using stream_decoder_serves [OF announced_sender(1) [OF s h], of P] h by auto
  have sys: "ld_sys_span d = ld_k d"
    using d flags by (auto simp: serves_def sender_identity_def mode_span_def)
  note e = serves_equation [OF s d]
  show "roomy (unat (sd_k s)) (sender_equation s) S"
    using first_phase_roomy [OF sys, of S] S by (simp add: e)
  show "{..<unat (sd_k s)} \<subseteq> peelable (sender_equation s ` S)"
    using first_phase_covers [OF sys, of S] S by (simp add: e)
qed

lemma channel_completes:
  assumes "codec_ok P" and "flags = FLAG_CAUSAL \<or> flags = FLAG_SYSTEMATIC"
    and "sender_with_mode P container block_len session_id flags = Some (Inr s)"
    and "\<forall>m \<in> set ms. sent P s (unat (sd_k s)) m \<or> noise P s m"
    and "\<forall>m. sent P s (unat (sd_k s)) m \<longrightarrow> m \<in> set ms" and "sent P s (unat (sd_k s)) (hd ms)"
  shows "\<exists>rs r. push_all P receiver_new ms = Some (rs, r) \<and> deliveries rs = [container]"
proof -
  have good: "good_flags flags" using assms(2) by (auto simp: good_flags_def)
  note ch = sender_channel [OF assms(1) good assms(3)]
  have small: "unat (sd_k s) \<le> 2 ^ 32" "0 < unat (sd_k s)"
    using ch(1) small_k by (auto simp: channel_def sender_ok_def enc_ok_def less_imp_le)
  note S = received_all [OF ch(1) assms(4,5) small(1)]
  have "ms \<noteq> []" using S small(2) by auto
  note first = sender_first_phase [OF ch(1) _ S]
  show ?thesis
    using channel_delivers [OF ch(1) assms(4) \<open>ms \<noteq> []\<close> assms(6)] first assms(2) ch(2) by auto
qed

end
