(* ===== verification/Weave.thy ===== *)
theory Weave
  imports Encoder
begin

text \<open>
  The causal first phase of the encoder (\<open>src/fountain.rs\<close>): frame \<open>0\<close> is block \<open>0\<close>, frame \<open>i\<close> is
  block \<open>i - 1\<close> XOR block \<open>i\<close>, so the prefixes of the frames add up to the blocks.
\<close>

section \<open>The causal weave\<close>

lemma xor_bytes_zero: "length c = n \<Longrightarrow> xor_bytes (replicate n 0) c = c"
  by (rule nth_equalityI) (simp_all add: xor_bytes_def)

lemma xor_bytes_cancel: "length a = length b \<Longrightarrow> xor_bytes a (xor_bytes a b) = b"
  by (rule nth_equalityI) (simp_all add: xor_bytes_def flip: xor.assoc)

definition woven_frame :: "u8 list \<Rightarrow> usize \<Rightarrow> usize \<Rightarrow> u8 list" where
  "woven_frame payload bl s =
     (if s = 0 then source_chunk payload bl 0
      else xor_bytes (source_chunk payload bl (s - 1)) (source_chunk payload bl s))"

lemma woven_prefix:
  "foldl xor_bytes (replicate bl 0) (map (woven_frame payload bl) [0..<Suc i]) = source_chunk payload bl i"
proof (induction i)
  case 0
  then show ?case by (simp add: woven_frame_def xor_bytes_zero)
next
  case (Suc i)
  have "[0..<Suc (Suc i)] = [0..<Suc i] @ [Suc i]" by simp
  then show ?case using Suc by (simp add: woven_frame_def xor_bytes_cancel del: upt_Suc)
qed

lemma encode_woven:
  assumes "enc_ok payload enc" and "le_causal enc" and "s < le_sys_span enc"
  shows "\<exists>enc'. encode P enc (word_of_nat s) = Some (woven_frame payload (le_block_len enc) s, enc')"
proof -
  have "le_sys_span enc < 2 ^ 32" using assms(1) by (simp add: enc_ok_def MAX_SOURCE_BLOCKS_def)
  then have s: "unat (word_of_nat s :: u32) = s" using assms(3) by (simp add: unat_of_nat)
  have z: "(word_of_nat s :: u32) = 0 \<longleftrightarrow> s = 0" using s by (metis unat_eq_0)
  have "frame_data payload (le_block_len enc) (enc_blocks enc (word_of_nat s)) = woven_frame payload (le_block_len enc) s"
    using assms(2,3) s z
    by (auto simp: enc_blocks_def frame_blocks_def frame_data_def woven_frame_def xor_bytes_zero unat_minus_one)
  then show ?thesis using encode_ok [OF assms(1), of P "word_of_nat s"] by auto
qed

text \<open>C26: the causal frames telescope: the XOR of the frames \<open>0, \<dots>, i\<close> of the first phase is block
  \<open>i\<close> of the payload, zero-padded when it is the last one, so a receiver that has the first frames
  without a gap has the first blocks in clear.\<close>

theorem causal_frames_telescope:
  assumes "enc_ok payload enc" and "le_causal enc" and "i < le_sys_span enc"
  shows "\<exists>frames. length frames = Suc i \<and>
    (\<forall>s \<le> i. \<exists>enc'. encode P enc (word_of_nat s) = Some (frames ! s, enc')) \<and>
    foldl xor_bytes (replicate (le_block_len enc) 0) frames =
      (let chunk = take (le_block_len enc) (drop (i * le_block_len enc) payload)
       in chunk @ replicate (le_block_len enc - length chunk) 0)"
proof -
  let ?frames = "map (woven_frame payload (le_block_len enc)) [0..<Suc i]"
  have "\<exists>enc'. encode P enc (word_of_nat s) = Some (?frames ! s, enc')" if "s \<le> i" for s
    using encode_woven [OF assms(1,2), of s P] assms(3) that by (simp del: upt_Suc)
  moreover have "length ?frames = Suc i" by simp
  ultimately show ?thesis
    using woven_prefix [of "le_block_len enc" payload i] unfolding source_chunk_def by blast
qed

theorem causal_frames_telescope_witness:
  "\<exists>enc frames. encoder_new_causal plain_platform [1, 2, 3, 4, 5] 2 7 = Some enc \<and> length frames = 3 \<and>
     foldl xor_bytes [0, 0] frames = [5, 0]"
proof -
  let ?p = "[1, 2, 3, 4, 5] :: u8 list"
  have ok: "params_ok ?p 2"
    by (simp add: params_ok_def MAX_STREAM_BYTES_def MAX_FILE_BYTES_def MAX_SOURCE_BLOCKS_def div_ceil_def)
  have k: "div_ceil (length ?p) 2 = 3" by (simp add: div_ceil_def)
  then obtain enc where enc: "encoder_with_mode plain_platform ?p 2 7 3 True = Some (Inr enc)"
    "enc_ok ?p enc" "le_block_len enc = 2" "le_sys_span enc = 3" "le_causal enc"
    using encoder_with_mode_ok [OF ok, of 3 plain_platform 7 True] by auto
  have "checked_encoder_k ?p 2 = Inr 3" using ok k by (simp only: checked_encoder_k_ok)
  then have "encoder_new_causal plain_platform ?p 2 7 = Some enc"
    using enc(1) by (simp add: encoder_new_causal_def encoder_try_new_causal_def expect_ok_def)
  moreover have "\<exists>frames. length frames = Suc 2 \<and> foldl xor_bytes (replicate 2 0) frames = [5, 0]"
    using causal_frames_telescope [OF enc(2,5), of 2 plain_platform] enc(3,4) by (auto simp: Let_def)
  ultimately show ?thesis by (auto simp: numeral_eq_Suc)
qed

end
