(* ===== verification/Answers.thy ===== *)
theory Answers
  imports Channel Weave
begin

text \<open>
  The answer of \<open>try_push\<close> (\<open>src/session.rs\<close>), decided by the receiver and the frame alone:
  \<open>refusal\<close> is the error a frame is turned away with, \<open>completion\<close> the container it completes.
  With them every answer and every state after a push is determined, on the error paths too; the last
  section computes both for the first frame of a stream.
\<close>

section \<open>Refusals and completions\<close>

definition refusal :: "receiver \<Rightarrow> frame_header \<Rightarrow> error option" where
  "refusal r h =
     (case rc_identity r of
        Some active \<Rightarrow> if active \<noteq> stream_identity h then Some StreamConflict else None
      | None \<Rightarrow>
          if over_limits r h then Some ResourceLimit
          else if \<not> announced h
          then Some (if MAX_STREAM_BYTES < unat (fh_total_len h)
            then TooLarge (unat (fh_total_len h)) MAX_STREAM_BYTES else InvalidStream)
          else None)"

text \<open>The decoder that takes the frame: the receiver's own, or a new one for the announced stream.\<close>

definition taking_decoder :: "'m wire_platform_scheme \<Rightarrow> receiver \<Rightarrow> frame_header \<Rightarrow> lt_decoder option" where
  "taking_decoder P r h =
     (if rc_identity r \<noteq> None then rc_decoder r
      else case stream_decoder P h of Some (Inr d) \<Rightarrow> Some d | _ \<Rightarrow> None)"

definition fed_decoder :: "'m wire_platform_scheme \<Rightarrow> receiver \<Rightarrow> frame_header \<Rightarrow> u8 list \<Rightarrow> lt_decoder option" where
  "fed_decoder P r h block = do {
     d \<leftarrow> taking_decoder P r h;
     add_frame P d (fh_seq h) block }"

definition completion :: "'m wire_platform_scheme \<Rightarrow> receiver \<Rightarrow> frame_header \<Rightarrow> u8 list \<Rightarrow> u8 list option" where
  "completion P r h block = do {
     d \<leftarrow> fed_decoder P r h block;
     container \<leftarrow> assemble d;
     container }"

lemma bad_stream_header:
  assumes "header_ok h"
  shows "bad_stream (unat (fh_k h)) (unat (fh_block_len h)) (unat (fh_total_len h)) =
    (if MAX_STREAM_BYTES < unat (fh_total_len h) then TooLarge (unat (fh_total_len h)) MAX_STREAM_BYTES else InvalidStream)"
proof -
  have "unat (w :: u16) \<le> 0xffff" for w using u16_less [of w] by simp
  from this [of "fh_k h"] this [of "fh_block_len h"] assms show ?thesis
    by (simp add: bad_stream_def header_ok_def unat_gt_0 MAX_SOURCE_BLOCKS_def)
qed

lemma admit_refusal:
  assumes ok: "receiver_ok P r" and head: "header_ok h"
  shows "case refusal r h of
      Some e \<Rightarrow> admit P r h = Some (Inl e)
    | None \<Rightarrow> \<exists>d. admit P r h = Some (Inr (r\<lparr>rc_decoder := Some d, rc_identity := Some (stream_identity h)\<rparr>)) \<and>
        taking_decoder P r h = Some d \<and> serves P (stream_identity h) d \<and> rc_delivered r = is_complete d"
proof (cases "rc_identity r")
  case None
  have fresh: "\<not> rc_delivered r" using ok None by (simp add: receiver_ok_def)
  note a = admit_fresh [OF None, of h P] bad_stream_header [OF head]
  show ?thesis
  proof (cases "over_limits r h \<or> \<not> announced h")
    case True
    then show ?thesis using a None by (auto simp: refusal_def)
  next
    case False
    obtain d where d: "stream_decoder P h = Some (Inr d)" "serves P (stream_identity h) d" "\<not> is_complete d"
      using stream_decoder_serves [of h P] False by blast
    then have "admit P r h = Some (Inr (r\<lparr>rc_decoder := Some d, rc_identity := Some (stream_identity h)\<rparr>))"
      using False None by (simp add: admit_def over_limits_def Let_def)
    then show ?thesis using d fresh None False by (simp add: refusal_def taking_decoder_def)
  qed
next
  case (Some sid)
  show ?thesis
  proof (cases "sid = stream_identity h")
    case True
    obtain d where d: "rc_decoder r = Some d" "serves P sid d" "rc_delivered r = is_complete d"
      using ok Some by (auto simp: receiver_ok_def)
    have "r\<lparr>rc_decoder := Some d, rc_identity := Some sid\<rparr> = r" using d(1) Some by simp
    then show ?thesis using d Some True by (simp add: refusal_def taking_decoder_def admit_def)
  next
    case False
    then show ?thesis using Some by (simp add: refusal_def admit_def)
  qed
qed

text \<open>What a push answers and leaves behind, on every path.\<close>

lemma try_push_answer:
  assumes ok: "receiver_ok P r"
  shows "case parse_frame P bytes of
      None \<Rightarrow> try_push P r bytes = Some (Inl CorruptFrame, r)
    | Some (h, block) \<Rightarrow> (case refusal r h of
        Some e \<Rightarrow> try_push P r bytes = Some (Inl e, r)
      | None \<Rightarrow>
          if rc_delivered r then try_push P r bytes = Some (Inr None, r)
          else (case completion P r h block of
            None \<Rightarrow> fed_decoder P r h block \<noteq> None \<and> try_push P r bytes = Some (Inr None,
              r\<lparr>rc_decoder := fed_decoder P r h block, rc_identity := Some (stream_identity h)\<rparr>)
          | Some c \<Rightarrow> length c = unat (fh_total_len h) \<and> try_push P r bytes = Some
              (if checksum32 P c = fh_stream_tag h
               then (Inr (Some c), r\<lparr>rc_decoder := fed_decoder P r h block,
                 rc_identity := Some (stream_identity h), rc_delivered := True\<rparr>)
               else (Inl CorruptFrame, reset r))))"
proof (cases "parse_frame P bytes")
  case None
  then show ?thesis by (simp add: try_push_def)
next
  case (Some hb)
  obtain h block where p: "parse_frame P bytes = Some (h, block)" using Some by (cases hb) simp
  note adm = admit_refusal [OF ok parse_header(1) [OF p]]
  show ?thesis
  proof (cases "refusal r h")
    case (Some e)
    then show ?thesis using adm p by (simp add: try_push_def)
  next
    case None
    then obtain d where d: "admit P r h = Some (Inr (r\<lparr>rc_decoder := Some d, rc_identity := Some (stream_identity h)\<rparr>))"
      "taking_decoder P r h = Some d" "serves P (stream_identity h) d" using adm by auto
    let ?r = "r\<lparr>rc_decoder := Some d, rc_identity := Some (stream_identity h)\<rparr>"
    have run: "try_push P r bytes = deliver P ?r h block" using p d(1) by (simp add: try_push_def)
    obtain d' where d': "add_frame P d (fh_seq h) block = Some d'" "serves P (stream_identity h) d'"
      using serves_step [OF d(3)] by blast
    have fed: "fed_decoder P r h block = Some d'" using d(2) d'(1) by (simp add: fed_decoder_def)
    show ?thesis
    proof (cases "rc_delivered r")
      case True
      then have "?r = r" using ok d(2) None
        by (cases "rc_identity r") (auto simp: receiver_ok_def refusal_def taking_decoder_def split: if_splits)
      then show ?thesis using True p None run by (simp add: deliver_def)
    next
      case False
      then show ?thesis using serves_assemble [OF d'(2)] p None run fed d'(1)
        by (auto simp: completion_def deliver_def Let_def reset_def stream_identity_def)
    qed
  qed
qed

section \<open>The first frame\<close>

text \<open>A stream of one block is complete with its first frame, whatever its sequence number, and the
  container is the beginning of the block. With more blocks one frame is never enough.\<close>

lemma single_block_equation:
  assumes "static_ok d" and "ld_k d = 1"
  shows "dec_blocks d seq = [0]"
proof -
  note r = dec_blocks_range [OF assms(1), of seq]
  have zero: "b = 0" if "b \<in> set (dec_blocks d seq)" for b
    using r(1) that assms(2) by (simp add: block_set_def unat_eq_0)
  obtain b bs where e: "dec_blocks d seq = b # bs" using r(2) by (cases "dec_blocks d seq") auto
  have "bs = []" using r(1) zero unfolding e block_set_def by (cases bs) auto
  then show ?thesis using zero e by simp
qed

lemma first_frame_completion:
  assumes ok: "receiver_ok P r" and fresh: "rc_identity r = None" and s: "announced h" "\<not> over_limits r h"
    and len: "length block = unat (fh_block_len h)"
  shows "completion P r h block =
    (if unat (fh_k h) = 1 then Some (take (unat (fh_total_len h)) block) else None)"
proof -
  obtain d where d: "stream_decoder P h = Some (Inr d)" "serves P (stream_identity h) d" "\<not> is_complete d"
    "peel_of d [] = (Map.empty, Map.empty, [])" "set_elems (ld_seen d) = {}" "ld_pending_edges d = 0"
    using stream_decoder_serves [OF s(1)] by blast
  have recv: "recv_ok d" and k: "ld_k d = unat (fh_k h)" "ld_block_len d = unat (fh_block_len h)"
    "ld_total_len d = unat (fh_total_len h)" using d(2) by (simp_all add: serves_def stream_identity_def)
  have st: "static_ok d" using recv by (simp add: recv_ok_def dec_ok_def)
  from add_frame_recv [OF recv, of P "fh_seq h" block] obtain d' where d': "add_frame P d (fh_seq h) block = Some d'"
    "recv_ok d'" "same_stream d d'" "set_elems (ld_seen d') \<subseteq> {fh_seq h}" by (auto simp: d(5) split: if_splits)
  have k': "ld_k d' = unat (fh_k h)" "ld_block_len d' = unat (fh_block_len h)" "ld_total_len d' = unat (fh_total_len h)"
    "ld_words d' = ld_words d"
    using d'(3) k by (simp_all add: same_stream_def)
  have cmp: "completion P r h block = the (assemble d')"
    using fresh d(1) d'(1) assemble_eq [OF d'(2)] by (simp add: completion_def fed_decoder_def taking_decoder_def)
  show ?thesis
  proof (cases "unat (fh_k h) = 1")
    case False
    have "ld_solved_count d' \<le> card (set_elems (ld_seen d'))"
      using solved_le_frames [OF d'(2)] d'(2) unfolding recv_ok_def by metis
    also have "\<dots> \<le> 1" using card_mono [OF _ d'(4)] by simp
    finally have "\<not> is_complete d'"
      using False s(1) by (auto simp: is_complete_def k' announced_def stream_ok_def)
    then show ?thesis using False cmp by (simp add: assemble_def)
  next
    case True
    have eqn: "dec_blocks d (fh_seq h) = [0]" using single_block_equation [OF st] k True by simp
    let ?X = "source_words block (ld_block_len d)"
    have chunk: "source_chunk block (ld_block_len d) 0 = block" using len k by (simp add: source_chunk_def)
    have gen: "frame_data block (ld_block_len d) (dec_blocks d (fh_seq h)) = block"
      using chunk len k by (simp add: eqn frame_data_def xor_bytes_zero)
    have "agrees ?X (ld_words d) (peel_of d [])" using d(4) by (simp add: agrees_def)
    then have agr: "agrees ?X (ld_words d) (peel_of d' [])"
      by (rule genuine_step [OF recv, where P = P and seq = "fh_seq h"]) (simp only: gen d'(1))
    have E: "eqn_of d (fh_seq h) = {0}" using eqn by (simp add: eqn_of_def)
    have "roomy (ld_k d) (eqn_of d) (insert (fh_seq h) {})" using k True E by (simp add: roomy_def)
    then have caught: "caught {fh_seq h} d'"
      using caught_step [of "{}" d "fh_seq h" block P d'] recv d(5,6) len k d'(1)
      by (simp add: caught_def room_ok_def)
    have "0 \<in> peelable {{0}}" by (rule peelable.intros [of "{0}"]) auto
    then have full: "is_complete d'"
      using caught_complete [OF caught] k' True same_stream_blocks [OF d'(3)] E by (simp add: eqn_of_def lessThan_Suc)
    then have dom: "dom (known d') = {..<1}" using recv_closure(4) [OF d'(2)] k' True by simp
    then obtain v where v: "known d' 0 = Some v" by (metis domD lessThan_iff zero_less_one)
    then have "v = ?X 0" using agr by (auto simp: agrees_def peel_of_def)
    then have "words_as_bytes v = block @ replicate (4 * div_ceil (ld_block_len d) 4 - ld_block_len d) 0"
      by (simp add: source_words_bytes chunk)
    moreover have "div_ceil (unat (fh_total_len h)) (unat (fh_block_len h)) = 1" "0 < unat (fh_block_len h)"
      using s(1) True unfolding announced_def stream_ok_def by metis+
    then have "unat (fh_total_len h) \<le> length block"
      using div_ceil_mult_ge [of "unat (fh_block_len h)" "unat (fh_total_len h)"] len by simp
    ultimately have "chunk_of d' 0 = take (unat (fh_total_len h)) block"
      using v k' len by (simp add: chunk_of_def min_def)
    then show ?thesis using True cmp dom k' by (simp add: assemble_eq [OF d'(2)])
  qed
qed

section \<open>Two first frames\<close>

text \<open>Frames of a stream of one block for concrete instances: \<open>plain_frame\<close> announces a wrong checksum,
  \<open>plain_first\<close> the right one.\<close>

definition plain_start :: frame_header where
  "plain_start = plain_header\<lparr>fh_stream_tag := 0x30201\<rparr>"

definition plain_first :: frame_header where
  "plain_first = plain_start\<lparr>fh_frame_tag := frame_checksum plain_wire plain_start [1, 2, 3]\<rparr>"

lemma plain_first_ok:
  "header_ok plain_first" "length [1, 2, 3 :: u8] = unat (fh_block_len plain_first)"
  "fh_frame_tag plain_first = frame_checksum plain_wire plain_first [1, 2, 3]"
  by (simp_all only: plain_first_def frame_checksum_tag)
    (simp_all add: plain_start_def plain_header_def header_ok_def FLAG_CAUSAL_def)

lemma plain_checksum: "checksum32 plain_wire [1, 2, 3] = 0x30201"
  by (simp add: checksum32_def plain_wire_def math_platform.defs first_le32_def of_le32_def)

lemma plain_opens:
  assumes "unat (fh_k h) = 1" "unat (fh_block_len h) = 3" "unat (fh_total_len h) = 3"
  shows "announced h" "\<not> over_limits receiver_new h" "refusal receiver_new h = None"
    "completion plain_wire receiver_new h [1, 2, 3] = Some [1, 2, 3]"
proof -
  show a: "announced h" "\<not> over_limits receiver_new h"
    using assms by (simp_all add: announced_def stream_ok_def over_limits_def receiver_new_def LIMITS_MAXIMUM_def
        MAX_STREAM_BYTES_def MAX_FILE_BYTES_def MAX_SOURCE_BLOCKS_def div_ceil_def)
  have idle: "rc_identity receiver_new = None" by (simp add: receiver_new_def)
  then show "refusal receiver_new h = None" using a by (simp add: refusal_def)
  have "receiver_ok plain_wire receiver_new" unfolding receiver_new_limits by (rule receiver_ok_start)
  from first_frame_completion [OF this idle a, of "[1, 2, 3]"] assms
  show "completion plain_wire receiver_new h [1, 2, 3] = Some [1, 2, 3]" by simp
qed

lemma plain_headers:
  "unat (fh_k plain_frame) = 1" "unat (fh_block_len plain_frame) = 3" "unat (fh_total_len plain_frame) = 3"
  "fh_stream_tag plain_frame = 9"
  "unat (fh_k plain_first) = 1" "unat (fh_block_len plain_first) = 3" "unat (fh_total_len plain_first) = 3"
  "fh_stream_tag plain_first = 0x30201"
  by (simp_all add: plain_frame_def plain_first_def plain_start_def plain_header_def)

lemmas plain_frame_opening = plain_opens [OF plain_headers(1-3)] and plain_first_opening = plain_opens [OF plain_headers(5-7)]

end
