(* ===== verification/Delivery.thy ===== *)
theory Delivery
  imports Answers
begin

text \<open>
  The properties of whole transfers (\<open>src/session.rs\<close>): what a sender is and emits, what a
  receiver keeps, answers and delivers, and when a transfer over a channel completes.
\<close>

section \<open>Properties\<close>

text \<open>C5: a transfer is sound: a fresh receiver that is locked by a message of the sender and then
  receives any number of its messages, lost, repeated and reordered at will, mixed with damaged byte
  strings and frames of other streams, delivers nothing or exactly the sender's container, and no
  message of the sender is answered with an error.\<close>

theorem transfer_is_sound:
  assumes "codec_ok P" and "good_flags flags"
    and "sender_with_mode P container block_len session_id flags = Some (Inr s)"
    and "sent P s n m" and "\<forall>m \<in> set ms. sent P s n m \<or> noise P s m"
  shows "\<exists>rs r. push_all P receiver_new (m # ms) = Some (rs, r) \<and>
    deliveries rs = (if rc_delivered r then [container] else []) \<and>
    list_all2 (\<lambda>m res. sent P s n m \<longrightarrow> (\<exists>out. res = Inr out)) (m # ms) rs"
proof -
  have "\<forall>m \<in> set (m # ms). sent P s n m \<or> noise P s m" using assms(4,5) by simp
  from channel_run [OF sender_channel(1) [OF assms(1-3)] tuned_new this] assms(4) obtain rs r where
    run: "push_all P receiver_new (m # ms) = Some (rs, r)"
      "list_all2 (\<lambda>m res. sent P s n m \<longrightarrow> (\<exists>out. res = Inr out)) (m # ms) rs"
      "deliveries rs = (if rc_delivered r \<and> \<not> rc_delivered receiver_new then [container] else [])"
    unfolding list.sel by blast
  have "deliveries rs = (if rc_delivered r then [container] else [])" using run(3) by (simp add: receiver_new_def)
  with run(1,2) show ?thesis by blast
qed

theorem transfer_is_sound_witness:
  "\<exists>s m rs r. sender_with_mode plain_wire [1, 2, 3, 4, 5] 2 7 0 = Some (Inr s) \<and> sent plain_wire s 9 m \<and>
     push_all plain_wire receiver_new [m, [], m] = Some (rs, r) \<and>
     deliveries rs = (if rc_delivered r then [[1, 2, 3, 4, 5]] else [])"
proof -
  have p: "params_ok [1, 2, 3, 4, 5] 2"
    by (simp add: params_ok_def MAX_STREAM_BYTES_def MAX_FILE_BYTES_def MAX_SOURCE_BLOCKS_def div_ceil_def)
  have f: "good_flags 0" by (simp add: good_flags_def)
  obtain s where s: "sender_with_mode plain_wire [1, 2, 3, 4, 5] 2 7 0 = Some (Inr s)"
    using sender_with_mode_ok [OF p] by blast
  from sent_intro [OF sender_channel(1) [OF plain_wire_codec f s], of 8 9] obtain m where m: "sent plain_wire s 9 m" by auto
  have "noise plain_wire s []" by (simp add: noise_def parse_frame_def)
  with m have "\<forall>m' \<in> set [[], m]. sent plain_wire s 9 m' \<or> noise plain_wire s m'" by simp
  from transfer_is_sound [OF plain_wire_codec f s m this] m s show ?thesis by blast
qed

text \<open>C2: a transfer completes: in the causal and the systematic mode a fresh receiver that gets each
  of the sender's first \<open>k\<close> messages at least once, in any order, repeated and mixed with damaged
  byte strings and frames of other streams, delivers the sender's container, once, when the first byte
  string it gets is one of these messages, so that it locks to the sender.\<close>

theorem transfer_completes:
  assumes "codec_ok P" and "flags = FLAG_CAUSAL \<or> flags = FLAG_SYSTEMATIC"
    and "sender_with_mode P container block_len session_id flags = Some (Inr s)"
    and "\<forall>m \<in> set ms. sent P s (unat (sd_k s)) m \<or> noise P s m"
    and "\<forall>m. sent P s (unat (sd_k s)) m \<longrightarrow> m \<in> set ms" and "sent P s (unat (sd_k s)) (hd ms)"
  shows "\<exists>rs r. push_all P receiver_new ms = Some (rs, r) \<and> deliveries rs = [container]"
  using assms by (rule channel_completes)

theorem transfer_completes_witness:
  "\<exists>s m rs r. sender_with_mode plain_wire [1, 2, 3] 3 7 FLAG_CAUSAL = Some (Inr s) \<and> sent plain_wire s 1 m \<and>
     push_all plain_wire receiver_new [m, [], m] = Some (rs, r) \<and> deliveries rs = [[1, 2, 3]]"
proof -
  have p: "params_ok [1, 2, 3] 3"
    by (simp add: params_ok_def MAX_STREAM_BYTES_def MAX_FILE_BYTES_def MAX_SOURCE_BLOCKS_def div_ceil_def)
  have f: "good_flags FLAG_CAUSAL" by (simp add: good_flags_def)
  obtain s where s: "sender_with_mode plain_wire [1, 2, 3] 3 7 FLAG_CAUSAL = Some (Inr s)" "unat (sd_k s) = 1"
    using sender_with_mode_ok [OF p, of plain_wire 7 FLAG_CAUSAL] by (auto simp: div_ceil_def)
  note ch = sender_channel(1) [OF plain_wire_codec f s(1)]
  from sent_intro [OF ch, of 0 1] obtain m where m: "sent plain_wire s 1 m" by auto
  have only: "m' = m" if "sent plain_wire s 1 m'" for m' by (rule one_message [OF ch that m])
  have "noise plain_wire s []" by (simp add: noise_def parse_frame_def)
  with m s(2) have n: "\<forall>m' \<in> set [m, [], m]. sent plain_wire s (unat (sd_k s)) m' \<or> noise plain_wire s m'" by simp
  have all: "\<forall>m'. sent plain_wire s (unat (sd_k s)) m' \<longrightarrow> m' \<in> set [m, [], m]" using only s(2) by simp
  have first: "sent plain_wire s (unat (sd_k s)) (hd [m, [], m])" using m s(2) by simp
  from transfer_completes [OF plain_wire_codec disjI1 [OF refl] s(1) n all first] m s(1) show ?thesis by blast
qed

text \<open>C3: when a transfer completes: in every mode, while the sequence numbers received fit the
  decoder's limits, at most \<open>4 k\<close> of them and at most \<open>64 k\<close> blocks in their equations together, a
  fresh receiver delivers the sender's container exactly when peeling can derive every block from the
  equations of the numbers received, in whatever order they came, how often and mixed with what.\<close>

theorem transfer_completes_iff:
  assumes "codec_ok P" and "good_flags flags"
    and "sender_with_mode P container block_len session_id flags = Some (Inr s)"
    and "sent P s n m" and "\<forall>m \<in> set ms. sent P s n m \<or> noise P s m"
    and "roomy (unat (sd_k s)) (sender_equation s) (received P s (m # ms))"
  shows "\<exists>rs r. push_all P receiver_new (m # ms) = Some (rs, r) \<and> deliveries rs =
    (if {..<unat (sd_k s)} \<subseteq> peelable (sender_equation s ` received P s (m # ms)) then [container] else [])"
proof -
  have all: "\<forall>m \<in> set (m # ms). sent P s n m \<or> noise P s m" using assms(4,5) by simp
  show ?thesis by (rule channel_delivers [OF sender_channel(1) [OF assms(1-3)] all _ _ assms(6)]) (simp_all add: assms(4))
qed

theorem transfer_completes_iff_witness:
  "\<exists>s m rs r. sender_with_mode plain_wire [1, 2, 3] 3 7 FLAG_CAUSAL = Some (Inr s) \<and> sent plain_wire s 1 m \<and>
     push_all plain_wire receiver_new [m, []] = Some (rs, r) \<and> deliveries rs = [[1, 2, 3]]"
proof -
  have p: "params_ok [1, 2, 3] 3"
    by (simp add: params_ok_def MAX_STREAM_BYTES_def MAX_FILE_BYTES_def MAX_SOURCE_BLOCKS_def div_ceil_def)
  have f: "good_flags FLAG_CAUSAL" by (simp add: good_flags_def)
  obtain s where s: "sender_with_mode plain_wire [1, 2, 3] 3 7 FLAG_CAUSAL = Some (Inr s)" "unat (sd_k s) = 1"
    using sender_with_mode_ok [OF p, of plain_wire 7 FLAG_CAUSAL] by (auto simp: div_ceil_def)
  note ch = sender_channel(1,2) [OF plain_wire_codec f s(1)]
  from sent_intro [OF ch(1), of 0 1] obtain m where m: "sent plain_wire s 1 m" by auto
  have n: "\<forall>m' \<in> set [[]]. sent plain_wire s 1 m' \<or> noise plain_wire s m'" by (simp add: noise_def parse_frame_def)
  have first: "unat ` received plain_wire s [m, []] = {..<unat (sd_k s)}"
    using channel_sent [OF ch(1) m] s(2) by (auto simp: received_sent received_noise noise_def parse_frame_def lessThan_Suc)
  note fits = sender_first_phase [OF ch(1) disjI1 [OF ch(2)] first]
  from transfer_completes_iff [OF plain_wire_codec f s(1) m n fits(1)] fits(2) m s(1) show ?thesis unfolding if_P [OF fits(2)] by blast
qed

text \<open>C18: whatever byte strings arrive, a receiver answers each of them and delivers at most one
  container between resets of its owner; what it delivers has the length and the checksum that the
  identity it is locked to announces.\<close>

theorem receiver_delivers_once:
  "\<exists>rs r. push_all P (receiver_with_limits limits) ms = Some (rs, r) \<and> length rs = length ms \<and>
    (deliveries rs = [] \<and> \<not> rc_delivered r \<or>
     (\<exists>c sid. deliveries rs = [c] \<and> rc_delivered r \<and> rc_identity r = Some sid \<and>
       length c = unat (si_total_len sid) \<and> checksum32 P c = si_stream_tag sid))"
  using push_all_once [of P "receiver_with_limits limits" ms]
  by (simp add: receiver_with_limits_def [of limits] receiver_ok_start [unfolded receiver_with_limits_def], blast)

text \<open>C6: the invariant of every receiver that pushes and resets can reach: the next push returns; a
  receiver without identity has no decoder and has delivered nothing; a locked one has the decoder of
  its stream, within the limits of its owner, which is complete exactly when the container has been
  delivered.\<close>

theorem reachable_receiver_invariant:
  assumes "reachable P r"
  shows "(\<exists>res r'. try_push P r bytes = Some (res, r')) \<and>
    (case rc_identity r of
       None \<Rightarrow> rc_decoder r = None \<and> \<not> rc_delivered r
     | Some sid \<Rightarrow> \<exists>d. rc_decoder r = Some d \<and> rc_delivered r = is_complete d \<and> ld_k d = unat (si_k sid) \<and>
         ld_k d \<le> rl_max_source_blocks (rc_limits r) \<and> ld_block_len d \<le> rl_max_block_len (rc_limits r) \<and>
         ld_total_len d \<le> rl_max_stream_bytes (rc_limits r) \<and>
         length (ld_arena d) \<le> 4 * (ld_k d * div_ceil (ld_block_len d) 4) \<and> ld_pending_edges d \<le> 64 * ld_k d)"
proof -
  have ok: "receiver_ok P r" using assms by (rule reachable_ok)
  have bounds: "length (ld_arena d) \<le> 4 * (ld_k d * div_ceil (ld_block_len d) 4)" "ld_pending_edges d \<le> 64 * ld_k d"
    if "recv_ok d" for d
  proof -
    have "static_ok d" "length (ld_arena d) \<le> ld_max_arena_words d" "ld_pending_edges d \<le> ld_max_pending_edges d"
      using that by (simp_all add: recv_ok_def dec_ok_def)
    then show "length (ld_arena d) \<le> 4 * (ld_k d * div_ceil (ld_block_len d) 4)" "ld_pending_edges d \<le> 64 * ld_k d"
      by (simp_all add: static_ok_def)
  qed
  have "\<exists>res r'. try_push P r bytes = Some (res, r')" using try_push_outcome [OF ok] by blast
  moreover have "case rc_identity r of
       None \<Rightarrow> rc_decoder r = None \<and> \<not> rc_delivered r
     | Some sid \<Rightarrow> \<exists>d. rc_decoder r = Some d \<and> rc_delivered r = is_complete d \<and> ld_k d = unat (si_k sid) \<and>
         ld_k d \<le> rl_max_source_blocks (rc_limits r) \<and> ld_block_len d \<le> rl_max_block_len (rc_limits r) \<and>
         ld_total_len d \<le> rl_max_stream_bytes (rc_limits r) \<and>
         length (ld_arena d) \<le> 4 * (ld_k d * div_ceil (ld_block_len d) 4) \<and> ld_pending_edges d \<le> 64 * ld_k d"
  proof (cases "rc_identity r")
    case None
    then show ?thesis using ok by (simp add: receiver_ok_def)
  next
    case (Some sid)
    then obtain d where d: "rc_decoder r = Some d" "rc_delivered r = is_complete d" "serves P sid d"
      and lim: "unat (si_total_len sid) \<le> rl_max_stream_bytes (rc_limits r)"
        "unat (si_k sid) \<le> rl_max_source_blocks (rc_limits r)" "unat (si_block_len sid) \<le> rl_max_block_len (rc_limits r)"
      using ok by (auto simp: receiver_ok_def)
    have e: "recv_ok d" "ld_k d = unat (si_k sid)" "ld_block_len d = unat (si_block_len sid)"
      "ld_total_len d = unat (si_total_len sid)" using d(3) by (simp_all add: serves_def)
    show ?thesis using d(1,2) lim e(2-4) bounds [OF e(1)] Some by simp
  qed
  ultimately show ?thesis by blast
qed

theorem reachable_receiver_invariant_witness:
  "\<exists>res r. try_push plain_wire receiver_new [1, 2] = Some (res, r) \<and> reachable plain_wire r \<and>
     (\<exists>res' r'. try_push plain_wire r [3] = Some (res', r'))"
proof -
  have start: "reachable plain_wire receiver_new" unfolding receiver_new_limits by (rule reachable.started)
  from reachable_receiver_invariant [OF start, of "[1, 2]"] obtain res r where
    step: "try_push plain_wire receiver_new [1, 2] = Some (res, r)" by blast
  with reachable.pushed [OF start step] reachable_receiver_invariant [OF reachable.pushed [OF start step], of "[3]"]
  show ?thesis by blast
qed

text \<open>C20: the answer to a push, and what each error leaves behind. A damaged byte string, a frame of
  another stream, one over the limits and one that announces no stream are answered with the error that
  says so and change nothing. A frame that is taken is answered with an error only when it completes a
  container whose checksum is not the announced one; then, and only then, the receiver forgets the
  stream. A frame that completes no container is answered with nothing, and one that completes a
  container with the announced checksum with that container.\<close>

theorem failed_push_changes_nothing:
  assumes "reachable P r" and "try_push P r bytes = Some (res, r')"
  shows "case parse_frame P bytes of
      None \<Rightarrow> res = Inl CorruptFrame \<and> r' = r
    | Some (h, block) \<Rightarrow>
        if rc_identity r \<noteq> None \<and> rc_identity r \<noteq> Some (stream_identity h) then res = Inl StreamConflict \<and> r' = r
        else if rc_identity r = None \<and> over_limits r h then res = Inl ResourceLimit \<and> r' = r
        else if rc_identity r = None \<and>
            \<not> stream_ok (unat (fh_k h)) (unat (fh_block_len h)) (unat (fh_total_len h))
        then res = Inl (if MAX_STREAM_BYTES < unat (fh_total_len h)
          then TooLarge (unat (fh_total_len h)) MAX_STREAM_BYTES else InvalidStream) \<and> r' = r
        else if rc_delivered r then res = Inr None \<and> r' = r
        else (case completion P r h block of
            None \<Rightarrow> res = Inr None \<and> rc_decoder r' \<noteq> None \<and>
              r' = r\<lparr>rc_decoder := fed_decoder P r h block, rc_identity := Some (stream_identity h)\<rparr>
          | Some c \<Rightarrow> length c = unat (fh_total_len h) \<and>
              (if checksum32 P c = fh_stream_tag h
               then res = Inr (Some c) \<and> rc_delivered r' \<and> rc_identity r' = Some (stream_identity h)
               else res = Inl CorruptFrame \<and> r' = reset r))"
proof (cases "parse_frame P bytes")
  case None
  then show ?thesis using try_push_answer [OF reachable_ok [OF assms(1)], of bytes] assms(2) by simp
next
  case (Some hb)
  obtain h block where p: "parse_frame P bytes = Some (h, block)" using Some by (cases hb) simp
  note answer = try_push_answer [OF reachable_ok [OF assms(1)], of bytes, unfolded p, simplified]
  show ?thesis
  proof (cases "refusal r h")
    case (Some e)
    then show ?thesis using answer assms(2) p
      by (cases "rc_identity r") (auto simp: refusal_def announced_def split: if_splits)
  next
    case None
    have "rc_identity r = None \<or> rc_identity r = Some (stream_identity h)"
      "rc_identity r = None \<Longrightarrow> \<not> over_limits r h \<and>
        stream_ok (unat (fh_k h)) (unat (fh_block_len h)) (unat (fh_total_len h))"
      using None by (auto simp: refusal_def announced_def split: option.splits if_splits)
    then show ?thesis using answer assms(2) p None by (auto split: option.splits if_splits)
  qed
qed

theorem failed_push_changes_nothing_witness:
  "\<exists>m. try_push plain_wire receiver_new m = Some (Inl CorruptFrame, reset receiver_new) \<and>
     parse_frame plain_wire m = Some (plain_frame, [1, 2, 3]) \<and>
     completion plain_wire receiver_new plain_frame [1, 2, 3] = Some [1, 2, 3] \<and>
     checksum32 plain_wire [1, 2, 3] \<noteq> fh_stream_tag plain_frame"
proof -
  have start: "reachable plain_wire receiver_new" unfolding receiver_new_limits by (rule reachable.started)
  obtain m where m: "pack_frame plain_wire plain_frame [1, 2, 3] = Some m" "parse_frame plain_wire m = Some (plain_frame, [1, 2, 3])"
    using pack_parse [OF plain_wire_codec plain_frame_ok] by blast
  obtain res r where step: "try_push plain_wire receiver_new m = Some (res, r)"
    using try_push_outcome [OF reachable_ok [OF start]] by blast
  have tag: "checksum32 plain_wire [1, 2, 3] \<noteq> fh_stream_tag plain_frame"
    by (simp add: plain_checksum plain_headers)
  have idle: "rc_identity receiver_new = None" "\<not> rc_delivered receiver_new" by (simp_all add: receiver_new_def)
  from failed_push_changes_nothing [OF start step] have "res = Inl CorruptFrame \<and> r = reset receiver_new"
    using m(2) idle tag plain_frame_opening by (simp add: announced_def)
  then show ?thesis using step m(2) tag plain_frame_opening(4) by blast
qed

text \<open>C22: a receiver without a stream opens one exactly when the frame is intact, within its limits
  and announces consistent stream parameters, and a stream of a single block, which its first frame
  completes, has the announced checksum as well. A stream of one block is delivered at once. Otherwise
  the receiver answers with the first error that applies and stays as it was.\<close>

theorem receiver_opens_consistent_streams:
  assumes "reachable P r" and "rc_identity r = None" and "parse_frame P bytes = Some (h, block)"
  shows "\<exists>res r'. try_push P r bytes = Some (res, r') \<and>
    (if over_limits r h then res = Inl ResourceLimit \<and> r' = r
     else if \<not> stream_ok (unat (fh_k h)) (unat (fh_block_len h)) (unat (fh_total_len h))
     then res = Inl (if MAX_STREAM_BYTES < unat (fh_total_len h)
       then TooLarge (unat (fh_total_len h)) MAX_STREAM_BYTES else InvalidStream) \<and> r' = r
     else if unat (fh_k h) = 1 \<and> checksum32 P (take (unat (fh_total_len h)) block) \<noteq> fh_stream_tag h
     then res = Inl CorruptFrame \<and> r' = r
     else rc_identity r' = Some (stream_identity h) \<and> rc_decoder r' \<noteq> None \<and>
       (if unat (fh_k h) = 1 then res = Inr (Some (take (unat (fh_total_len h)) block)) \<and> rc_delivered r'
        else res = Inr None \<and> \<not> rc_delivered r'))"
proof -
  have ok: "receiver_ok P r" using assms(1) by (rule reachable_ok)
  then have idle: "\<not> rc_delivered r" "reset r = r" using assms(2) by (simp_all add: receiver_ok_def reset_def)
  note answer = try_push_answer [OF ok, of bytes, unfolded assms(3), simplified]
  show ?thesis
  proof (cases "refusal r h")
    case (Some e)
    then have "try_push P r bytes = Some (Inl e, r)" using answer by simp
    moreover have "if over_limits r h then e = ResourceLimit
      else \<not> announced h \<and> e = (if MAX_STREAM_BYTES < unat (fh_total_len h)
        then TooLarge (unat (fh_total_len h)) MAX_STREAM_BYTES else InvalidStream)"
      using Some assms(2) by (auto simp: refusal_def split: if_splits)
    ultimately show ?thesis unfolding announced_def by (intro exI [of _ "Inl e"] exI [of _ r]) simp
  next
    case None
    then have taken: "\<not> over_limits r h" "announced h" using assms(2) by (auto simp: refusal_def split: if_splits)
    have cmp: "completion P r h block = (if unat (fh_k h) = 1 then Some (take (unat (fh_total_len h)) block) else None)"
      by (rule first_frame_completion [OF ok assms(2) taken(2,1)]) (rule parse_header(2) [OF assms(3)])
    have fed: "fed_decoder P r h block \<noteq> None" if "completion P r h block = Some c" for c
      using that by (auto simp: completion_def split: bind_splits)
    let ?r = "r\<lparr>rc_decoder := fed_decoder P r h block, rc_identity := Some (stream_identity h)\<rparr>"
    note rest = taken(1) taken(2) [unfolded announced_def]
    show ?thesis
    proof (cases "unat (fh_k h) = 1")
      case True
      then have c: "completion P r h block = Some (take (unat (fh_total_len h)) block)" using cmp by simp
      show ?thesis
      proof (cases "checksum32 P (take (unat (fh_total_len h)) block) = fh_stream_tag h")
        case good: True
        then have "try_push P r bytes = Some (Inr (Some (take (unat (fh_total_len h)) block)), ?r\<lparr>rc_delivered := True\<rparr>)"
          using answer None c idle by simp
        then show ?thesis using rest True good fed [OF c] by simp
      next
        case bad: False
        then have "try_push P r bytes = Some (Inl CorruptFrame, r)" using answer None c idle by simp
        then show ?thesis using rest True bad by simp
      qed
    next
      case False
      then have "fed_decoder P r h block \<noteq> None \<and> try_push P r bytes = Some (Inr None, ?r)"
        using answer None cmp idle by simp
      then show ?thesis using rest False idle by simp
    qed
  qed
qed

theorem receiver_opens_consistent_streams_witness:
  "\<exists>m r. parse_frame plain_wire m = Some (plain_first, [1, 2, 3]) \<and>
     try_push plain_wire receiver_new m = Some (Inr (Some [1, 2, 3]), r) \<and>
     rc_identity r = Some (stream_identity plain_first) \<and> rc_delivered r"
proof -
  have start: "reachable plain_wire receiver_new" unfolding receiver_new_limits by (rule reachable.started)
  have fresh: "rc_identity receiver_new = None" by (simp add: receiver_new_def)
  obtain m where m: "parse_frame plain_wire m = Some (plain_first, [1, 2, 3])"
    using pack_parse [OF plain_wire_codec plain_first_ok] by blast
  from receiver_opens_consistent_streams [OF start fresh m] plain_first_opening(1,2)
  obtain r where "try_push plain_wire receiver_new m = Some (Inr (Some [1, 2, 3]), r)"
    "rc_identity r = Some (stream_identity plain_first)" "rc_delivered r"
    by (auto simp: announced_def plain_headers plain_checksum)
  then show ?thesis using m by blast
qed

text \<open>C23: a sender is built exactly for admissible containers and block lengths; its header fields
  are the exact counts, none of them truncated by its 16- or 32-bit field, and it starts at sequence
  number zero. Otherwise the constructor returns the first error that applies.\<close>

theorem sender_constructors:
  "(if params_ok container block_len
    then \<exists>s. sender_with_mode P container block_len session_id flags = Some (Inr s) \<and>
      unat (sd_k s) = div_ceil (length container) block_len \<and> unat (sd_block_len s) = block_len \<and>
      unat (sd_total_len s) = length container \<and> sd_stream_tag s = checksum32 P container \<and>
      sd_session_id s = session_id \<and> sd_flags s = flags \<and> sd_seq s = 0 \<and> \<not> sd_exhausted s
    else sender_with_mode P container block_len session_id flags =
      Some (Inl (if container = [] then Empty
        else if 0 < block_len \<and> block_len \<le> 0xffff \<and> MAX_STREAM_BYTES < length container
        then TooLarge (length container) MAX_STREAM_BYTES else InvalidStream))) \<and>
   (params_ok container block_len = (\<exists>s. sender_new P container block_len session_id = Some s \<and> sender_is_causal s)) \<and>
   (params_ok container block_len =
     (\<exists>s. sender_new_systematic P container block_len session_id = Some s \<and> sender_is_systematic s)) \<and>
   (params_ok container block_len = (\<exists>s. sender_new_rsd P container block_len session_id = Some s))"
proof (cases "params_ok container block_len")
  case True
  have built: "\<exists>s. sender_with_mode P container block_len session_id flags = Some (Inr s) \<and> sender_ok P container s \<and>
      sd_seq s = 0 \<and> \<not> sd_exhausted s \<and> sd_session_id s = session_id \<and> sd_flags s = flags \<and>
      unat (sd_k s) = div_ceil (length container) block_len \<and> unat (sd_block_len s) = block_len" for flags
    using sender_with_mode_ok [OF True] .
  obtain s0 s1 s2 s3 where s0: "sender_with_mode P container block_len session_id flags = Some (Inr s0)" "sender_ok P container s0"
      "sd_seq s0 = 0" "\<not> sd_exhausted s0" "sd_session_id s0 = session_id" "sd_flags s0 = flags"
      "unat (sd_k s0) = div_ceil (length container) block_len" "unat (sd_block_len s0) = block_len"
    and s1: "sender_with_mode P container block_len session_id FLAG_CAUSAL = Some (Inr s1)" "sd_flags s1 = FLAG_CAUSAL"
    and s2: "sender_with_mode P container block_len session_id FLAG_SYSTEMATIC = Some (Inr s2)" "sd_flags s2 = FLAG_SYSTEMATIC"
    and s3: "sender_with_mode P container block_len session_id 0 = Some (Inr s3)"
    using built [of flags] built [of FLAG_CAUSAL] built [of FLAG_SYSTEMATIC] built [of 0] by blast
  have first: "unat (sd_total_len s0) = length container" "sd_stream_tag s0 = checksum32 P container"
    using s0(2) by (simp_all add: sender_ok_def)
  have "sender_new P container block_len session_id = Some s1"
    "sender_new_systematic P container block_len session_id = Some s2" "sender_new_rsd P container block_len session_id = Some s3"
    using s1 s2 s3 by (simp_all add: sender_new_def sender_try_new_def sender_new_systematic_def
        sender_try_new_systematic_def sender_new_rsd_def sender_try_new_rsd_def expect_ok_def)
  then show ?thesis using True s0 s1(2) s2(2) first by (simp add: sender_is_causal_def sender_is_systematic_def)
next
  case False
  then show ?thesis
    by (simp add: sender_with_mode_err sender_new_def sender_try_new_def sender_new_systematic_def
        sender_try_new_systematic_def sender_new_rsd_def sender_try_new_rsd_def expect_ok_def)
qed

text \<open>C21: a sender numbers its frames \<open>0, 1, 2, ...\<close> without gaps, every frame carries the
  stream's identity, a block of the announced length and a tag that matches, and after the frame with
  the largest 32-bit number every further call answers that the sequence is exhausted: no number is
  ever reused.\<close>

theorem sender_numbers_frames:
  assumes "sender_with_mode P container block_len session_id flags = Some (Inr s)"
  shows "\<exists>rs s'. emit P s n = Some (rs, s') \<and> length rs = n \<and>
    (\<forall>i < n. case rs ! i of
        Inl e \<Rightarrow> 2 ^ 32 \<le> i \<and> e = SequenceExhausted
      | Inr f \<Rightarrow> i < 2 ^ 32 \<and> unat (fh_seq (sf_header f)) = i \<and>
          stream_identity (sf_header f) = sender_identity s \<and> length (sf_block f) = block_len \<and>
          fh_frame_tag (sf_header f) = frame_checksum P (sf_header f) (sf_block f))"
proof -
  have p: "params_ok container block_len"
    by (rule ccontr) (use assms sender_with_mode_err [of container block_len P session_id flags] in simp)
  from sender_with_mode_ok [OF p, of P session_id flags] assms have s: "sender_ok P container s" "sd_seq s = 0"
    "\<not> sd_exhausted s" "unat (sd_block_len s) = block_len" by auto
  obtain s' where run: "emit P s n = Some (map (numbered P container s) [0..<n], s')" using emit_fresh [OF s(1-3)] by blast
  have "case numbered P container s i of
        Inl e \<Rightarrow> 2 ^ 32 \<le> i \<and> e = SequenceExhausted
      | Inr f \<Rightarrow> i < 2 ^ 32 \<and> unat (fh_seq (sf_header f)) = i \<and>
          stream_identity (sf_header f) = sender_identity s \<and> length (sf_block f) = block_len \<and>
          fh_frame_tag (sf_header f) = frame_checksum P (sf_header f) (sf_block f)" for i
    using s(4) by (simp add: numbered_def frame_of_def Let_def stream_identity_def sender_identity_def unat_of_nat
        frame_checksum_def)
  then show ?thesis using run by (intro exI [of _ "map (numbered P container s) [0..<n]"] exI [of _ s']) simp
qed

theorem sender_numbers_frames_witness:
  "\<exists>s f s'. sender_with_mode plain_wire [1, 2, 3] 3 7 FLAG_CAUSAL = Some (Inr s) \<and>
     emit plain_wire s 1 = Some ([Inr f], s') \<and> fh_seq (sf_header f) = 0 \<and> length (sf_block f) = 3"
proof -
  have p: "params_ok [1, 2, 3] 3"
    by (simp add: params_ok_def MAX_STREAM_BYTES_def MAX_FILE_BYTES_def MAX_SOURCE_BLOCKS_def div_ceil_def)
  obtain s where s: "sender_with_mode plain_wire [1, 2, 3] 3 7 FLAG_CAUSAL = Some (Inr s)"
    using sender_with_mode_ok [OF p] by blast
  from sender_numbers_frames [OF s, of 1] obtain rs s' where e: "emit plain_wire s 1 = Some (rs, s')" "length rs = 1"
    "case rs ! 0 of Inl e \<Rightarrow> 2 ^ 32 \<le> (0 :: nat) \<and> e = SequenceExhausted
      | Inr f \<Rightarrow> (0 :: nat) < 2 ^ 32 \<and> unat (fh_seq (sf_header f)) = 0 \<and>
          stream_identity (sf_header f) = sender_identity s \<and> length (sf_block f) = 3 \<and>
          fh_frame_tag (sf_header f) = frame_checksum plain_wire (sf_header f) (sf_block f)" by auto
  then obtain f where "rs = [Inr f]" "fh_seq (sf_header f) = 0" "length (sf_block f) = 3"
    by (cases rs) (auto simp: word_unat_eq_iff split: sum.splits)
  then show ?thesis using s e(1) by blast
qed

end
