(* ===== verification/Files.thy ===== *)
theory Files
  imports Jrp Delivery
begin

text \<open>
  Files from end to end: a file that is packed, sent as frames and unpacked by the receiver, over
  the container, the fountain and the session. Here are the two constructors of
  \<open>src/session.rs\<close> that take a packed file, and how the capacity arithmetic of
  \<open>src/capacity.rs\<close> decides which senders exist.
\<close>

definition sender_from_packed :: "'m container_platform_scheme \<Rightarrow> packed_optical_file \<Rightarrow> usize \<Rightarrow> u16 \<Rightarrow> sender option" where
  "sender_from_packed P packed block_len session_id = sender_new P (po_container packed) block_len session_id"

definition sender_try_from_packed :: "'m container_platform_scheme \<Rightarrow> packed_optical_file \<Rightarrow> usize \<Rightarrow> u16 \<Rightarrow>
    sender result option" where
  "sender_try_from_packed P packed block_len session_id = sender_try_new P (po_container packed) block_len session_id"

lemma sender_new_causal:
  "sender_new P container block_len session_id = Some s \<longleftrightarrow>
     sender_with_mode P container block_len session_id FLAG_CAUSAL = Some (Inr s)"
  by (auto simp: sender_new_def sender_try_new_def expect_ok_def split: option.splits sum.splits)

text \<open>Everything a receiver hands out while it listens to one sender opens as that sender's file.\<close>

lemma channel_opens:
  assumes "codec_ok P" and "good_flags flags"
    and "sender_with_mode P container block_len session_id flags = Some (Inr s)"
    and "sent P s n m" and "\<forall>m \<in> set ms. sent P s n m \<or> noise P s m"
    and opens: "open_container container = Some (Inr f)"
  shows "\<exists>rs r. push_all P receiver_new (m # ms) = Some (rs, r) \<and>
    length (deliveries rs) \<le> 1 \<and> (\<forall>c \<in> set (deliveries rs). open_container c = Some (Inr f))"
proof -
  have "\<forall>m \<in> set (m # ms). sent P s n m \<or> noise P s m" using assms(4,5) by simp
  from channel_run [OF sender_channel(1) [OF assms(1-3)] tuned_new this] assms(4) obtain rs r where
    "push_all P receiver_new (m # ms) = Some (rs, r)"
    "deliveries rs = (if rc_delivered r \<and> \<not> rc_delivered receiver_new then [container] else [])"
    unfolding list.sel by blast
  then show ?thesis using opens by (intro exI [of _ rs] exI [of _ r]) simp
qed

lemma pack_file_plain: "pack_file P name mime_type bytes = Inr packed \<Longrightarrow> \<not> po_encrypted packed"
  by (auto simp: pack_file_def Let_def split: sum.splits)

lemma unpack_packed:
  assumes "dcf_codec_ok P" and "gzip_ok P" and "digest_ok P" and "list_all scalar name"
    and "pack_file P name mime_type bytes = Inr packed"
  shows "\<exists>f. unpack_file P (po_container packed) = Some (Inr f) \<and> of_bytes f = bytes \<and> of_digest f = blake3 P bytes \<and>
    of_name f = safe_file_name (safe_file_name name) \<and> normalize_mime_type mime_type = Inr (of_mime_type f)"
  using unpack_plain [OF assms, of None] by (auto simp: unpack_file_def unpacked_def)

lemma one_message_list:
  assumes "sent P s n m" and "\<forall>m'. sent P s n m' \<longrightarrow> m' = m"
  shows "\<forall>m' \<in> set [m]. sent P s n m' \<or> noise P s m'" and "\<forall>m'. sent P s n m' \<longrightarrow> m' \<in> set [m]"
    and "sent P s n (hd [m])"
proof -
  show "\<forall>m'. sent P s n m' \<longrightarrow> m' \<in> set [m]"
  proof (intro allI impI)
    fix m' assume "sent P s n m'"
    then have "m' = m" by (rule assms(2) [rule_format])
    then show "m' \<in> set [m]" by simp
  qed
qed (simp_all add: assms(1))

section \<open>Instances\<close>

lemma plain_wires: "codec_ok plain_container" "codec_ok plain_jrc"
  using plain_wire_codec
  by (simp_all add: codec_ok_def plain_jrc_def plain_container_defs container_platform.defs)

section \<open>Properties\<close>

text \<open>C1: a file goes through: when each of the first \<open>k\<close> messages of a packed file's sender reaches
  a fresh receiver, in any order, repeated and mixed with damaged byte strings and frames of other
  streams, and the first arrival is one of them, the receiver hands out one container, and it unpacks to the bytes, the digest, the media
  type and the sanitised name of the file that was packed.\<close>

theorem file_transfer_completes:
  assumes "codec_ok P" and "dcf_codec_ok P" and "gzip_ok P" and "digest_ok P" and "list_all scalar name"
    and "pack_file P name mime_type bytes = Inr packed"
    and "sender_from_packed P packed block_len session_id = Some s"
    and "\<forall>m \<in> set ms. sent P s (unat (sd_k s)) m \<or> noise P s m"
    and "\<forall>m. sent P s (unat (sd_k s)) m \<longrightarrow> m \<in> set ms" and "sent P s (unat (sd_k s)) (hd ms)"
  shows "\<exists>rs r container f. push_all P receiver_new ms = Some (rs, r) \<and> deliveries rs = [container] \<and>
    unpack_file P container = Some (Inr f) \<and> of_bytes f = bytes \<and> of_digest f = blake3 P bytes \<and>
    of_name f = safe_file_name (safe_file_name name) \<and> normalize_mime_type mime_type = Inr (of_mime_type f)"
proof -
  have s: "sender_with_mode P (po_container packed) block_len session_id FLAG_CAUSAL = Some (Inr s)"
    using assms(7) by (simp add: sender_from_packed_def sender_new_causal)
  from channel_completes [OF assms(1) disjI1 [OF refl] s assms(8-10)] unpack_packed [OF assms(2-6)]
  show ?thesis by blast
qed

theorem file_transfer_completes_witness:
  "\<exists>packed s m rs r container f. pack_file plain_container [97] [] [1, 2, 3] = Inr packed \<and>
     sender_from_packed plain_container packed 1000 7 = Some s \<and>
     push_all plain_container receiver_new [m] = Some (rs, r) \<and> deliveries rs = [container] \<and>
     unpack_file plain_container container = Some (Inr f) \<and> of_bytes f = [1, 2, 3]"
proof -
  have name: "list_all scalar [97]" by (simp add: scalar_def)
  obtain packed where p: "pack_file plain_container [97] [] [1, 2, 3] = Inr packed" "length (po_container packed) \<le> 1000"
    using plain_pack_small by blast
  have ne: "po_container packed \<noteq> []" using unpack_plain [OF plain_codec plain_gzip plain_digest name p(1), of None]
    by (auto simp: fits_stream_def)
  have "(1000 :: nat) \<le> 0xffff" by simp
  from one_shot [OF plain_wires(1) ne p(2) this] obtain s m where
    s: "sender_with_mode plain_container (po_container packed) 1000 7 FLAG_CAUSAL = Some (Inr s)"
    and m: "sent plain_container s (unat (sd_k s)) m" "\<forall>m'. sent plain_container s (unat (sd_k s)) m' \<longrightarrow> m' = m" by blast
  have n: "sender_from_packed plain_container packed 1000 7 = Some s" using s by (simp add: sender_from_packed_def sender_new_causal)
  note h = one_message_list [OF m]
  from file_transfer_completes [OF plain_wires(1) plain_codec plain_gzip plain_digest name p(1) n h] p(1) n
  show ?thesis by blast
qed

text \<open>C17: a file packed for a judge goes through the same way: the receiver hands out the envelope,
  and the judge's secret key recovers from it the file that was packed.\<close>

theorem judged_transfer_completes:
  assumes "codec_ok P" and "dcf_codec_ok P" and "gzip_ok P" and "digest_ok P" and "jrc_ok P" and "list_all scalar name"
    and "length (secret_to_bytes dk) = 32" and "length e_sk = 32" and "length nonce = NONCE_LEN"
    and "pack_file_jrc P name mime_type bytes (to_public P dk) nonce (Some e_sk) = Inr packed"
    and "sender_new P (jp_envelope packed) block_len session_id = Some s"
    and "\<forall>m \<in> set ms. sent P s (unat (sd_k s)) m \<or> noise P s m"
    and "\<forall>m. sent P s (unat (sd_k s)) m \<longrightarrow> m \<in> set ms" and "sent P s (unat (sd_k s)) (hd ms)"
  shows "\<exists>rs r f. push_all P receiver_new ms = Some (rs, r) \<and> deliveries rs = [jp_envelope packed] \<and>
    unpack_file_jrc P (jp_envelope packed) dk = Some (Inr f) \<and> of_bytes f = bytes \<and> of_digest f = blake3 P bytes"
proof -
  have s: "sender_with_mode P (jp_envelope packed) block_len session_id FLAG_CAUSAL = Some (Inr s)"
    using assms(11) by (simp add: sender_new_causal)
  from channel_completes [OF assms(1) disjI1 [OF refl] s assms(12-14)] unpack_judged [OF assms(2-10)]
  show ?thesis by blast
qed

theorem judged_transfer_completes_witness:
  "\<exists>packed s m rs r f. pack_file_jrc plain_jrc [97] [] [1, 2, 3] (to_public plain_jrc (JudgeSecretKey (replicate 32 5)))
       (replicate 24 7) (Some (replicate 32 6)) = Inr packed \<and>
     sender_new plain_jrc (jp_envelope packed) 2000 7 = Some s \<and>
     push_all plain_jrc receiver_new [m] = Some (rs, r) \<and> deliveries rs = [jp_envelope packed] \<and>
     unpack_file_jrc plain_jrc (jp_envelope packed) (JudgeSecretKey (replicate 32 5)) = Some (Inr f) \<and> of_bytes f = [1, 2, 3]"
proof -
  obtain packed where p: "pack_file_jrc plain_jrc [97] [] [1, 2, 3] (to_public plain_jrc (JudgeSecretKey (replicate 32 5)))
      (replicate 24 7) (Some (replicate 32 6)) = Inr packed" "length (jp_envelope packed) \<le> 2000" "jp_envelope packed \<noteq> []"
    using plain_judged by blast
  have "(2000 :: nat) \<le> 0xffff" by simp
  from one_shot [OF plain_wires(2) p(3,2) this] obtain s m where
    s: "sender_with_mode plain_jrc (jp_envelope packed) 2000 7 FLAG_CAUSAL = Some (Inr s)"
    and m: "sent plain_jrc s (unat (sd_k s)) m" "\<forall>m'. sent plain_jrc s (unat (sd_k s)) m' \<longrightarrow> m' = m" by blast
  have n: "sender_new plain_jrc (jp_envelope packed) 2000 7 = Some s" using s by (simp add: sender_new_causal)
  note h = one_message_list [OF m]
  have k: "list_all scalar [97]" "length (secret_to_bytes (JudgeSecretKey (replicate 32 5))) = 32"
    "length (replicate 32 (6 :: u8)) = 32" "length (replicate 24 (7 :: u8)) = NONCE_LEN"
    by (simp_all add: scalar_def NONCE_LEN_def)
  from judged_transfer_completes [OF plain_wires(2) plain_jrc_contracts plain_jrc_ok k p(1) n h] obtain rs r f where
    "push_all plain_jrc receiver_new [m] = Some (rs, r) \<and> deliveries rs = [jp_envelope packed] \<and>
     unpack_file_jrc plain_jrc (jp_envelope packed) (JudgeSecretKey (replicate 32 5)) = Some (Inr f) \<and> of_bytes f = [1, 2, 3]"
    by (elim exE conjE) simp
  with n p(1) show ?thesis by blast
qed

text \<open>Whatever reaches a receiver that is locked by a message of a packed file's sender, in any
  mode, with any loss, repetition and reordering, mixed with damaged byte strings and frames of other
  streams: it hands out at most one container, and that unpacks to the packed file.\<close>

theorem file_transfer_is_sound:
  assumes "codec_ok P" and "dcf_codec_ok P" and "gzip_ok P" and "digest_ok P" and "list_all scalar name"
    and "pack_file P name mime_type bytes = Inr packed" and "flags \<in> {0, FLAG_SYSTEMATIC, FLAG_CAUSAL}"
    and "sender_with_mode P (po_container packed) block_len session_id flags = Some (Inr s)"
    and "sent P s n m" and "\<forall>m \<in> set ms. sent P s n m \<or> noise P s m"
  shows "\<exists>rs r. push_all P receiver_new (m # ms) = Some (rs, r) \<and> length (deliveries rs) \<le> 1 \<and>
    (\<forall>container \<in> set (deliveries rs). \<exists>f. unpack_file P container = Some (Inr f) \<and> of_bytes f = bytes \<and>
       of_digest f = blake3 P bytes \<and> normalize_mime_type mime_type = Inr (of_mime_type f))"
proof -
  have good: "good_flags flags" using assms(7) by (simp add: good_flags_def)
  from unpack_packed [OF assms(2-6)] obtain f where f: "unpack_file P (po_container packed) = Some (Inr f)"
    "of_bytes f = bytes \<and> of_digest f = blake3 P bytes \<and> normalize_mime_type mime_type = Inr (of_mime_type f)" by blast
  from channel_opens [where open_container = "unpack_file P", OF assms(1) good assms(8-10) f(1)] f(2) show ?thesis by blast
qed

theorem file_transfer_is_sound_witness:
  "\<exists>packed s m rs r. pack_file plain_container [97] [] [1, 2, 3] = Inr packed \<and>
     sender_with_mode plain_container (po_container packed) 1000 7 FLAG_CAUSAL = Some (Inr s) \<and>
     push_all plain_container receiver_new [m, [], m] = Some (rs, r) \<and> length (deliveries rs) \<le> 1"
proof -
  have name: "list_all scalar [97]" by (simp add: scalar_def)
  obtain packed where p: "pack_file plain_container [97] [] [1, 2, 3] = Inr packed" "length (po_container packed) \<le> 1000"
    using plain_pack_small by blast
  have ne: "po_container packed \<noteq> []" using unpack_plain [OF plain_codec plain_gzip plain_digest name p(1), of None]
    by (auto simp: fits_stream_def)
  have "(1000 :: nat) \<le> 0xffff" by simp
  from one_shot [OF plain_wires(1) ne p(2) this] obtain s m where
    s: "sender_with_mode plain_container (po_container packed) 1000 7 FLAG_CAUSAL = Some (Inr s)"
    and m: "sent plain_container s (unat (sd_k s)) m" by blast
  have "noise plain_container s []" by (simp add: noise_def parse_frame_def)
  with m have h: "\<forall>m' \<in> set [[], m]. sent plain_container s (unat (sd_k s)) m' \<or> noise plain_container s m'" by simp
  have "FLAG_CAUSAL \<in> {0, FLAG_SYSTEMATIC, FLAG_CAUSAL}" by simp
  from file_transfer_is_sound [OF plain_wires(1) plain_codec plain_gzip plain_digest name p(1) this s m h] p(1) s
  show ?thesis by blast
qed

text \<open>C24: the capacity arithmetic decides exactly which senders exist: for a frame size with a block
  length, a sender is built if and only if the container fits one stream at that frame size and does
  not exceed the stream limit, which the arithmetic alone does not know.\<close>

theorem capacity_decides_sender:
  assumes "block_length frame_bytes = Some block_len"
  shows "(\<exists>s. sender_with_mode P container block_len session_id flags = Some (Inr s)) \<longleftrightarrow>
    fits_in_one_stream (length container) frame_bytes \<and> length container \<le> MAX_STREAM_BYTES"
proof -
  have b: "0 < block_len" "block_len \<le> 0xffff" using assms by (simp_all add: block_length_Some)
  have "fits_in_one_stream (length container) frame_bytes \<longleftrightarrow>
      container \<noteq> [] \<and> div_ceil (length container) block_len \<le> MAX_SOURCE_BLOCKS"
    using assms div_ceil_pos [OF b(1), of "length container"]
    by (cases "container = []") (simp_all add: fits_in_one_stream_def source_block_count_def)
  then have "params_ok container block_len \<longleftrightarrow>
      fits_in_one_stream (length container) frame_bytes \<and> length container \<le> MAX_STREAM_BYTES"
    using b by (auto simp: params_ok_def)
  moreover have "(\<exists>s. sender_with_mode P container block_len session_id flags = Some (Inr s)) \<longleftrightarrow> params_ok container block_len"
    using sender_with_mode_ok [of container block_len P session_id flags]
      sender_with_mode_err [of container block_len P session_id flags] by (cases "params_ok container block_len") auto
  ultimately show ?thesis by simp
qed

theorem capacity_decides_sender_witness:
  "(\<exists>s. sender_with_mode plain_wire [1, 2, 3] 3 7 0 = Some (Inr s)) \<and> fits_in_one_stream 3 28"
proof -
  have "block_length 28 = Some 3" by (simp add: block_length_def checked_sub_def HEADER_LEN_def)
  moreover have "fits_in_one_stream 3 28"
    by (simp add: fits_in_one_stream_def source_block_count_def block_length_def checked_sub_def HEADER_LEN_def
        div_ceil_def MAX_SOURCE_BLOCKS_def)
  ultimately show ?thesis
    using capacity_decides_sender [of 28 3 plain_wire "[1, 2, 3]" 7 0] by (simp add: numeral_3_eq_3 MAX_STREAM_BYTES_def MAX_FILE_BYTES_def)
qed

end
