(* ===== verification/Twoblocks.thy ===== *)
theory Twoblocks
  imports Encoder
begin

text \<open>
  The robust-soliton distribution of two blocks (\<open>src/soliton.rs\<close>), computed through the binary64 model
  as far as the sampler needs it: a draw up to 1/2 gives degree 1, one above 11/16 degree 2, with any square
  root of 2 that is not above 2. With it the equations of single frames are known, which the theory of
  stalled transfers uses for one session. \<open>below q a\<close>: the float \<open>a\<close> lies between zero and \<open>q\<close>.
\<close>

section \<open>The distribution of two blocks\<close>

lemma numbers2: "f_of_nat 2 = Num 2" "f_of_nat (Suc 0) = Num 1" "f_of_nat 1 = Num 1"
  by (simp_all add: f_of_nat_exact)

lemma f_of_int_small: "\<bar>n\<bar> < 2 ^ 53 \<Longrightarrow> n \<noteq> 0 \<Longrightarrow> f_of_int n = Num (of_int n)"
  using f_lit_dyadic [of n 0] by (simp add: f_of_int_def f_lit_def)

lemma round_lit: "round64 False q = f_lit q"
  by (simp add: f_lit_def)

lemma lit4: "f_lit 4 = Num 4"
  using f_lit_dyadic [of 4 0] by simp

lemma series_zero: "n \<le> 23 \<Longrightarrow> 0 < n \<Longrightarrow> series (Zero False) (Zero False) (Zero False) n = Zero False"
proof (induction "nat (23 - n)" arbitrary: n rule: less_induct)
  case less
  show ?case
  proof (cases "n \<le> 21")
    case True
    have "f_of_int n = Num (of_int n)" by (rule f_of_int_small) (use True less.prems in auto)
    moreover have "series (Zero False) (Zero False) (Zero False) (n + 2) = Zero False"
      by (rule less.hyps) (use True less.prems in auto)
    ultimately show ?thesis using less.prems by (simp add: series.simps [of _ _ _ n] round64_def)
  next
    case False
    then show ?thesis by (simp add: series.simps [of _ _ _ n])
  qed
qed

lemma dlog_power:
  assumes "halve_loop (Num q) 0 = Some (Num 1, e)" and "0 < q" and "0 < e" and "e < 2 ^ 53"
  shows "dlog (Num q) = Some (f_add (f_mul (Num (of_int e)) LN_2) (Zero False))"
proof -
  have double: "double_loop (Num 1) e = Some (Num 1, e)" by (simp add: double_loop.simps f_lt_def)
  have z: "f_sub (Num 1) (Num 1) = Zero False" "f_lit 0 = Zero False" by (simp_all add: f_sub_def round_lit)
  have e: "f_of_int e = Num (of_int e)" using assms(3,4) by (intro f_of_int_small) simp_all
  show ?thesis
    using assms(1,2) by (simp add: dlog_def f_is_nan_def f_lt_def f_eq_def f_le_def double z e series_zero Let_def round_lit)
qed

lemma dlog_four: "dlog (Num 4) = Some (f_add (f_mul (Num 2) LN_2) (Zero False))"
  using dlog_power [of 4 2] by (simp add: halve_loop.simps f_le_def round_lit)

lemma dlog_two: "dlog (Num 2) = Some (f_add (f_mul (Num 1) LN_2) (Zero False))"
  using dlog_power [of 2 1] by (simp add: halve_loop.simps f_le_def round_lit)

text \<open>Rounding stays between representable bounds.\<close>

lemma f_le_lit: "q \<le> of_int m / 2 ^ n \<Longrightarrow> \<bar>m\<bar> < 2 ^ 53 \<Longrightarrow> n \<le> 1000 \<Longrightarrow> m \<noteq> 0 \<Longrightarrow>
    f_le (round64 s q) (Num (of_int m / 2 ^ n))"
  using round64_mono [of q "of_int m / 2 ^ n" s False] f_lit_dyadic [of m n] by (simp add: f_lit_def)

definition below :: "rat \<Rightarrow> f64 \<Rightarrow> bool" where
  "below q a \<longleftrightarrow> nn a \<and> f_le a (Num q)"

lemma below_cases: "below q a \<Longrightarrow> (\<exists>s. a = Zero s) \<or> (\<exists>p. a = Num p \<and> 0 < p \<and> p \<le> q)"
  by (cases a) (auto simp: below_def nn_def above_zero f_le_def less_le split: if_splits)

lemma below_round: "0 \<le> q \<Longrightarrow> q \<le> of_int m / 2 ^ n \<Longrightarrow> \<bar>m\<bar> < 2 ^ 53 \<Longrightarrow> n \<le> 1000 \<Longrightarrow> m \<noteq> 0 \<Longrightarrow>
    below (of_int m / 2 ^ n) (round64 s q)"
  by (simp add: below_def nn_round f_le_lit)

lemma below_mul:
  assumes "below p a" and "below q b" and "0 \<le> p" and "0 \<le> q" and "p * q \<le> of_int m / 2 ^ n"
    and "\<bar>m\<bar> < 2 ^ 53" and "n \<le> 1000" and "0 < m"
  shows "below (of_int m / 2 ^ n) (f_mul a b)"
proof -
  have pos: "0 \<le> (of_int m / 2 ^ n :: rat)" using assms(8) by simp
  have "0 \<le> f_val a" "f_val a \<le> p" "0 \<le> f_val b" "f_val b \<le> q"
    using below_cases [OF assms(1)] below_cases [OF assms(2)] assms(3,4) by auto
  then have "0 \<le> f_val a * f_val b" "f_val a * f_val b \<le> p * q" by (simp_all add: mult_mono)
  then have "below (of_int m / 2 ^ n) (round64 s (f_val a * f_val b))" for s
    using assms(5-8) by (intro below_round) auto
  then show ?thesis using below_cases [OF assms(1)] below_cases [OF assms(2)] by (cases a; cases b) auto
qed

lemma below_zero [simp]: "0 \<le> q \<Longrightarrow> below q (Zero s)"
  by (simp add: below_def f_le_def)

lemma round_zero: "round64 s 0 = Zero s"
  by (simp add: round64_def)

lemma below_ln2: "below (3 / 4) LN_2"
  using below_round [of "693147180559945309417232121458176568 / 10 ^ 36" 3 2 False] by (simp add: LN_2_def f_lit_def)

lemma below_c: "below (1 / 8) SOLITON_C"
  using below_round [of "1 / 10" 1 3 False] by (simp add: SOLITON_C_def f_lit_def)

text \<open>What the library's square root and ceiling do on 2, with any rounding of the root up to 2.\<close>

definition libm_at_two :: "'m math_platform_scheme \<Rightarrow> bool" where
  "libm_at_two P \<longleftrightarrow> below 2 (libm_sqrt P (Num 2)) \<and> libm_ceil P (Num 2) = Num 2"

lemma below_num: "f_lit q = Num q \<Longrightarrow> 0 < q \<Longrightarrow> below q (Num q)"
  using round64_valid [of False q] by (simp add: below_def nn_def above_zero f_le_def f_lit_def)

lemma below_add:
  assumes "below p a" and "below q b" and "0 \<le> p" and "0 \<le> q" and "p + q \<le> of_int m / 2 ^ n"
    and "\<bar>m\<bar> < 2 ^ 53" and "n \<le> 1000" and "0 < m"
  shows "below (of_int m / 2 ^ n) (f_add a b)"
proof -
  have pos: "0 \<le> (of_int m / 2 ^ n :: rat)" using assms(8) by simp
  have "0 \<le> f_val a" "f_val a \<le> p" "0 \<le> f_val b" "f_val b \<le> q"
    using below_cases [OF assms(1)] below_cases [OF assms(2)] assms(3,4) by auto
  then have "0 \<le> f_val a + f_val b" "f_val a + f_val b \<le> of_int m / 2 ^ n" using assms(5) by linarith+
  then have "below (of_int m / 2 ^ n) (round64 s (f_val a + f_val b))" for s
    using assms(6-8) by (intro below_round) auto
  then show ?thesis using below_cases [OF assms(1)] below_cases [OF assms(2)] pos by (cases a; cases b) auto
qed

lemma below_log:
  assumes "below q (Num q)" and "0 \<le> q" and "q * 3 / 4 \<le> of_int m / 2 ^ n" and "\<bar>m\<bar> < 2 ^ 53" and "n \<le> 1000" and "0 < m"
  shows "below (of_int m / 2 ^ n) (f_add (f_mul (Num q) LN_2) (Zero False))"
proof -
  have "below (of_int m / 2 ^ n) (f_mul (Num q) LN_2)"
    by (rule below_mul [OF assms(1) below_ln2 assms(2)]) (use assms in simp_all)
  from below_add [OF this below_zero [OF order_refl], of m n False] assms(4-6) show ?thesis by simp
qed

lemma two_block_rate:
  assumes "libm_at_two P" and "dlog (Num 4) = Some l"
  shows "f_max (f_mul (f_mul SOLITON_C l) (libm_sqrt P (Num 2))) f_one = Num 1"
proof -
  have l: "below (3 / 2) l"
    using below_log [of 2 3 1] below_num [of 2] assms(2) by (simp add: dlog_four)
  have "below (1 / 4) (f_mul SOLITON_C l)" using below_mul [OF below_c l, of 1 2] by simp
  from below_mul [OF this, of 2 "libm_sqrt P (Num 2)" 1 1] assms(1)
  have "below (1 / 2) (f_mul (f_mul SOLITON_C l) (libm_sqrt P (Num 2)))" by (simp add: libm_at_two_def)
  from below_cases [OF this] show ?thesis by (auto simp: f_max_def f_lt_def)
qed

lemma nn_num: "rep q \<Longrightarrow> 0 < q \<Longrightarrow> nn (Num q)"
  by (simp add: nn_def above_zero)

lemma rep_lit: "f_lit q = Num q \<Longrightarrow> rep q"
  using round64_valid [of False q] by (simp add: f_lit_def)

lemma rep_values: "rep 1" "rep (1 / 2)" "rep (3 / 2)" "rep 2"
  by (rule rep_lit, simp)+

lemma two_block_terms:
  shows "cdf_term 2 (Num 1) 2 1 = Some (Num (1 / 2), Num (1 / 2))"
    and "\<exists>tau. cdf_term 2 (Num 1) 2 2 = Some (Num (1 / 2), tau) \<and> below (3 / 8) tau"
proof -
  show "cdf_term 2 (Num 1) 2 1 = Some (Num (1 / 2), Num (1 / 2))"
    by (simp add: cdf_term_def numbers2 round_lit)
  let ?l = "f_add (f_mul (Num 1) LN_2) (Zero False)"
  have "below (3 / 4) ?l" using below_log [of 1 3 2] below_num [of 1] by simp
  then have m: "below (3 / 4) (f_max ?l (Zero False))"
    using below_cases [of "3 / 4" ?l] by (auto simp: f_max_def f_lt_def)
  have "below (3 / 4) (f_mul (Num 1) (f_max ?l (Zero False)))" using below_mul [OF below_num m, of 1 3 2] by simp
  then have "below (3 / 8) (f_div (f_mul (Num 1) (f_max ?l (Zero False))) (Num 2))"
    using below_round [of _ 3 3] below_cases [of "3 / 4" "f_mul (Num 1) (f_max ?l (Zero False))"] by (auto simp: round_zero)
  moreover have "f_div (Num 1) SOLITON_DELTA = Num 2" by (simp add: SOLITON_DELTA_def round_lit)
  ultimately show "\<exists>tau. cdf_term 2 (Num 1) 2 2 = Some (Num (1 / 2), tau) \<and> below (3 / 8) tau"
    by (simp add: cdf_term_def numbers2 round_lit dlog_two)
qed

lemma above_below: "above (Num p) a \<Longrightarrow> below q a \<Longrightarrow> 0 < p \<Longrightarrow> \<exists>r. a = Num r \<and> p \<le> r \<and> r \<le> q \<and> rep r"
  by (cases a) (auto simp: above_def below_def f_le_def nn_def)

lemma two_block_first:
  assumes "below (3 / 8) tau"
  shows "\<exists>p. f_div (Num 1) (f_add (Num 1) (f_add (Num (1 / 2)) tau)) = Num p \<and> 1 / 2 \<le> p \<and> p \<le> 11 / 16"
proof -
  have n: "nn (Num (1 / 2))" "nn tau" using assms nn_num rep_values by (simp_all add: below_def)
  have "below (7 / 8) (f_add (Num (1 / 2)) tau)" using below_add [OF below_num assms, of "1 / 2" 7 3] by simp
  from above_below [OF add_above [OF n] this] obtain q where
    q: "f_add (Num (1 / 2)) tau = Num q" "1 / 2 \<le> q" "q \<le> 7 / 8" by auto
  have "f_le (Num (3 / 2)) (round64 False (1 + q))" "f_le (round64 False (1 + q)) (Num (15 / 8))"
    using round64_mono [of "3 / 2" "1 + q" False False] f_lits(4) q(2) f_le_lit [of "1 + q" 15 3] q(3)
    by (simp_all add: f_lit_def)
  then obtain z where z: "round64 False (1 + q) = Num z" "3 / 2 \<le> z" "z \<le> 15 / 8"
    by (cases "round64 False (1 + q)") (auto simp: f_le_def split: if_splits)
  have "1 / 2 \<le> 1 / z" "1 / z \<le> 11 / 16" using z(2,3) by (simp_all add: field_simps)
  then have "f_le (Num (1 / 2)) (round64 False (1 / z))" "f_le (round64 False (1 / z)) (Num (11 / 16))"
    using round64_mono [of "1 / 2" "1 / z" False False] f_lits(1) f_le_lit [of "1 / z" 11 4] by (simp_all add: f_lit_def)
  then obtain p where "round64 False (1 / z) = Num p" "1 / 2 \<le> p" "p \<le> 11 / 16"
    by (cases "round64 False (1 / z)") (auto simp: f_le_def split: if_splits)
  then show ?thesis using q z by simp
qed

lemma two_block_cdf:
  assumes "libm_at_two P"
  shows "\<exists>c. soliton_cdf P 2 = Some [Num c, Num 1] \<and> 1 / 2 \<le> c \<and> c \<le> 11 / 16"
proof -
  obtain l where l: "dlog (Num 4) = Some l" by (simp add: dlog_four)
  obtain tau where tau: "cdf_term 2 (Num 1) 2 2 = Some (Num (1 / 2), tau)" "below (3 / 8) tau" using two_block_terms(2) by blast
  let ?tot = "f_add (Num 1) (f_add (Num (1 / 2)) tau)"
  have "f_add (Zero False) (f_add (Num (1 / 2)) (Num (1 / 2))) = Num 1" by (simp add: round_lit)
  then have loop: "cdf_loop 2 (Num 1) 2 [1, 2] (Zero False) [Zero False, Zero False] = Some (?tot, [Num 1, ?tot])"
    by (simp add: two_block_terms(1) [unfolded One_nat_def] tau(1) set_at_def Let_def del: f_add.simps)
  have four: "f_div (f_of_nat 2) SOLITON_DELTA = Num 4" by (simp add: numbers2 SOLITON_DELTA_def round_lit lit4)
  have spike: "f_to_usize (f_min (libm_ceil P (f_div (Num 2) (Num 1))) (Num 2)) = 2"
    using assms by (simp add: libm_at_two_def round_lit f_min_def usize_max_def)
  have range: "[1..<2 + 1] = [1, 2 :: nat]" by (simp add: upt_rec)
  have zeros: "replicate 2 f_zero = [Zero False, Zero False]" by (simp add: numeral_2_eq_2)
  have "soliton_cdf P 2 = Some [f_div (Num 1) ?tot, Num 1]"
    unfolding soliton_cdf_def Let_def four l bind.bind_lunit range zeros
    using two_block_rate [OF assms l] spike loop
    by (simp add: numbers2 set_at_def del: f_add.simps)
  then show ?thesis using two_block_first [OF tau(2)] by (elim exE) simp
qed

section \<open>Equations of two blocks\<close>

lemma unit_draw_num:
  assumes "unat v = n" and "0 < n"
  shows "unit_draw v = Num (of_nat n / 2 ^ 32)" and "0 < (of_nat n / 2 ^ 32 :: rat)" and "of_nat n / 2 ^ 32 < (1 :: rat)"
proof -
  have n: "n < 2 ^ 32" using assms(1) u32_less [of v] by simp
  then have "f_of_nat n = Num (of_nat n)" using assms(2) by (simp add: f_of_nat_exact)
  moreover have "f_lit (of_nat n / 2 ^ 32) = Num (of_nat n / 2 ^ 32)"
    using f_lit_dyadic [of "int n" 32] n assms(2) by simp
  ultimately show "unit_draw v = Num (of_nat n / 2 ^ 32)" using assms by (simp add: unit_draw_def round_lit)
  have "(of_nat n :: rat) < of_nat (2 ^ 32)" using n by (simp only: of_nat_less_iff)
  then show "0 < (of_nat n / 2 ^ 32 :: rat)" "of_nat n / 2 ^ 32 < (1 :: rat)" using assms(2) by simp_all
qed

definition draw_of :: "u32 \<Rightarrow> u32 \<Rightarrow> u32" where
  "draw_of session_id seq = fst (next_u32 (splitmix_new (frame_seed session_id seq)))"

definition two_block_dc :: "degree_cdf \<Rightarrow> bool" where
  "two_block_dc dc \<longleftrightarrow> degree_cdf_ok dc \<and> cdf_good (dc_cdf dc) \<and>
     (\<exists>c. dc_cdf dc = [Num c, Num 1] \<and> 1 / 2 \<le> c \<and> c \<le> 11 / 16)"

lemma two_block_degree:
  assumes "two_block_dc dc" and "unat v = n" and "0 < n"
  shows "n \<le> 0x80000000 \<Longrightarrow> sample dc (unit_draw v) = Some 1"
    and "0xB0000000 < n \<Longrightarrow> sample dc (unit_draw v) = Some 2"
proof -
  obtain c where c: "dc_cdf dc = [Num c, Num 1]" "1 / 2 \<le> c" "c \<le> 11 / 16" "degree_cdf_ok dc" "cdf_good (dc_cdf dc)"
    using assms(1) by (auto simp: two_block_dc_def)
  note u = unit_draw_num [OF assms(2,3)]
  have "lower_bound [Num c, Num 1] (Num x) = Some (if x \<le> c then 0 else 1)" for x
    by (simp add: lower_bound_def checked_sub_def search_loop.simps f_le_def get_at_def)
  moreover have "sample dc (unit_draw v) = degree_binary (dc_cdf dc) (unit_draw v)"
    by (rule sample_eq_binary [OF c(4,5)]) simp
  ultimately have "sample dc (unit_draw v) = Some (if of_nat n / 2 ^ 32 \<le> c then 1 else 2)"
    using u(2,3) by (simp add: degree_binary_def c(1) u(1) f_is_nan_def f_le_def)
  moreover have "of_nat n / 2 ^ 32 \<le> (1 / 2 :: rat)" if "n \<le> 0x80000000"
  proof -
    have "(of_nat n :: rat) \<le> of_nat 0x80000000" using that by (simp only: of_nat_le_iff)
    then show ?thesis by simp
  qed
  moreover have "11 / 16 < (of_nat n / 2 ^ 32 :: rat)" if "0xB0000000 < n"
  proof -
    have "(of_nat 0xB0000000 :: rat) < of_nat n" using that by (simp only: of_nat_less_iff)
    then show ?thesis by simp
  qed
  ultimately show "n \<le> 0x80000000 \<Longrightarrow> sample dc (unit_draw v) = Some 1"
    "0xB0000000 < n \<Longrightarrow> sample dc (unit_draw v) = Some 2" using c(2,3) by auto
qed

lemma two_block_equation:
  assumes "two_block_dc dc" and "sample dc (unit_draw (draw_of session_id seq)) = Some d" and "d \<le> 2"
  shows "card (unat ` set (Select.equation dc session_id seq)) = d" and "unat ` set (Select.equation dc session_id seq) \<subseteq> {..<2}"
proof -
  obtain rng where rng: "next_u32 (splitmix_new (frame_seed session_id seq)) = (draw_of session_id seq, rng)"
    by (metis draw_of_def prod.collapse)
  have k: "degree_cdf_k dc = 2" using assms(1) by (auto simp: two_block_dc_def degree_cdf_k_def)
  have "\<exists>out rng'. block_set 2 out \<and> length out = d \<and>
    (\<forall>scratch. \<exists>scratch'. select_blocks [] scratch 2 d rng = Some (out, scratch', rng'))"
    by (rule select_blocks_ok [OF _ assms(3)]) simp
  then obtain out rng' scratch' where out: "block_set 2 out" "length out = d" "select_blocks [] [] 2 d rng = Some (out, scratch', rng')"
    by blast
  then have e: "Select.equation dc session_id seq = out"
    using rng assms(2,3) by (simp add: Select.equation_def frame_indices_into_def k Let_def)
  show "card (unat ` set (Select.equation dc session_id seq)) = d" "unat ` set (Select.equation dc session_id seq) \<subseteq> {..<2}"
    using out(1,2) by (auto simp: e block_set_def card_image [OF unat_inj_on] distinct_card)
qed

text \<open>The first eight draws of session 39671 are above 11/16, so the first eight frames of two blocks
  combine both; frame 9 carries one block.\<close>

lemma session_draws:
  "list_all (\<lambda>q. 0xB0000000 < unat (draw_of 39671 q)) [0, 1, 2, 3, 4, 5, 6, 7]" "unat (draw_of 39671 9) = 0x49b0bce8"
  by (simp_all add: draw_of_def next_u32_def splitmix_new_def frame_seed_def)

end
