(* ===== verification/Stall.thy ===== *)
theory Stall
  imports Twoblocks Delivery
begin

text \<open>
  How a transfer can be lost although every message arrives (\<open>src/fountain.rs\<close>, \<open>src/session.rs\<close>). The
  decoder's arena has \<open>4 k\<close> slots and none is ever reused. Frames from which no block can be peeled fill it,
  and a full decoder that is not complete drops every later frame (\<open>full_step\<close>); a receiver then never
  delivers (\<open>transfer_stuck\<close>). The last section gives a session of two blocks to which this happens.
\<close>

section \<open>A full decoder\<close>

text \<open>Until the first block is known, every accepted frame takes a slot of the arena.\<close>

definition dense :: "lt_decoder \<Rightarrow> bool" where
  "dense d \<longleftrightarrow> recv_ok d \<and> (known d = Map.empty \<longrightarrow> length (ld_arena d) = card (set_elems (ld_seen d)) * ld_words d)"

definition full :: "lt_decoder \<Rightarrow> bool" where
  "full d \<longleftrightarrow> recv_ok d \<and> \<not> is_complete d \<and> ld_max_arena_words d < length (ld_arena d) + ld_words d"

lemma dense_step:
  assumes "dense d" and add: "add_frame P d seq block = Some d'"
  shows "dense d'"
proof -
  have recv: "recv_ok d" and fill: "known d = Map.empty \<Longrightarrow> length (ld_arena d) = card (set_elems (ld_seen d)) * ld_words d"
    using assms(1) by (simp_all add: dense_def)
  have st: "static_ok d" using recv by (simp add: recv_ok_def dec_ok_def)
  show ?thesis
  proof (cases "accepts d seq block")
    case True
    from add_frame_accepts [OF recv True, of P] add obtain v where step: "step_result d seq v d'" by auto
    have recv': "recv_ok d'" by (rule step_result_recv [OF recv True step])
    have s: "same_stream d d'" "set_elems (ld_seen d') = insert seq (set_elems (ld_seen d))"
      "length (ld_arena d') = length (ld_arena d) + (if unsolved_of d seq = [] then 0 else ld_words d)"
      using step by (simp_all add: step_result_def)
    have "length (ld_arena d') = card (set_elems (ld_seen d')) * ld_words d'" if "known d' = Map.empty"
    proof -
      have "eqs_of d \<subseteq> eqs_of d'" unfolding eqs_of_insert [OF s(1,2)] by blast
      from peelable_mono [OF this] have "known d = Map.empty"
        using recv_closure(1) [OF recv] recv_closure(1) [OF recv'] that by simp
      moreover have "eqn_of d seq \<noteq> {}" using dec_blocks_range(2) [OF st, of seq] by (simp add: eqn_of_def)
      ultimately have "unsolved_of d seq \<noteq> []" using unsolved_facts(5) [OF st, of seq] by simp
      then show ?thesis using fill \<open>known d = Map.empty\<close> s True
        by (simp add: same_stream_def accepts_def finite_set_elems)
    qed
    then show ?thesis using recv' by (simp add: dense_def)
  next
    case False
    from add_frame_rejects [OF recv False, of P] add obtain idx scratch dup dropped where
      "d' = with_note d idx scratch dup dropped" by auto
    then show ?thesis using assms(1) by (simp add: dense_def)
  qed
qed

lemma dense_start:
  assumes "recv_ok d" and "set_elems (ld_seen d) = {}"
  shows "dense d"
  using recv_arena [OF assms(1)] assms by (simp add: dense_def)

lemma full_step:
  assumes "full d" and add: "add_frame P d seq block = Some d'"
  shows "full d'"
proof -
  have recv: "recv_ok d" and no: "\<not> accepts d seq block" using assms(1) by (auto simp: full_def accepts_def within_limits_def)
  from add_frame_rejects [OF recv no, of P] add obtain idx scratch dup dropped where
    "d' = with_note d idx scratch dup dropped" by auto
  then show ?thesis using assms(1) by (simp add: full_def is_complete_def)
qed

lemma caught_full:
  assumes c: "caught S d" and "dense d" and many: "4 * ld_k d \<le> card S" and none: "peelable (eqn_of d ` S) = {}"
  shows "full d"
proof -
  have recv: "recv_ok d" and st: "static_ok d" using c by (auto simp: caught_def room_ok_def recv_ok_def dec_ok_def)
  have "0 < ld_k d" using st by (simp add: static_ok_def)
  then have inc: "\<not> is_complete d" using caught_complete [OF c] none by auto
  then have S: "set_elems (ld_seen d) = S" using c by (auto simp: caught_def)
  have "eqs_of d = eqn_of d ` S" by (simp add: eqs_of_def eqn_of_def S)
  then have "known d = Map.empty" using recv_closure(1) [OF recv] none by simp
  then have "length (ld_arena d) = card S * ld_words d" using assms(2) S by (simp add: dense_def)
  moreover have "4 * ld_k d * ld_words d \<le> card S * ld_words d" using many by (rule mult_le_mono1)
  moreover have "ld_max_arena_words d = 4 * ld_k d * ld_words d" using st by (simp add: static_ok_def)
  ultimately have "ld_max_arena_words d < length (ld_arena d) + ld_words d" using words_pos [OF st] by linarith
  then show ?thesis using recv inc by (simp add: full_def)
qed

section \<open>A full receiver\<close>

definition receiver_decoder :: "(lt_decoder \<Rightarrow> bool) \<Rightarrow> receiver \<Rightarrow> bool" where
  "receiver_decoder Q r \<longleftrightarrow> (\<forall>d. rc_decoder r = Some d \<longrightarrow> Q d)"

text \<open>What every \<open>add_frame\<close> keeps of a decoder, a run over the channel keeps of the receiver's.\<close>

lemma receiver_decoder_run:
  assumes ch: "channel P container s" and "tuned P container s r" and "\<forall>m \<in> set ms. sent P s n m \<or> noise P s m"
    and "rc_identity r = Some (sender_identity s) \<or> ms \<noteq> [] \<and> sent P s n (hd ms)"
    and step: "\<And>d d' seq block. Q d \<Longrightarrow> add_frame P d seq block = Some d' \<Longrightarrow> Q d'"
    and "\<And>d. takes P s r d \<Longrightarrow> Q d" and "push_all P r ms = Some (rs, r')"
  shows "receiver_decoder Q r'"
  using assms(2-4,6-)
proof (induction ms arbitrary: r rs)
  case Nil
  have "takes P s r d" if "rc_decoder r = Some d" for d
    using tuned_decoder(1) [OF Nil.prems(1) that] that by (simp add: takes_def)
  then show ?case using Nil.prems by (simp add: receiver_decoder_def)
next
  case (Cons m ms)
  have m: "sent P s n m \<or> noise P s m" and lock: "rc_identity r = Some (sender_identity s) \<or> sent P s n m"
    using Cons.prems(2,3) by auto
  have s: "sender_ok P container s" using ch by (simp add: channel_def)
  from channel_step [OF ch Cons.prems(1) m lock] obtain res r1 where a: "try_push P r m = Some (res, r1)"
    "tuned P container s r1" "rc_identity r1 = Some (sender_identity s)" by blast
  then obtain rs1 where b: "push_all P r1 ms = Some (rs1, r')" using Cons.prems(5) by (auto split: bind_splits)
  have rest: "\<forall>m \<in> set ms. sent P s n m \<or> noise P s m" using Cons.prems(2) by simp
  have "Q d" if t: "takes P s r1 d" for d
  proof (cases "sent P s n m")
    case True
    from channel_sent [OF ch True] obtain h where h:
      "parse_frame P m = Some (h, frame_data container (unat (sd_block_len s)) (enc_blocks (sd_encoder s) (fh_seq h)))"
      "stream_identity h = sender_identity s" by blast
    from push_sent [OF s Cons.prems(1) h] a(1) obtain d0 d1 out where p: "takes P s r d0" "rc_decoder r1 = Some d1"
      "if rc_delivered r then d1 = d0 \<and> out = None
       else (\<exists>block. length block = ld_block_len d0 \<and> add_frame P d0 (fh_seq h) block = Some d1) \<and>
         out = (if rc_delivered r1 then Some container else None)" by auto
    have "d = d1" using t p(2) by (simp add: takes_def)
    then show ?thesis using p(3) step Cons.prems(4) [OF p(1)] by (auto split: if_splits)
  next
    case False
    then obtain e where "try_push P r m = Some (Inl e, r)" using push_noise [of P s m r] m lock by blast
    then have "r1 = r" using a(1) by simp
    then show ?thesis using t Cons.prems(4) by simp
  qed
  from Cons.IH [OF a(2) rest disjI1 [OF a(3)] this b] show ?case .
qed

lemma push_all_append:
  "push_all P r (ms @ ms') = do {
     (rs, r) \<leftarrow> push_all P r ms;
     (rs', r) \<leftarrow> push_all P r ms';
     Some (rs @ rs', r) }"
  by (induction ms arbitrary: r) (auto split: bind_splits)

lemma transfer_stuck:
  assumes ch: "channel P container s" and ms: "\<forall>m \<in> set (ms @ ms'). sent P s n m \<or> noise P s m"
    and hd: "ms \<noteq> []" "sent P s n (hd ms)"
    and room: "roomy (unat (sd_k s)) (sender_equation s) (received P s ms)" "4 * unat (sd_k s) \<le> card (received P s ms)"
    and none: "peelable (sender_equation s ` received P s ms) = {}"
  shows "\<exists>rs r. push_all P receiver_new (ms @ ms') = Some (rs, r) \<and> deliveries rs = []"
proof -
  have s: "sender_ok P container s" using ch by (simp add: channel_def)
  have lock: "rc_identity receiver_new = Some (sender_identity s) \<or> ms \<noteq> [] \<and> sent P s n (hd ms)" using hd by blast
  have ms1: "\<forall>m \<in> set ms. sent P s n m \<or> noise P s m" "\<forall>m \<in> set ms'. sent P s n m \<or> noise P s m" using ms by auto
  from channel_run [OF ch tuned_new ms1(1) lock] obtain rs r where run: "push_all P receiver_new ms = Some (rs, r)"
    "tuned P container s r" "deliveries rs = (if rc_delivered r \<and> \<not> rc_delivered receiver_new then [container] else [])" by blast
  have "receiver_caught {} receiver_new" by (simp add: receiver_caught_def receiver_new_def)
  from caught_run [OF ch tuned_new ms1(1) lock this _ run(1)] room(1) have c: "receiver_caught (received P s ms) r" by simp
  have "received P s ms \<noteq> {}"
    using room(2) s by (auto simp: sender_ok_def enc_ok_def)
  then obtain d where d: "rc_decoder r = Some d" "caught (received P s ms) d"
    using c by (auto simp: receiver_caught_def split: option.splits)
  have "dense d0" if "takes P s receiver_new d0" for d0
    using that by (intro dense_start) (simp_all add: takes_def serves_def receiver_new_def)
  note start = this
  have "receiver_decoder dense r"
    by (rule receiver_decoder_run [where Q = dense, OF ch tuned_new ms1(1) lock _ start run(1)]) (erule dense_step)
  then have "dense d" using d(1) by (simp add: receiver_decoder_def)
  note e = serves_equation [OF s tuned_decoder(1) [OF run(2) d(1)]]
  have "full d" by (rule caught_full [OF d(2) \<open>dense d\<close>]) (use room(2) none in \<open>simp_all add: e\<close>)
  then have start: "full d'" if "takes P s r d'" for d' using that d(1) by (simp add: takes_def)
  have id: "rc_identity r = Some (sender_identity s)" using run(2) d(1) by (simp add: tuned_def)
  from channel_run [OF ch run(2) ms1(2) disjI1 [OF id]] obtain rs' r' where run': "push_all P r ms' = Some (rs', r')"
    "tuned P container s r'" "rc_delivered r \<longrightarrow> rc_delivered r'"
    "deliveries rs' = (if rc_delivered r' \<and> \<not> rc_delivered r then [container] else [])" by blast
  have "receiver_decoder full r'"
    by (rule receiver_decoder_run [where Q = full, OF ch run(2) ms1(2) disjI1 [OF id] _ start run'(1)]) (erule full_step)
  moreover have "\<exists>d'. rc_decoder r' = Some d'" if "rc_delivered r'"
    using run'(2) that by (auto simp: tuned_def receiver_ok_def split: option.splits)
  ultimately have "\<not> rc_delivered r'"
    using tuned_decoder(2) [OF run'(2)] by (auto simp: receiver_decoder_def full_def)
  then have "deliveries (rs @ rs') = []" using run(3) run'(3,4) by (simp add: deliveries_def receiver_new_def)
  moreover have "push_all P receiver_new (ms @ ms') = Some (rs @ rs', r')" using run(1) run'(1) by (simp add: push_all_append)
  ultimately show ?thesis by blast
qed

section \<open>A session that stalls\<close>

lemma small_u32:
  assumes "unat (q :: u32) < 8"
  shows "q \<in> set [0, 1, 2, 3, 4, 5, 6, 7]"
proof -
  obtain n where n: "n = unat q" "n < 8" using assms by blast
  then have q: "q = word_of_nat n" by simp
  have "n \<in> {0, 1, 2, 3, 4, 5, 6, 7}" using n(2) by auto
  then show ?thesis unfolding q by auto
qed

lemma pair_not_peelable: "peelable {{0, 1}} = {}"
proof -
  have "r \<notin> peelable {{0, 1}}" for r
  proof
    assume "r \<in> peelable {{0, 1}}"
    then show False
    proof (induction rule: peelable.induct)
      case (1 E r)
      then have "E = {0, 1}" "\<forall>x \<in> E. x = r" by blast+
      then show False by auto
    qed
  qed
  then show ?thesis by blast
qed

lemma two_set: "S \<subseteq> {..<2} \<Longrightarrow> card S = 2 \<Longrightarrow> S = {0, 1 :: nat}"
  using card_subset_eq [of "{..<2}" S] by (auto simp: lessThan_nat_numeral)

lemma stall_equations:
  assumes P: "libm_at_two P" and s: "sender_ok P container s" and k: "unat (sd_k s) = 2"
    and plain: "sd_flags s = 0" "sd_session_id s = 39671"
  shows "unat q < 8 \<Longrightarrow> sender_equation s q = {0, 1}" and "\<exists>b < 2. sender_equation s 9 = {b}"
proof -
  let ?dc = "le_cdf (sd_encoder s)"
  have dc: "degree_cdf_new P 2 = Some ?dc" and m: "le_sys_span (sd_encoder s) = 0" "le_session_id (sd_encoder s) = 39671"
    using s k plain by (simp_all add: sender_ok_def mode_span_def FLAG_CAUSAL_def FLAG_SYSTEMATIC_def)
  from degree_cdf_new_ok [of 2 P] dc have ok: "degree_cdf_ok ?dc" "soliton_cdf P 2 = Some (dc_cdf ?dc)" by auto
  have two: "two_block_dc ?dc"
    using ok two_block_cdf [OF P] soliton_cdf_good [OF ok(2)] by (auto simp: two_block_dc_def)
  have eq: "sender_equation s q = unat ` set (Select.equation ?dc 39671 q)" for q
    by (simp add: sender_equation_def enc_blocks_def frame_blocks_def m)
  show "sender_equation s q = {0, 1}" if "unat q < 8"
  proof -
    have "0xB0000000 < unat (draw_of 39671 q)"
      using session_draws(1) small_u32 [OF that] unfolding list_all_iff by blast
    then have "sample ?dc (unit_draw (draw_of 39671 q)) = Some 2" using two_block_degree(2) [OF two refl] by simp
    from two_block_equation [OF two this] show ?thesis unfolding eq by (intro two_set) simp_all
  qed
  have "sample ?dc (unit_draw (draw_of 39671 9)) = Some 1"
    by (rule two_block_degree(1) [OF two session_draws(2)]) simp_all
  from two_block_equation [OF two this] show "\<exists>b < 2. sender_equation s 9 = {b}" unfolding eq by (auto simp: card_Suc_eq One_nat_def)
qed

text \<open>C4: a transfer can be lost although every message arrives. In the plain robust-soliton mode, two
  blocks and session 39671, each of the first eight frames combines both blocks. They fill the arena, whose
  slots are never reused, and from then on the receiver drops every frame: whatever arrives later, nothing
  is delivered, although the frame with number 9 carries a single block and with frame 0 determines both.\<close>

theorem two_block_transfer_stalls:
  assumes "codec_ok P" and "libm_at_two P" and "sender_with_mode P container block_len 39671 0 = Some (Inr s)"
    and "unat (sd_k s) = 2" and "\<forall>m \<in> set ms. sent P s 8 m" and "\<forall>m. sent P s 8 m \<longrightarrow> m \<in> set ms"
    and "\<forall>m \<in> set ms'. sent P s n m \<or> noise P s m"
  shows "(\<exists>rs r. push_all P receiver_new (ms @ ms') = Some (rs, r) \<and> deliveries rs = []) \<and>
    {..<2} \<subseteq> peelable (sender_equation s ` {0, 9})"
proof -
  have good: "good_flags 0" by (simp add: good_flags_def)
  note ch = sender_channel [OF assms(1) good assms(3)]
  have s: "sender_ok P container s" and id: "sd_session_id s = 39671"
    using sender_with_mode_ok [OF ch(3), of P 39671 0] assms(3) by auto
  note eqs = stall_equations [OF assms(2) s assms(4) ch(2) id]
  have lossless: "unat ` received P s ms = {..<8}"
    by (rule received_all [OF ch(1) _ assms(6)]) (use assms(5) in simp_all)
  have all: "sender_equation s q = {0, 1}" if "q \<in> received P s ms" for q
    using eqs(1) imageI [OF that, of unat] unfolding lossless by simp
  have eight: "card (received P s ms) = 8"
    using arg_cong [OF lossless, of card] by (simp add: card_image [OF unat_inj_on])
  then have ne: "received P s ms \<noteq> {}" by auto
  then have img: "sender_equation s ` received P s ms = {{0, 1}}" using all by auto
  have "(\<Sum>q\<in>received P s ms. card (sender_equation s q)) = 16" using all eight by simp
  then have room: "roomy (unat (sd_k s)) (sender_equation s) (received P s ms)" using eight assms(4) by (simp add: roomy_def)
  have "ms \<noteq> []" using ne by auto
  then have hd: "sent P s (max 8 n) (hd ms)" using assms(5) sent_mono [OF ch(1)] by (metis list.set_sel(1) max.cobounded1)
  have every: "\<forall>m \<in> set (ms @ ms'). sent P s (max 8 n) m \<or> noise P s m"
    using assms(5,7) sent_mono [OF ch(1)] by (auto intro: max.cobounded1 max.cobounded2)
  have "\<exists>rs r. push_all P receiver_new (ms @ ms') = Some (rs, r) \<and> deliveries rs = []"
    by (rule transfer_stuck [OF ch(1) every \<open>ms \<noteq> []\<close> hd room])
      (simp_all add: eight assms(4) img pair_not_peelable del: One_nat_def)
  moreover have "{..<2} \<subseteq> peelable (sender_equation s ` {0, 9})"
  proof -
    obtain b where b: "b < 2" "sender_equation s 9 = {b}" using eqs(2) by blast
    have known: "b \<in> peelable (sender_equation s ` {0, 9})" by (rule peelable.intros [of "{b}"]) (use b(2) in auto)
    have "c \<in> peelable (sender_equation s ` {0, 9})" if "c < 2" for c
    proof (cases "c = b")
      case False
      show ?thesis
      proof (rule peelable.intros)
        show "{0, 1} \<in> sender_equation s ` {0, 9}" using eqs(1) [of 0] by simp
        show "c \<in> {0, 1}" using that by auto
        show "x \<in> peelable (sender_equation s ` {0, 9})" if "x \<in> {0, 1}" "x \<noteq> c" for x
        proof -
          have "x = b" using that \<open>c < 2\<close> b(1) False by auto
          then show ?thesis using known by simp
        qed
      qed
    qed (use known in simp)
    then show ?thesis by blast
  qed
  ultimately show ?thesis by blast
qed

text \<open>The messages of a sender as a list, and library functions that meet the hypothesis.\<close>

lemma all_messages:
  assumes "channel P container s"
  shows "\<exists>ms. set ms = {m. sent P s n m}"
proof (rule finite_list, rule finite_subset)
  have c: "sender_ok P container s" "sd_seq s = 0" "\<not> sd_exhausted s" using assms by (simp_all add: channel_def)
  show "{m. sent P s n m} \<subseteq> range (\<lambda>seq. the (frame_to_bytes P (frame_of P container s seq)))"
  proof
    fix m assume "m \<in> {m. sent P s n m}"
    then obtain seq where "frame_to_bytes P (frame_of P container s seq) = Some m" using sent_frame [OF c] by blast
    then show "m \<in> range (\<lambda>seq. the (frame_to_bytes P (frame_of P container s seq)))"
      by (intro range_eqI [of _ _ seq]) simp
  qed
qed simp

lemma plain_libm: "libm_at_two plain_wire"
proof -
  have "isqrt 2 = 1" by (simp add: isqrt_def upt_rec)
  moreover have "below 2 (Num 1)" using below_num [of 1] by (simp add: below_def f_le_def)
  ultimately show ?thesis
    by (simp add: libm_at_two_def plain_wire_def math_platform.defs plain_platform_def numbers2 f_of_int_small)
qed

theorem two_block_transfer_stalls_witness:
  "\<exists>s ms rs r. sender_with_mode plain_wire [1, 2, 3] 2 39671 0 = Some (Inr s) \<and> set ms = {m. sent plain_wire s 8 m} \<and>
     push_all plain_wire receiver_new (ms @ [[]]) = Some (rs, r) \<and> deliveries rs = []"
proof -
  have p: "params_ok [1, 2, 3] 2"
    by (simp add: params_ok_def MAX_STREAM_BYTES_def MAX_FILE_BYTES_def MAX_SOURCE_BLOCKS_def div_ceil_def)
  have f: "good_flags 0" by (simp add: good_flags_def)
  obtain s where s: "sender_with_mode plain_wire [1, 2, 3] 2 39671 0 = Some (Inr s)" "unat (sd_k s) = 2"
    using sender_with_mode_ok [OF p, of plain_wire 39671 0] by (auto simp: div_ceil_def)
  obtain ms where ms: "set ms = {m. sent plain_wire s 8 m}"
    using all_messages [OF sender_channel(1) [OF plain_wire_codec f s(1)]] by blast
  have n: "\<forall>m \<in> set [[]]. sent plain_wire s 8 m \<or> noise plain_wire s m" by (simp add: noise_def parse_frame_def)
  have all: "\<forall>m \<in> set ms. sent plain_wire s 8 m" "\<forall>m. sent plain_wire s 8 m \<longrightarrow> m \<in> set ms" using ms by simp_all
  from two_block_transfer_stalls [OF plain_wire_codec plain_libm s all n] s(1) ms show ?thesis by blast
qed

end
