(* ===== verification/Budget.thy ===== *)
theory Budget
  imports Fountain
begin

text \<open>
  What a decoder (\<open>LtDecoder\<close> of \<open>src/fountain.rs\<close>) may use and what it may lose, over any list of
  frames. \<open>budget_ok\<close> adds the sizes of the waiting lists and of the table of remembered sequence
  numbers to the invariant of \<open>Receive\<close>; \<open>advances\<close> says that what is solved stays solved and
  that the counters account for every frame.
\<close>

section \<open>The waiting lists\<close>

definition waiting :: "lt_decoder \<Rightarrow> nat" where
  "waiting d = sum_list (map length (ld_by_block d))"

lemma total_length_update:
  "i < length xs \<Longrightarrow> sum_list (map length (xs[i := v])) + length (xs ! i) = sum_list (map length xs) + length v"
proof (induction xs arbitrary: i)
  case (Cons x xs)
  then show ?case by (cases i) simp_all
qed simp

lemma waiting_clear:
  "set_at xs i [] = Some ys \<Longrightarrow> sum_list (map length ys) \<le> sum_list (map length xs)"
  using total_length_update [of i xs "[]"] by (auto simp: set_at_def split: if_splits)

lemma enlist_waiting:
  "enlist f bs xs = Some ys \<Longrightarrow> sum_list (map length ys) = sum_list (map length xs) + length bs"
proof (induction bs arbitrary: xs)
  case (Cons b bs)
  then obtain zs where z: "set_at xs (unat b) (xs ! unat b @ [f]) = Some zs" "enlist f bs zs = Some ys"
    by (auto simp: get_at_def split: bind_splits if_splits)
  then show ?case
    using Cons.IH [OF z(2)] total_length_update [of "unat b" xs "xs ! unat b @ [f]"]
    by (auto simp: set_at_def split: if_splits)
qed simp

definition keeps_books :: "lt_decoder \<Rightarrow> lt_decoder \<Rightarrow> bool" where
  "keeps_books d d' \<longleftrightarrow> ld_seen d' = ld_seen d \<and> ld_frames_new d' = ld_frames_new d \<and>
     ld_pending_edges d' = ld_pending_edges d \<and> waiting d' \<le> waiting d"

lemma wake_books: "wake P b ids d q = Some (d', q') \<Longrightarrow> keeps_books d d'"
proof (induction P b ids d q rule: wake.induct)
  case (2 P b f ids d q)
  then show ?case by (fastforce simp: keeps_books_def waiting_def split: bind_splits if_splits)
qed (simp add: keeps_books_def)

lemma resolve_loop_books:
  fixes P :: "'m platform_scheme"
  assumes "resolve_loop P d q = Some d'"
  shows "keeps_books d d'"
proof -
  have "(\<lambda>((P :: 'm platform_scheme, d), q) d'. keeps_books d d') ((P, d), q) d'"
  proof (rule resolve_loop.raw_induct [where Pa = "\<lambda>((P :: 'm platform_scheme, d), q) d'. keeps_books d d'", OF _ assms],
      goal_cases)
    case (1 loop P d q d')
    show ?case
    proof (cases q)
      case Nil
      with 1(2) show ?thesis by (simp add: keeps_books_def)
    next
      case (Cons x rest)
      obtain b off where x: "x = (b, off)" by (cases x)
      obtain stored where st: "get_at (ld_solved d) (unat b) = Some stored"
        using 1(2) by (auto simp: Cons x split: bind_splits)
      show ?thesis
      proof (cases "stored = None")
        case True
        then obtain solved ids by_block d1 q1 where s:
          "set_at (ld_by_block d) (unat b) [] = Some by_block"
          "wake P b ids (d\<lparr>ld_solved := solved, ld_solved_count := ld_solved_count d + 1, ld_by_block := by_block\<rparr>) rest
            = Some (d1, q1)" "loop P d1 q1 = Some d'"
          using 1(2) st by (auto simp: Cons x split: bind_splits)
        show ?thesis
          using wake_books [OF s(2)] 1(1) [OF s(3)] waiting_clear [OF s(1)]
          by (simp add: keeps_books_def waiting_def)
      next
        case False
        then show ?thesis using 1(2) 1(1) [of P d rest d'] st by (auto simp: Cons x)
      qed
    qed
  qed
  then show ?thesis by simp
qed

text \<open>What one frame may change: nothing of the books, or one new number and as many waiting entries as
  pending edges.\<close>

definition books_step :: "lt_decoder \<Rightarrow> u32 \<Rightarrow> lt_decoder \<Rightarrow> bool" where
  "books_step d seq d' \<longleftrightarrow> keeps_books d d' \<or>
     set_insert (ld_seen d) seq = Some (True, ld_seen d') \<and> ld_frames_new d' = ld_frames_new d + 1 \<and>
     (\<exists>edges. ld_pending_edges d' = ld_pending_edges d + edges \<and> waiting d' \<le> waiting d + edges)"

lemma add_frame_books:
  assumes recv: "recv_ok d" and add: "add_frame P d seq block = Some d'"
  shows "books_step d seq d'"
proof (cases "accepts d seq block")
  case True
  obtain v seen where r: "set_insert (ld_seen d) seq = Some (True, seen)"
    "accepted_run P d seq v seen (Some d')" using add_frame_runs [OF recv True, of P] add by auto
  then obtain scratch where
    "d' = with_slot d (dec_blocks d seq) scratch seen [] \<or>
     (\<exists>b. resolve P (with_slot d (dec_blocks d seq) scratch seen v) b (length (ld_arena d)) = Some d') \<or>
     (\<exists>by_block s. enlist (length (ld_frames d)) (unsolved_of d seq) (ld_by_block d) = Some by_block \<and>
        d' = with_equation (with_slot d (dec_blocks d seq) scratch seen v) by_block s (length (ld_arena d))
          (length (unsolved_of d seq)))"
    unfolding accepted_run_def Let_def by (metis option.sel)
  then show ?thesis
  proof (elim disjE exE conjE)
    fix b assume "resolve P (with_slot d (dec_blocks d seq) scratch seen v) b (length (ld_arena d)) = Some d'"
    then show ?thesis
      using resolve_loop_books [of P "with_slot d (dec_blocks d seq) scratch seen v" "[(b, length (ld_arena d))]" d'] r(1)
      by (simp add: resolve_def books_step_def keeps_books_def waiting_def with_slot_def)
  next
    fix by_block s assume "enlist (length (ld_frames d)) (unsolved_of d seq) (ld_by_block d) = Some by_block"
      "d' = with_equation (with_slot d (dec_blocks d seq) scratch seen v) by_block s (length (ld_arena d))
          (length (unsolved_of d seq))"
    then show ?thesis using enlist_waiting r(1)
      by (simp add: books_step_def waiting_def with_slot_def with_equation_def)
  qed (use r(1) in \<open>simp add: books_step_def waiting_def with_slot_def\<close>)
next
  case False
  then show ?thesis using add_frame_rejects [OF recv False, of P] add
    by (auto simp: books_step_def keeps_books_def waiting_def)
qed

section \<open>The invariant of the budget\<close>

definition budget_ok :: "lt_decoder \<Rightarrow> bool" where
  "budget_ok d \<longleftrightarrow> recv_ok d \<and> waiting d \<le> ld_pending_edges d \<and>
     length (us_keys (ld_seen d)) \<le> max (2 * ld_k d + 8) (3 * ld_frames_new d)"

lemma add_frame_budget:
  assumes ok: "budget_ok d" and add: "add_frame P d seq block = Some d'"
  shows "budget_ok d'"
proof -
  have recv: "recv_ok d" and b: "waiting d \<le> ld_pending_edges d"
    "length (us_keys (ld_seen d)) \<le> max (2 * ld_k d + 8) (3 * ld_frames_new d)"
    using ok by (simp_all add: budget_ok_def)
  have d': "recv_ok d'" "ld_k d' = ld_k d"
    using add_frame_recv [OF recv, of P seq block] add by (auto simp: same_stream_def)
  have set: "set_ok (ld_seen d)" "card (set_elems (ld_seen d)) = ld_frames_new d"
    using recv unfolding recv_ok_def dec_ok_def by (blast, metis)
  from add_frame_books [OF recv add] show ?thesis unfolding books_step_def
  proof
    assume "keeps_books d d'"
    then show ?thesis using b d' by (simp add: budget_ok_def keeps_books_def)
  next
    assume s: "set_insert (ld_seen d) seq = Some (True, ld_seen d') \<and> ld_frames_new d' = ld_frames_new d + 1 \<and>
      (\<exists>edges. ld_pending_edges d' = ld_pending_edges d + edges \<and> waiting d' \<le> waiting d + edges)"
    then have "length (us_keys (ld_seen d')) \<le> max (max 8 (length (us_keys (ld_seen d)))) (3 * (ld_frames_new d + 1))"
      using insert_capacity [OF set(1)] set(2) by metis
    then have "length (us_keys (ld_seen d')) \<le> max (2 * ld_k d + 8) (3 * (ld_frames_new d + 1))"
      using b(2) by (auto simp: max_def split: if_splits)
    then show ?thesis using s b(1) d' by (auto simp: budget_ok_def)
  qed
qed

lemma feed_budget: "budget_ok d \<Longrightarrow> feed P d fs = Some d' \<Longrightarrow> budget_ok d'"
  by (induction P d fs rule: feed.induct) (auto intro: add_frame_budget split: bind_splits)

lemma new_decoder_budget:
  assumes "stream_ok k block_len total_len" and "sys = 0 \<or> sys = k"
    and "decoder_with_mode P k block_len session_id total_len sys causal = Some (Inr d)"
  shows "budget_ok d"
proof -
  have "recv_ok d" "ld_k d = k" using new_decoder_ok [OF assms(1,2), of P session_id causal] assms(3) by auto
  moreover have "next_power_of_two k \<le> 2 * k + 1"
    using next_power_of_two_le [of k] by (cases "1 < k") (auto simp: next_power_of_two.simps [of k])
  moreover have "ld_by_block d = replicate k []" "ld_seen d = set_with_capacity k"
    using assms(3) by (auto simp: decoder_with_mode_def Let_def split: if_splits bind_splits)
  ultimately show ?thesis
    by (simp add: budget_ok_def le_max_iff_disj waiting_def set_with_capacity_def fresh_table_def sum_list_replicate)
qed

lemma arena_bytes:
  assumes "static_ok d"
  shows "4 * (4 * (ld_k d * ld_words d)) \<le> 4 * (ld_total_len d + ld_block_len d + 3 * ld_k d)"
    and "4 * (ld_total_len d + ld_block_len d + 3 * ld_k d) < 2 ^ 29"
proof -
  have s: "0 < ld_block_len d" "ld_k d = div_ceil (ld_total_len d) (ld_block_len d)" "ld_words d = div_ceil (ld_block_len d) 4"
    "ld_k d \<le> MAX_SOURCE_BLOCKS" "ld_block_len d \<le> 0xffff" "ld_total_len d \<le> MAX_STREAM_BYTES" "0 < ld_k d"
    using assms by (simp_all add: static_ok_def)
  have "(ld_words d - 1) * 4 < ld_block_len d"
    by (rule div_ceil_lt_mult) (use s(1,3) div_ceil_pos [of 4 "ld_block_len d"] in simp_all)
  then have "4 * ld_words d \<le> ld_block_len d + 3" by simp
  then have "ld_k d * (4 * ld_words d) \<le> ld_k d * (ld_block_len d + 3)" by (rule mult_le_mono2)
  also have "\<dots> = ld_k d * ld_block_len d + 3 * ld_k d" by (simp add: algebra_simps)
  also have "ld_k d * ld_block_len d \<le> ld_total_len d + ld_block_len d"
  proof -
    have "(ld_k d - 1) * ld_block_len d < ld_total_len d"
      by (rule div_ceil_lt_mult) (use s in simp_all)
    then show ?thesis using s(7) by (cases "ld_k d") simp_all
  qed
  finally show "4 * (4 * (ld_k d * ld_words d)) \<le> 4 * (ld_total_len d + ld_block_len d + 3 * ld_k d)" by simp
  show "4 * (ld_total_len d + ld_block_len d + 3 * ld_k d) < 2 ^ 29"
    using s(4-6) by (simp add: MAX_SOURCE_BLOCKS_def MAX_STREAM_BYTES_def MAX_FILE_BYTES_def)
qed

section \<open>Progress\<close>

lemma peel_known: "peel s t \<Longrightarrow> fst s \<subseteq>\<^sub>m fst t"
  by (induction rule: peel.induct) (auto simp: map_le_def)

lemma peels_known: "peel\<^sup>*\<^sup>* s t \<Longrightarrow> fst s \<subseteq>\<^sub>m fst t"
  by (induction rule: rtranclp_induct) (auto intro: map_le_trans peel_known)

lemma absorbs_known: "absorbs d seq v d' \<Longrightarrow> known d \<subseteq>\<^sub>m known d'"
  by (auto simp: absorbs_def Let_def peel_of_def split: if_splits dest: peels_known)

text \<open>Every frame is counted once, those that come after completion excepted.\<close>

definition frames_seen :: "lt_decoder \<Rightarrow> nat" where
  "frames_seen d = decoder_frames_new d + decoder_frames_dup d + decoder_frames_dropped d"

definition advances :: "lt_decoder \<Rightarrow> nat \<Rightarrow> lt_decoder \<Rightarrow> bool" where
  "advances d n d' \<longleftrightarrow> recv_ok d' \<and> same_stream d d' \<and> known d \<subseteq>\<^sub>m known d' \<and>
     ld_frames_new d \<le> ld_frames_new d' \<and> ld_frames_dup d \<le> ld_frames_dup d' \<and>
     ld_frames_dropped d \<le> ld_frames_dropped d' \<and> frames_seen d' \<le> frames_seen d + n \<and>
     (is_complete d' \<or> frames_seen d' = frames_seen d + n)"

lemma known_complete: "recv_ok d \<Longrightarrow> recv_ok d' \<Longrightarrow> same_stream d d' \<Longrightarrow> known d \<subseteq>\<^sub>m known d' \<Longrightarrow>
    is_complete d \<Longrightarrow> is_complete d' \<and> known d' = known d"
proof -
  assume a: "recv_ok d" "recv_ok d'" "same_stream d d'" "known d \<subseteq>\<^sub>m known d'" "is_complete d"
  have k: "ld_k d' = ld_k d" using a(3) by (simp add: same_stream_def)
  have dom: "dom (known d) = {..<ld_k d}" using a(5) recv_closure(4) [OF a(1)] by simp
  then have dom': "dom (known d') = {..<ld_k d}"
    using map_le_implies_dom_le [OF a(4)] recv_closure(3) [OF a(2)] k by auto
  have "known d' = known d"
  proof (rule map_le_antisym)
    show "known d' \<subseteq>\<^sub>m known d" unfolding map_le_def dom' dom [symmetric] using a(4) by (simp add: map_le_def)
  qed (rule a(4))
  then show ?thesis using recv_closure(4) [OF a(2)] dom' k by simp
qed

lemma add_frame_advances:
  assumes recv: "recv_ok d" and add: "add_frame P d seq block = Some d'"
  shows "advances d 1 d'"
proof -
  from add_frame_recv [OF recv, of P seq block] add have d': "recv_ok d'" "same_stream d d'" by auto
  show ?thesis
  proof (cases "accepts d seq block")
    case True
    from add_frame_accepts [OF recv True, of P] add obtain v where "step_result d seq v d'" by auto
    then show ?thesis using d' absorbs_known
      by (auto simp: advances_def step_result_def frames_seen_def decoder_frames_new_def
          decoder_frames_dup_def decoder_frames_dropped_def)
  next
    case False
    from add_frame_rejects [OF recv False, of P] add obtain idx scratch where n:
      "d' = with_note d idx scratch
        (if length block = ld_block_len d \<and> \<not> is_complete d \<and> seq \<in> set_elems (ld_seen d) then 1 else 0)
        (if length block \<noteq> ld_block_len d \<or> (\<not> is_complete d \<and> seq \<notin> set_elems (ld_seen d)) then 1 else 0)"
      by auto
    have "is_complete (with_note d idx scratch n m) = is_complete d" for n m
      by (simp add: is_complete_def)
    then show ?thesis using d' unfolding n
      by (auto simp: advances_def frames_seen_def decoder_frames_new_def
          decoder_frames_dup_def decoder_frames_dropped_def) (simp_all add: with_note_def)
  qed
qed

lemma advances_trans:
  assumes "recv_ok d" and a: "advances d m d1" and b: "advances d1 n d2"
  shows "advances d (m + n) d2"
proof -
  have r: "recv_ok d1" "recv_ok d2" "same_stream d1 d2" "known d1 \<subseteq>\<^sub>m known d2"
    using a b by (simp_all add: advances_def)
  have "is_complete d1 \<Longrightarrow> is_complete d2" using known_complete [OF r] by blast
  then show ?thesis
    using a b same_stream_trans [of d d1 d2] map_le_trans [of "known d" "known d1" "known d2"]
    by (auto simp: advances_def)
qed

lemma feed_advances: "recv_ok d \<Longrightarrow> feed P d fs = Some d' \<Longrightarrow> advances d (length fs) d'"
proof (induction P d fs rule: feed.induct)
  case (1 P d)
  then show ?case by (simp add: advances_def)
next
  case (2 P d seq block fs)
  then obtain d1 where d1: "add_frame P d seq block = Some d1" "feed P d1 fs = Some d'"
    by (auto split: bind_splits)
  have a: "advances d 1 d1" by (rule add_frame_advances [OF 2(2) d1(1)])
  then have "advances d1 (length fs) d'" using 2(1) d1 by (simp add: advances_def)
  from advances_trans [OF 2(2) a this] show ?case by simp
qed

section \<open>What the limits leave out\<close>

text \<open>The limits do not cover the remembered numbers: while the arena has room for one more slot, every
  fresh frame whose blocks are all known is remembered, takes no slot and no edge, and leaves that room
  as it was.\<close>

lemma redundant_frames_remembered:
  assumes "recv_ok d" and "\<not> is_complete d" and "length (ld_arena d) + ld_words d \<le> ld_max_arena_words d"
    and "distinct (map fst fs)"
    and "\<forall>(seq, block) \<in> set fs. length block = ld_block_len d \<and> seq \<notin> set_elems (ld_seen d) \<and>
      eqn_of d seq \<subseteq> dom (known d)"
  shows "\<exists>d'. feed P d fs = Some d' \<and> \<not> is_complete d' \<and> set_elems (ld_seen d') = set_elems (ld_seen d) \<union> fst ` set fs \<and>
    length (ld_arena d') = length (ld_arena d) \<and> ld_pending_edges d' = ld_pending_edges d"
  using assms
proof (induction fs arbitrary: d)
  case Nil
  then show ?case by simp
next
  case (Cons f fs)
  obtain seq block where f: "f = (seq, block)" by (cases f)
  have st: "static_ok d" using Cons.prems(1) by (simp add: recv_ok_def dec_ok_def)
  have "eqn_of d seq - dom (known d) = {}" using Cons.prems(5) f by auto
  then have none: "unsolved_of d seq = []" using unsolved_facts(4,5) [OF st, of seq] by simp
  have "ld_pending_edges d \<le> ld_max_pending_edges d" using Cons.prems(1) by (simp add: recv_ok_def)
  then have acc: "accepts d seq block"
    using Cons.prems(2,3,5) none f by (simp add: accepts_def within_limits_def)
  from add_frame_accepts [OF Cons.prems(1) acc, of P] add_frame_recv [OF Cons.prems(1), of P seq block] acc
  obtain d1 v where d1: "add_frame P d seq block = Some d1" "recv_ok d1" "step_result d seq v d1" by auto
  then have same: "same_stream d d1" "set_elems (ld_seen d1) = insert seq (set_elems (ld_seen d))"
    "length (ld_arena d1) = length (ld_arena d)" "ld_pending_edges d1 = ld_pending_edges d"
    by (simp_all add: step_result_def none)
  have kn: "known d1 = known d"
    using d1(3) \<open>eqn_of d seq - dom (known d) = {}\<close> by (simp add: step_result_def absorbs_def Let_def peel_of_def)
  have k: "ld_k d1 = ld_k d" "ld_words d1 = ld_words d" "ld_block_len d1 = ld_block_len d"
    "ld_max_arena_words d1 = ld_max_arena_words d" using same(1) by (simp_all add: same_stream_def)
  have eqn: "eqn_of d1 = eqn_of d" using same_stream_blocks [OF same(1)] by (simp add: eqn_of_def fun_eq_iff)
  have open1: "\<not> is_complete d1"
    using Cons.prems(2) recv_closure(4) [OF Cons.prems(1)] recv_closure(4) [OF d1(2)] kn k by simp
  have fs: "\<forall>(s, bl) \<in> set fs. length bl = ld_block_len d1 \<and> s \<notin> set_elems (ld_seen d1) \<and> eqn_of d1 s \<subseteq> dom (known d1)"
    using Cons.prems(4,5) f same(2) k eqn kn by (auto simp: rev_image_eqI)
  from Cons.IH [OF d1(2) open1 _ _ fs] Cons.prems(3,4) same k obtain d' where
    "feed P d1 fs = Some d'" "\<not> is_complete d'" "set_elems (ld_seen d') = set_elems (ld_seen d1) \<union> fst ` set fs"
    "length (ld_arena d') = length (ld_arena d1)" "ld_pending_edges d' = ld_pending_edges d1" by auto
  then show ?case using d1(1) f same by (intro exI [of _ d']) simp
qed

section \<open>Properties\<close>

text \<open>C9: what a decoder stores, whatever frames arrive, for however long. Its payload memory is bounded
  by the announced stream: the arena takes at most four times the payload and its padding, less than half
  a gigabyte, and there are at most 32 equations and 64 waiting entries for each block. The table of
  remembered sequence numbers is not bounded by the stream (\<open>redundant_frames_remembered\<close>): it has at
  most three slots for each accepted frame or its first capacity, so it grows with the different numbers
  received, up to three slots for each of the \<open>2 ^ 32\<close> numbers there are. Every offset and index the
  decoder keeps points into its arena and its equations, so each fits in 32 bits.\<close>

theorem decoder_storage_bounded:
  assumes "stream_ok k block_len total_len" and "sys = 0 \<or> sys = k"
    and "decoder_with_mode P k block_len session_id total_len sys causal = Some (Inr d0)"
  shows "\<exists>d. feed Q d0 fs = Some d \<and>
    4 * length (ld_arena d) \<le> 4 * (total_len + block_len + 3 * k) \<and> 4 * length (ld_arena d) < 2 ^ 29 \<and>
    length (ld_frames d) \<le> 32 * k \<and> sum_list (map length (ld_by_block d)) \<le> 64 * k \<and>
    length (us_keys (ld_seen d)) \<le> max (2 * k + 8) (3 * decoder_frames_new d) \<and>
    length (us_keys (ld_seen d)) \<le> 3 * 2 ^ 32 \<and>
    decoder_frames_new d \<le> card (fst ` set fs) \<and> decoder_solved_count d \<le> min k (decoder_frames_new d) \<and>
    (\<forall>off. Some off \<in> set (ld_solved d) \<longrightarrow> off + ld_words d \<le> length (ld_arena d)) \<and>
    (\<forall>f \<in> set (ld_frames d). pf_active f \<longrightarrow> pf_off f + ld_words d \<le> length (ld_arena d)) \<and>
    (\<forall>ids \<in> set (ld_by_block d). \<forall>f \<in> set ids. f < length (ld_frames d))"
proof -
  obtain d0' where d0: "decoder_with_mode P k block_len session_id total_len sys causal = Some (Inr d0')" "recv_ok d0'"
    "ld_k d0' = k" "ld_block_len d0' = block_len" "ld_total_len d0' = total_len" "set_elems (ld_seen d0') = {}"
    using new_decoder_ok [OF assms(1,2)] by blast
  then have eq: "d0' = d0" using assms(3) by simp
  obtain d where d: "feed Q d0 fs = Some d" "recv_ok d" "same_stream d0 d" "set_elems (ld_seen d) \<subseteq> fst ` set fs"
    using feed_recv [of d0 Q fs] d0(2,6) eq by auto
  have same: "ld_k d = k" "ld_block_len d = block_len" "ld_total_len d = total_len"
    using d(3) d0(3-5) eq by (simp_all add: same_stream_def)
  have st: "static_ok d" and own: "owners_ok d []" and pend: "pend_ok 0 [] d" and lb: "length (ld_by_block d) = k"
    using d(2) same by (simp_all add: recv_ok_def dec_ok_def)
  have r: "length (ld_arena d) \<le> ld_max_arena_words d" "ld_pending_edges d \<le> ld_max_pending_edges d"
    "2 * length (ld_frames d) \<le> ld_pending_edges d" "ld_frames_new d = card (set_elems (ld_seen d))"
    using d(2) unfolding recv_ok_def by blast+
  have b: "waiting d \<le> ld_pending_edges d" "length (us_keys (ld_seen d)) \<le> max (2 * k + 8) (3 * ld_frames_new d)"
    using feed_budget [OF new_decoder_budget [OF assms] d(1)] same by (simp_all add: budget_ok_def)
  have lim: "ld_max_pending_edges d = 64 * k" "ld_max_arena_words d = 4 * (k * ld_words d)"
    using st same by (simp_all add: static_ok_def)
  have arena: "4 * length (ld_arena d) \<le> 4 * (total_len + block_len + 3 * k)"
    "4 * (total_len + block_len + 3 * k) < 2 ^ 29"
    using arena_bytes [OF st] r(1) lim(2) unfolding same by linarith+
  have "card (set_elems (ld_seen d)) \<le> card (fst ` set fs)" by (rule card_mono [OF _ d(4)]) simp
  then have fresh: "decoder_frames_new d \<le> card (fst ` set fs)" by (simp add: decoder_frames_new_def r(4))
  have "card (set_elems (ld_seen d)) \<le> CARD(u32)" by (rule card_mono) simp_all
  then have "ld_frames_new d \<le> 2 ^ 32" unfolding r(4) card_word by simp
  moreover have "k \<le> 65535" using assms(1) by (simp add: stream_ok_def MAX_SOURCE_BLOCKS_def)
  ultimately have "max (2 * k + 8) (3 * ld_frames_new d) \<le> 3 * 2 ^ 32" by simp
  then have table: "length (us_keys (ld_seen d)) \<le> 3 * 2 ^ 32" using b(2) by (rule order_trans [rotated])
  have "ld_solved_count d \<le> k"
    using recv_closure(2,3) [OF d(2)] card_mono [of "{..<ld_k d}" "dom (known d)"] same by simp
  then have solved: "decoder_solved_count d \<le> min k (decoder_frames_new d)"
    using solved_le_frames [OF d(2)] by (simp add: decoder_solved_count_def decoder_frames_new_def)
  have offs: "off + ld_words d \<le> length (ld_arena d)" if s: "Some off \<in> set (ld_solved d)" for off
  proof -
    obtain c where "c < length (ld_solved d)" "ld_solved d ! c = Some off" using s unfolding in_set_conv_nth by blast
    then show ?thesis using owner_slot [OF own, of "Block c" off] by (simp add: solved_off_def aligned_def)
  qed
  have eqs: "pf_off f + ld_words d \<le> length (ld_arena d)" if s: "f \<in> set (ld_frames d)" "pf_active f" for f
  proof -
    obtain i where "i < length (ld_frames d)" "ld_frames d ! i = f" using s(1) unfolding in_set_conv_nth by blast
    then show ?thesis using owner_slot [OF own, of "Equation i" "pf_off f"] s(2) by (simp add: live_def off_of_def aligned_def)
  qed
  have "\<forall>c < k. \<forall>f \<in> set (ld_by_block d ! c). f < length (ld_frames d)"
    using pend same(1) unfolding pend_ok_def by blast
  then have ids: "\<forall>ids \<in> set (ld_by_block d). \<forall>f \<in> set ids. f < length (ld_frames d)"
    using lb by (metis in_set_conv_nth)
  have lists: "length (ld_frames d) \<le> 32 * k" "sum_list (map length (ld_by_block d)) \<le> 64 * k"
    using r(2,3) b(1) lim(1) unfolding waiting_def by linarith+
  have "4 * length (ld_arena d) < 2 ^ 29" using arena by linarith
  with d(1) arena(1) lists b(2) [folded decoder_frames_new_def] table fresh solved offs eqs ids show ?thesis by blast
qed

theorem decoder_storage_bounded_witness:
  "\<exists>d0 d. decoder_with_mode plain_platform 3 2 7 5 3 True = Some (Inr d0) \<and>
     feed plain_platform d0 [(9, [1, 2]), (2, []), (0, [5, 6])] = Some d \<and> 4 * length (ld_arena d) < 2 ^ 29"
proof -
  have s: "stream_ok 3 2 5" by (rule small_stream)
  obtain d0 where d0: "decoder_with_mode plain_platform 3 2 7 5 3 True = Some (Inr d0)"
    using new_decoder_ok [OF s, of 3 plain_platform 7 True] by blast
  from decoder_storage_bounded [OF s _ d0, of plain_platform "[(9, [1, 2]), (2, []), (0, [5, 6])]"] d0 show ?thesis by blast
qed

text \<open>C19: a decoder only ever gains: the value of a solved block never changes, whatever frames follow,
  corrupt ones included, the number of solved blocks and the three counters never decrease, a complete
  decoder stays complete and assembles to the same bytes, and until completion every frame is counted
  exactly once, as new, duplicate or dropped.\<close>

theorem decoder_progress:
  assumes "stream_ok k block_len total_len" and "sys = 0 \<or> sys = k"
    and "decoder_with_mode P k block_len session_id total_len sys causal = Some (Inr d0)"
    and "feed Q d0 fs = Some d" and "feed R d gs = Some d'"
  shows "(\<forall>b v. known d b = Some v \<longrightarrow> known d' b = Some v) \<and>
    decoder_solved_count d \<le> decoder_solved_count d' \<and> decoder_frames_new d \<le> decoder_frames_new d' \<and>
    decoder_frames_dup d \<le> decoder_frames_dup d' \<and> decoder_frames_dropped d \<le> decoder_frames_dropped d' \<and>
    (is_complete d \<longrightarrow> is_complete d' \<and> assemble d' = assemble d) \<and>
    decoder_frames_new d' + decoder_frames_dup d' + decoder_frames_dropped d' \<le> length fs + length gs \<and>
    (is_complete d' \<or> decoder_frames_new d' + decoder_frames_dup d' + decoder_frames_dropped d' = length fs + length gs)"
proof -
  have "recv_ok d0" using new_decoder_ok [OF assms(1,2), of P session_id causal] assms(3) by auto
  from feed_advances [OF this assms(4)] have a: "advances d0 (length fs) d" .
  then have recv: "recv_ok d" by (simp add: advances_def)
  from feed_advances [OF this assms(5)] have b: "advances d (length gs) d'" .
  from advances_trans [OF \<open>recv_ok d0\<close> a b] have c: "advances d0 (length fs + length gs) d'" .
  have z: "frames_seen d0 = 0" using assms(3)
    by (auto simp: frames_seen_def decoder_frames_new_def decoder_frames_dup_def decoder_frames_dropped_def
        decoder_with_mode_def Let_def split: if_splits bind_splits)
  have r: "recv_ok d'" "same_stream d d'" "known d \<subseteq>\<^sub>m known d'" using b by (simp_all add: advances_def)
  have "card (dom (known d)) \<le> card (dom (known d'))"
    by (rule card_mono [OF finite_subset [OF recv_closure(3) [OF r(1)]] map_le_implies_dom_le [OF r(3)]]) simp
  then have "decoder_solved_count d \<le> decoder_solved_count d'"
    by (simp add: decoder_solved_count_def recv_closure(2) [OF recv] recv_closure(2) [OF r(1)])
  moreover have "\<forall>b v. known d b = Some v \<longrightarrow> known d' b = Some v"
    using r(3) unfolding map_le_def by (metis domI)
  moreover have "is_complete d' \<and> assemble d' = assemble d" if "is_complete d"
  proof -
    note full = known_complete [OF recv r that]
    then have "chunk_of d' = chunk_of d" using r(2) by (simp add: chunk_of_def same_stream_def fun_eq_iff)
    then show ?thesis using full r(2) by (simp add: assemble_eq [OF recv] assemble_eq [OF r(1)] same_stream_def)
  qed
  ultimately show ?thesis using b c z
    by (auto simp: advances_def frames_seen_def decoder_frames_new_def decoder_frames_dup_def decoder_frames_dropped_def)
qed

theorem decoder_progress_witness:
  "\<exists>d0 d d'. decoder_with_mode plain_platform 3 2 7 5 3 True = Some (Inr d0) \<and>
     feed plain_platform d0 [(0, [5, 6])] = Some d \<and> feed plain_platform d [(9, [1, 2]), (2, [])] = Some d' \<and>
     decoder_solved_count d \<le> decoder_solved_count d' \<and>
     decoder_frames_new d' + decoder_frames_dup d' + decoder_frames_dropped d' \<le> 3"
proof -
  have s: "stream_ok 3 2 5" by (rule small_stream)
  obtain d0 where d0: "decoder_with_mode plain_platform 3 2 7 5 3 True = Some (Inr d0)" "recv_ok d0"
    using new_decoder_ok [OF s, of 3 plain_platform 7 True] by blast
  obtain d where d: "feed plain_platform d0 [(0, [5, 6])] = Some d" "recv_ok d"
    using feed_recv [OF d0(2), of plain_platform "[(0, [5, 6])]"] by blast
  obtain d' where d': "feed plain_platform d [(9, [1, 2]), (2, [])] = Some d'"
    using feed_recv [OF d(2), of plain_platform "[(9, [1, 2]), (2, [])]"] by blast
  from decoder_progress [OF s _ d0(1) d(1) d'] d0(1) d(1) d' show ?thesis by auto
qed

end
