(* ===== verification/Spec2Isabelle.thy ===== *)
theory Spec2Isabelle
  imports Files Stall Budget Weave
begin

text \<open>
  Verification of the crate \<open>deopti-transfer\<close>, the sources under \<open>src/src/\<close>.

  The program moves a byte string over a one-way channel that loses, repeats, reorders and damages
  messages. A file is packed into a self-describing container (\<open>container.rs\<close>), plain, encrypted
  (\<open>crypto.rs\<close>) or committed for a judge (\<open>jrc.rs\<close>, \<open>jrp.rs\<close>). A sender (\<open>session.rs\<close>) cuts
  the container into \<open>k\<close> blocks and emits frames, each the XOR of a few blocks (\<open>fountain.rs\<close>)
  under a header with integrity tags (\<open>frame.rs\<close>). Which blocks is fixed by the sequence number: the
  first \<open>k\<close> frames are the causal chain or the blocks themselves, the rest are drawn from a
  robust-soliton distribution (\<open>soliton.rs\<close>, \<open>dlog.rs\<close>) with a deterministic generator
  (\<open>prng.rs\<close>). A receiver locks to the first stream it sees and feeds a peeling decoder until the
  container is complete. The XOR runs on a vector engine (\<open>simd.rs\<close>) over byte views of words
  (\<open>bytes.rs\<close>), seen frames are kept in an open-addressing set (\<open>set.rs\<close>), and \<open>capacity.rs\<close>
  computes which frame sizes hold a payload.

  \<^bold>\<open>Conventions.\<close> Words are \<open>w word\<close>, \<open>usize\<close> is \<open>nat\<close> with the 64-bit bound written out
  where the source checks it. A structure is a record whose field prefix names it (\<open>sd_\<close> sender,
  \<open>rc_\<close> receiver, \<open>ld_\<close> decoder, \<open>le_\<close> encoder, \<open>fh_\<close> frame header, \<open>dh_\<close> container header).
  Where the source can panic or loop, the definition returns an \<open>option\<close> whose \<open>None\<close> is the
  panic or the loop, so a theorem that gives \<open>Some\<close> states that the code returns. \<open>Result\<close> is the
  sum \<open>error + 'a\<close>. A method on \<open>&mut self\<close> returns the new state. Third-party code (libm, BLAKE3,
  the header codecs, gzip, the ciphers, X25519) is the platform argument \<open>P\<close>, a record that grows
  from layer to layer (\<open>platform\<close>, \<open>wire_platform\<close>, \<open>crypto_platform\<close>,
  \<open>container_platform\<close>, \<open>jrc_platform\<close>); what a theorem needs of it is a named hypothesis
  (\<open>codec_ok\<close>, \<open>dcf_codec_ok\<close>, \<open>gzip_ok\<close>, \<open>digest_ok\<close>, \<open>aead_ok\<close>, \<open>jrc_ok\<close>), and
  \<open>plain_wire\<close>, \<open>plain_container\<close>, \<open>plain_jrc\<close> are platforms on which the hypotheses hold.

  \<^bold>\<open>The theories and what their lemmas show.\<close>
  \<^item> \<open>Prelude\<close>: integer types, checked access, little-endian bytes. \<open>Errors\<close> (\<open>error.rs\<close>): the
    error type, its display texts and that they identify the error.
  \<^item> \<open>Simd\<close> (\<open>simd.rs\<close>, \<open>bytes.rs\<close>): every dispatch path is the element-wise XOR.
  \<^item> \<open>Prng\<close> (\<open>prng.rs\<close>): full period of the generator, injective frame seeds.
  \<^item> \<open>U32Set\<close> (\<open>set.rs\<close>): the table refines a finite set; probing and rehashing end; its capacity
    stays within three slots for a key. The locale
    \<open>key_set\<close> is the interface the decoder uses.
  \<^item> \<open>Float64\<close>, \<open>Dlog\<close>, \<open>Soliton\<close>, \<open>Sampler\<close> (\<open>dlog.rs\<close>, \<open>soliton.rs\<close>): a computable model
    of binary64; the logarithm returns on every value; the two-level sampler agrees with the binary
    search and stays in range.
  \<^item> \<open>Frame\<close> (\<open>frame.rs\<close>), \<open>Capacity\<close> (\<open>capacity.rs\<close>): parsing accepts exactly the packed frames;
    the chosen frame size is the least sufficient one.
  \<^item> \<open>Select\<close>, \<open>Encoder\<close> (\<open>fountain.rs\<close>): block selection always returns a duplicate-free set in
    range; a frame is the XOR of its source blocks. \<open>Weave\<close>: the causal frames telescope to the blocks.
  \<^item> \<open>Blockset\<close> (\<open>fountain.rs\<close>): the hybrid index set behind the locale \<open>index_set\<close>.
  \<^item> \<open>Decoder\<close> (\<open>fountain.rs\<close>): the decoder and its operations. \<open>Peeling\<close> is the specification,
    a relation on known blocks and pending equations without arenas or index structures.
    \<open>Cascade\<close> shows that the work-list loop implements it, never panics and ends, under a
    structural invariant of arena, counters and waiting lists; \<open>Receive\<close> shows the same of
    \<open>add_frame\<close> as a whole. \<open>Fountain\<close> draws the conclusions for any list of frames: while the
    frames fit the decoder's limits (\<open>roomy\<close>) it is complete exactly when they determine every block.
    \<open>Budget\<close> bounds the arena, the equations and the waiting lists by the announced stream and the
    table of remembered numbers by the frames accepted (the decoder's limits leave that table out),
    shows that all offsets fit in 32 bits and that no solved block is ever lost.
  \<^item> \<open>Session\<close>, \<open>Channel\<close>, \<open>Answers\<close>, \<open>Delivery\<close> (\<open>session.rs\<close>): sender and receiver, the outcomes of
    a push, what decides its answer (\<open>refusal\<close>, \<open>completion\<close>) and what the first frame of a stream does;
    a sender's messages on a channel with noise; the invariant of every reachable receiver, soundness
    and completion of transfers. \<open>Twoblocks\<close>, \<open>Stall\<close>: a decoder whose arena is full stays incomplete
    for good, and a session of two blocks that comes to this without losing a message.
  \<^item> \<open>Names\<close>, \<open>Crypto\<close>, \<open>Container\<close> (\<open>container.rs\<close>, \<open>crypto.rs\<close>): file-name and media-type
    sanitising, keys and sealing, packing and unpacking; which inputs are packed, round trips and total,
    checked unpacking.
  \<^item> \<open>Formats\<close>: the locale \<open>wire_format\<close>, interpreted by the envelope of \<open>Jrc\<close> (\<open>jrc.rs\<close>) and the
    transcript of \<open>Jrp\<close> (\<open>jrp.rs\<close>), whose other lemmas are recovery, binding and completeness.
  \<^item> \<open>Files\<close>: a file from end to end, and which senders the capacity arithmetic promises.

  \<^bold>\<open>Loops.\<close> No definition runs on fuel. A loop with an evident measure is a \<open>function\<close> with its
  termination proof (searches, vector loops, the logarithm's series, inflating, which is bounded by
  the declared length). The others are \<open>partial_function (option)\<close>: normalisation in \<open>dlog\<close>, probing
  and rehashing in the set, rejection in block selection, the decoder's cascade. That each returns is
  proved: by exactness of halving and doubling, by a free slot below the load factor, by the full
  period of the generator, by the number of unsolved blocks and live equations.

  \<^bold>\<open>Not modelled.\<close> Capacity hints of vectors, debug assertions and inlining; overwriting of secrets
  in memory on drop; the bodies of third-party crates; the computational security statements of
  \<open>jrc.rs\<close> and \<open>jrp.rs\<close>, which are about probability and running time: binding is stated up to
  explicit collisions instead; that loss leaves the decoder enough equations, which is a statement of
  probability: completion is characterised by the peeling closure of the equations received, and
  proved outright for the first \<open>k\<close> frames. \<open>lib.rs\<close> declares modules and re-exports. Tests and
  benchmarks have no program logic.
\<close>

end
